(* ===== verification/Figwal_Prelude.thy ===== *)
theory Figwal_Prelude
  imports Main "HOL-Library.Word" "HOL-Library.List_Lexorder" "HOL-Library.Char_ord"
    "HOL-Library.AList" "HOL-Library.Sublist" "HOL-Library.Code_Target_Nat"
begin

text \<open>
  What every component shares: bytes, Go's unsigned 64-bit arithmetic on natural numbers with
  the wrap-around written out, the errors of the program as one datatype, two small binders for
  fallible and for fallible stateful code, iteration with a callback that may stop, the decimal
  printing and parsing of the standard library, and generic lemmas on lists.
\<close>

named_theorems u64_simps \<open>unsigned 64-bit arithmetic without overflow\<close>

section \<open>Bytes and machine integers\<close>

type_synonym byte = "8 word"
type_synonym bytes = "byte list"

text \<open>A byte string from ASCII text.\<close>

definition bytes_of :: "string \<Rightarrow> bytes" where
  "bytes_of s = map (\<lambda>c. word_of_nat (of_char c)) s"

lemma bytes_of_simps [simp]:
  "bytes_of [] = []"
  "bytes_of (c # s) = word_of_nat (of_char c) # bytes_of s"
  "bytes_of (s @ t) = bytes_of s @ bytes_of t"
  "length (bytes_of s) = length s"
  by (simp_all add: bytes_of_def)

text \<open>
  Go's \<open>uint64\<close> is a natural number below \<open>2 ^ 64\<close>. Addition and subtraction wrap, as the
  language defines; the two lemmas give the plain operations where nothing overflows.
\<close>

abbreviation u64_lim :: nat where
  "u64_lim \<equiv> 18446744073709551616"

abbreviation u64_max :: nat where
  "u64_max \<equiv> 18446744073709551615"

definition u64_add :: "nat \<Rightarrow> nat \<Rightarrow> nat" where
  "u64_add a b = (a + b) mod u64_lim"

definition u64_sub :: "nat \<Rightarrow> nat \<Rightarrow> nat" where
  "u64_sub a b = (a + (u64_lim - b mod u64_lim)) mod u64_lim"

lemma u64_add_eq [u64_simps]: "a + b < u64_lim \<Longrightarrow> u64_add a b = a + b"
  by (simp add: u64_add_def)

lemma u64_sub_eq [u64_simps]:
  assumes "b \<le> a" "a < u64_lim"
  shows "u64_sub a b = a - b"
proof -
  have "a + (u64_lim - b mod u64_lim) = (a - b) + u64_lim"
    using assms by simp
  then have "u64_sub a b = ((a - b) + u64_lim) mod u64_lim"
    by (simp only: u64_sub_def)
  then show ?thesis using assms by (simp only: mod_add_self2) simp
qed

lemma u64_add_less: "u64_add a b < u64_lim"
  by (simp add: u64_add_def)

lemma u64_sub_less: "u64_sub a b < u64_lim"
  by (simp add: u64_sub_def)

lemma u64_add_max_wraps: "u64_add u64_max 1 = 0"
  by (simp add: u64_add_def)

lemma u64_sub_zero_wraps: "u64_sub 0 1 = u64_max"
  by (simp add: u64_sub_def)

section \<open>Errors\<close>

text \<open>
  The sentinel errors of the packages, the errors of the operating system and the standard
  library the code distinguishes, and \<open>ErrMsg\<close> for an error made in place by
  \<^verbatim>\<open>fmt.Errorf\<close> with no sentinel inside. An error that wraps a sentinel is that sentinel,
  which is all \<^verbatim>\<open>errors.Is\<close> can see.
\<close>

datatype err =
    ErrCorrupt | ErrNotJSON | ErrNotObject | ErrReservedKey
  | ErrFull | ErrOutOfRange | ErrSegReadOnly
  | ErrNotExist | ErrExist | ErrNotDir | ErrIsDir | ErrNotEmpty | ErrIO | ErrEOF
  | ErrSyntax | ErrRange
  | ErrOutOfOrder nat nat | ErrNotFound | ErrEmpty | ErrCodecMismatch | ErrPayloadTooLarge
  | ErrReadOnly | ErrForkMismatch nat nat | ErrRangeBoundary
  | ErrForkPending | ErrForkConflict | ErrInvalidForkName
  | ErrSharedMutation | ErrLogRangeBoundary
  | ErrNoChannel | ErrUnknownTrunk | ErrStopRange
  | ErrMsg string

section \<open>Fallible code and fallible stateful code\<close>

definition rbind :: "'e + 'a \<Rightarrow> ('a \<Rightarrow> 'e + 'b) \<Rightarrow> 'e + 'b" where
  "rbind m f = (case m of Inl e \<Rightarrow> Inl e | Inr x \<Rightarrow> f x)"

lemma rbind_simps [simp]:
  "rbind (Inl e) f = Inl e"
  "rbind (Inr x) f = f x"
  by (simp_all add: rbind_def)

lemma rbind_eq_Inr: "rbind m f = Inr y \<longleftrightarrow> (\<exists>x. m = Inr x \<and> f x = Inr y)"
  by (cases m) auto

lemma rbind_eq_Inl: "rbind m f = Inl e \<longleftrightarrow> m = Inl e \<or> (\<exists>x. m = Inr x \<and> f x = Inl e)"
  by (cases m) auto

text \<open>The state is kept on the error path too: what was done before the failure stays done.\<close>

definition sbind :: "('e + 'a) \<times> 's \<Rightarrow> ('a \<Rightarrow> 's \<Rightarrow> ('e + 'b) \<times> 's) \<Rightarrow> ('e + 'b) \<times> 's" where
  "sbind m f = (case fst m of Inl e \<Rightarrow> (Inl e, snd m) | Inr x \<Rightarrow> f x (snd m))"

lemma sbind_simps [simp]:
  "sbind (Inl e, s) f = (Inl e, s)"
  "sbind (Inr x, s) f = f x s"
  by (simp_all add: sbind_def)

lemma sbind_eq_Inr:
  "sbind m f = (Inr y, t) \<longleftrightarrow> (\<exists>x s. m = (Inr x, s) \<and> f x s = (Inr y, t))"
  by (cases m; cases "fst m") (auto simp: sbind_def)

definition lift_res :: "('e + 'a) \<Rightarrow> 's \<Rightarrow> ('e + 'a) \<times> 's" where
  "lift_res r s = (r, s)"

lemma lift_res_simps [simp]:
  "sbind (lift_res (Inl e) s) f = (Inl e, s)"
  "sbind (lift_res (Inr x) s) f = f x s"
  by (simp_all add: lift_res_def)

text \<open>A fallible map over a list, stopping at the first error.\<close>

fun traverse :: "('a \<Rightarrow> 'e + 'b) \<Rightarrow> 'a list \<Rightarrow> 'e + 'b list" where
  "traverse f [] = Inr []"
| "traverse f (x # xs) = rbind (f x) (\<lambda>y. rbind (traverse f xs) (\<lambda>ys. Inr (y # ys)))"

lemma traverse_all_Inr:
  "(\<And>x. x \<in> set xs \<Longrightarrow> f x = Inr (g x)) \<Longrightarrow> traverse f xs = Inr (map g xs)"
  by (induction xs) auto

lemma traverse_append:
  "traverse f (xs @ ys) = rbind (traverse f xs) (\<lambda>us. rbind (traverse f ys) (\<lambda>vs. Inr (us @ vs)))"
proof (induction xs)
  case Nil
  then show ?case by (cases "traverse f ys") simp_all
next
  case (Cons x xs)
  then show ?case
    by (cases "f x"; cases "traverse f xs"; cases "traverse f ys") simp_all
qed

section \<open>Iteration with a callback that may stop\<close>

text \<open>
  \<open>iterE fn s xs\<close> calls \<open>fn\<close> on the elements in order, threading the callback's own state;
  an error from the callback stops the iteration and is the result.
\<close>

fun iterE :: "('s \<Rightarrow> 'a \<Rightarrow> 's \<times> err option) \<Rightarrow> 's \<Rightarrow> 'a list \<Rightarrow> 's \<times> err option" where
  "iterE fn s [] = (s, None)"
| "iterE fn s (x # xs) = (case fn s x of (s', Some e) \<Rightarrow> (s', Some e) | (s', None) \<Rightarrow> iterE fn s' xs)"

lemma iterE_append:
  "iterE fn s (xs @ ys) =
     (case iterE fn s xs of (s', Some e) \<Rightarrow> (s', Some e) | (s', None) \<Rightarrow> iterE fn s' ys)"
  by (induction xs arbitrary: s) (auto split: prod.split option.split)

lemma iterE_collect: "iterE (\<lambda>acc x. (acc @ [x], None)) acc xs = (acc @ xs, None)"
  by (induction xs arbitrary: acc) auto

lemma iterE_cong:
  "(\<And>s x. x \<in> set xs \<Longrightarrow> fn s x = fn' s x) \<Longrightarrow> iterE fn s xs = iterE fn' s xs"
  by (induction xs arbitrary: s) (auto split: prod.split option.split)

text \<open>A callback that skips some elements is the iteration over the others.\<close>

lemma iterE_filter:
  "iterE (\<lambda>s x. if P x then fn s x else (s, None)) s xs = iterE fn s (filter P xs)"
  by (induction xs arbitrary: s) (auto split: prod.split option.split)

text \<open>A callback that stops at the first element outside a prefix.\<close>

lemma iterE_boundary:
  assumes "\<And>x. x \<in> set xs \<Longrightarrow> P x" "ys = [] \<or> \<not> P (hd ys)"
  shows "iterE (\<lambda>s x. if P x then fn s x else (s, Some b)) s (xs @ ys) =
    (case iterE fn s xs of (s', Some e) \<Rightarrow> (s', Some e)
     | (s', None) \<Rightarrow> (s', if ys = [] then None else Some b))"
proof -
  have "iterE (\<lambda>s x. if P x then fn s x else (s, Some b)) s xs = iterE fn s xs"
    by (rule iterE_cong) (simp add: assms(1))
  then show ?thesis using assms(2)
    by (cases ys) (auto simp: iterE_append split: prod.split option.split)
qed

section \<open>Decimal numbers\<close>

text \<open>\<^verbatim>\<open>fmt.Sprintf("%d", n)\<close>, and zero-padded to a width.\<close>

definition digit_char :: "nat \<Rightarrow> char" where
  "digit_char d = char_of (48 + d :: nat)"

fun dec :: "nat \<Rightarrow> string" where
  "dec n = (if n < 10 then [digit_char n] else dec (n div 10) @ [digit_char (n mod 10)])"

declare dec.simps [simp del]

definition dec_pad :: "nat \<Rightarrow> nat \<Rightarrow> string" where
  "dec_pad w n = replicate (w - length (dec n)) (CHR ''0'') @ dec n"

text \<open>
  \<^verbatim>\<open>strconv.ParseUint(s, 10, 64)\<close>: an empty string and any other character than a digit are
  a syntax error, a value that does not fit 64 bits a range error.
\<close>

definition is_digit :: "char \<Rightarrow> bool" where
  "is_digit c \<longleftrightarrow> 48 \<le> (of_char c :: nat) \<and> (of_char c :: nat) \<le> 57"

definition digit_val :: "char \<Rightarrow> nat" where
  "digit_val c = of_char c - 48"

definition dec_val :: "string \<Rightarrow> nat" where
  "dec_val s = foldl (\<lambda>n c. 10 * n + digit_val c) 0 s"

definition ParseUint :: "string \<Rightarrow> err + nat" where
  "ParseUint s =
     (if s = [] \<or> \<not> list_all is_digit s then Inl ErrSyntax
      else if dec_val s < u64_lim then Inr (dec_val s) else Inl ErrRange)"

lemma digit_char_inverse [simp]:
  "d < 10 \<Longrightarrow> digit_val (digit_char d) = d" "d < 10 \<Longrightarrow> is_digit (digit_char d)"
  by (simp_all add: digit_val_def digit_char_def is_digit_def)

lemma dec_val_append: "dec_val (s @ [c]) = 10 * dec_val s + digit_val c"
  by (simp add: dec_val_def)

lemma dec_val_zeros: "dec_val (replicate k (CHR ''0'') @ s) = dec_val s"
  by (induction k) (simp_all add: dec_val_def digit_val_def)

lemma dec_val_dec [simp]: "dec_val (dec n) = n"
proof (induction n rule: dec.induct)
  case (1 n)
  show ?case
  proof (cases "n < 10")
    case True
    then show ?thesis by (simp add: dec.simps [of n] dec_val_def)
  next
    case False
    with 1 show ?thesis by (simp add: dec.simps [of n] dec_val_append)
  qed
qed

lemma dec_digits: "list_all is_digit (dec n)"
proof (induction n rule: dec.induct)
  case (1 n)
  then show ?case by (cases "n < 10") (simp_all add: dec.simps [of n])
qed

lemma dec_nonempty [simp]: "dec n \<noteq> []"
  by (subst dec.simps) simp

lemma ParseUint_dec_pad: "n < u64_lim \<Longrightarrow> ParseUint (dec_pad w n) = Inr n"
  using dec_digits [of n]
  by (auto simp: ParseUint_def dec_pad_def dec_val_zeros list_all_iff is_digit_def)

lemma ParseUint_dec: "n < u64_lim \<Longrightarrow> ParseUint (dec n) = Inr n"
  using dec_digits [of n] by (simp add: ParseUint_def)

lemma ParseUint_bound: "ParseUint s = Inr n \<Longrightarrow> n < u64_lim"
  by (auto simp: ParseUint_def split: if_splits)

lemma dec_pad_inj: "dec_pad w m = dec_pad w n \<longleftrightarrow> m = n"
proof
  assume "dec_pad w m = dec_pad w n"
  then have "dec_val (dec_pad w m) = dec_val (dec_pad w n)" by simp
  then show "m = n" by (simp add: dec_pad_def dec_val_zeros)
qed simp

section \<open>Lists\<close>

lemma take_drop_middle: "take (length ys) (drop (length xs) (xs @ ys @ zs)) = ys"
  by simp

text \<open>
  The prefix sums of a list of lengths: where each of a sequence of blocks laid one after the
  other begins.
\<close>

fun starts :: "nat \<Rightarrow> nat list \<Rightarrow> nat list" where
  "starts k [] = []"
| "starts k (n # ns) = k # starts (k + n) ns"

lemma length_starts [simp]: "length (starts k ns) = length ns"
  by (induction ns arbitrary: k) auto

lemma starts_append: "starts k (ns @ ms) = starts k ns @ starts (k + sum_list ns) ms"
  by (induction ns arbitrary: k) (auto simp: add.assoc)

lemma nth_starts: "i < length ns \<Longrightarrow> starts k ns ! i = k + sum_list (take i ns)"
proof (induction ns arbitrary: k i)
  case Nil
  then show ?case by simp
next
  case (Cons n ns)
  then show ?case by (cases i) auto
qed

lemma starts_shift: "map (\<lambda>x. x + j) (starts k ns) = starts (k + j) ns"
  by (induction ns arbitrary: k) (auto simp: algebra_simps)

text \<open>Offset and length of each block, and how many whole blocks fit in \<open>n\<close> units.\<close>

definition spans :: "nat list \<Rightarrow> (nat \<times> nat) list" where
  "spans ns = zip (starts 0 ns) ns"

lemma spans_Nil [simp]: "spans [] = []"
  by (simp add: spans_def)

lemma spans_Cons: "spans (n # ns) = (0, n) # map (\<lambda>(off, k). (off + n, k)) (spans ns)"
proof -
  have "zip (starts n ns) ns = zip (map (\<lambda>x. x + n) (starts 0 ns)) ns"
    by (simp only: starts_shift add_0)
  also have "\<dots> = map (\<lambda>(off, k). (off + n, k)) (zip (starts 0 ns) ns)"
    by (simp only: zip_map1)
  finally show ?thesis by (simp add: spans_def)
qed

fun whole :: "nat \<Rightarrow> nat list \<Rightarrow> nat" where
  "whole n [] = 0"
| "whole n (k # ks) = (if k \<le> n then Suc (whole (n - k) ks) else 0)"

lemma whole_le: "whole n ks \<le> length ks"
  by (induction ks arbitrary: n) auto

lemma take_whole: "\<exists>tail. take n (concat xss) = concat (take (whole n (map length xss)) xss) @ tail"
proof (induction xss arbitrary: n)
  case (Cons xs xss)
  then show ?case using Cons.IH [of "n - length xs"] by auto
qed simp

lemma whole_all: "sum_list ks \<le> n \<Longrightarrow> whole n ks = length ks"
  by (induction ks arbitrary: n) auto

lemma length_concat_take: "length (concat (take i xss)) = sum_list (take i (map length xss))"
  by (simp add: length_concat take_map)

lemma concat_split_nth:
  "i < length xss \<Longrightarrow> concat xss = concat (take i xss) @ xss ! i @ concat (drop (Suc i) xss)"
  by (metis concat.simps(2) concat_append id_take_nth_drop)

end
