(* ===== verification/Forest_Budget.thy ===== *)
theory Forest_Budget
  imports Figwal_Prelude "HOL-Library.Multiset"
begin

text \<open>
  The accountant of the caches (\<^verbatim>\<open>forest/forest.go\<close>): a byte budget shared by owners, which
  evicts the globally coldest runs until the budget fits, and the idle sweep. The code knows its owners by the
  interface \<^verbatim>\<open>owner\<close> only; here its two methods are arguments, and what they promise is the
  locale \<open>evicting\<close>. The order in which the owners are visited, a map's order in the code, is the order of a list
  about which nothing is assumed. A loop that does not return is \<open>None\<close>.
\<close>

section \<open>The budget\<close>

record budget =
  b_limit :: int
  b_bytes :: int
  b_epoch :: int
  b_owners :: "nat list"
  b_evictions :: int

definition NewBudget :: "int \<Rightarrow> budget" where
  "NewBudget limit = \<lparr>b_limit = limit, b_bytes = 0, b_epoch = 0, b_owners = [], b_evictions = 0\<rparr>"

definition SetLimit :: "int \<Rightarrow> budget \<Rightarrow> budget" where
  "SetLimit limit b = b\<lparr>b_limit := limit\<rparr>"

definition budget_Stats :: "budget option \<Rightarrow> int \<times> int \<times> int" where
  "budget_Stats bo = (case bo of None \<Rightarrow> (0, 0, 0) | Some b \<Rightarrow> (b_bytes b, b_limit b, b_evictions b))"

definition EpochNow :: "budget option \<Rightarrow> int" where
  "EpochNow bo = (case bo of None \<Rightarrow> 0 | Some b \<Rightarrow> b_epoch b)"

definition adopt :: "nat \<Rightarrow> budget option \<Rightarrow> budget option" where
  "adopt o' bo = map_option (\<lambda>b. if o' \<in> set (b_owners b) then b else b\<lparr>b_owners := b_owners b @ [o']\<rparr>) bo"

definition disown :: "nat \<Rightarrow> budget option \<Rightarrow> budget option" where
  "disown o' bo = map_option (\<lambda>b. b\<lparr>b_owners := filter (\<lambda>x. x \<noteq> o') (b_owners b)\<rparr>) bo"

section \<open>Charging and sweeping\<close>

definition owner_coldest :: "('o \<Rightarrow> int option) \<Rightarrow> 'o list \<Rightarrow> nat \<Rightarrow> int option" where
  "owner_coldest coldest cs i = (if i < length cs then coldest (cs ! i) else None)"

text \<open>The owner with the coldest run, the first one of those that tie.\<close>

fun pick_victim :: "('o \<Rightarrow> int option) \<Rightarrow> 'o list \<Rightarrow> nat list \<Rightarrow> (nat \<times> int) option \<Rightarrow> (nat \<times> int) option" where
  "pick_victim coldest cs [] best = best"
| "pick_victim coldest cs (i # is) best = (case owner_coldest coldest cs i of
     None \<Rightarrow> pick_victim coldest cs is best
   | Some e \<Rightarrow> pick_victim coldest cs is
       (case best of None \<Rightarrow> Some (i, e) | Some (j, d) \<Rightarrow> if e < d then Some (i, e) else Some (j, d)))"

partial_function (option) charge_loop ::
  "('o \<Rightarrow> int option) \<Rightarrow> ('o \<Rightarrow> int \<times> 'o) \<Rightarrow> int \<Rightarrow> budget \<Rightarrow> 'o list \<Rightarrow> (budget \<times> 'o list) option" where
  "charge_loop coldest evict limit b cs =
     (if b_bytes b > limit then (case pick_victim coldest cs (b_owners b) None of
          None \<Rightarrow> Some (b, cs)
        | Some (i, e) \<Rightarrow> (case evict (cs ! i) of (freed, c) \<Rightarrow>
            if freed > 0
            then charge_loop coldest evict limit (b\<lparr>b_bytes := b_bytes b - freed, b_evictions := b_evictions b + 1\<rparr>) (cs[i := c])
            else Some (b, cs[i := c])))
      else Some (b, cs))"

definition charge ::
  "('o \<Rightarrow> int option) \<Rightarrow> ('o \<Rightarrow> int \<times> 'o) \<Rightarrow> int \<Rightarrow> budget option \<Rightarrow> 'o list \<Rightarrow> (budget option \<times> 'o list) option" where
  "charge coldest evict delta bo cs = (case bo of
     None \<Rightarrow> Some (None, cs)
   | Some b0 \<Rightarrow> let b = b0\<lparr>b_bytes := b_bytes b0 + delta\<rparr> in
       if b_limit b \<le> 0 then Some (Some b, cs)
       else map_option (apfst Some) (charge_loop coldest evict (b_limit b) b cs))"

partial_function (option) trim_owner ::
  "('o \<Rightarrow> int option) \<Rightarrow> ('o \<Rightarrow> int \<times> 'o) \<Rightarrow> int \<Rightarrow> nat \<Rightarrow> budget \<Rightarrow> 'o list \<Rightarrow> nat \<Rightarrow> int \<Rightarrow> (budget \<times> 'o list \<times> nat \<times> int) option" where
  "trim_owner coldest evict cutoff i b cs dropped freed = (case owner_coldest coldest cs i of
     None \<Rightarrow> Some (b, cs, dropped, freed)
   | Some e \<Rightarrow>
       if e \<ge> cutoff then Some (b, cs, dropped, freed)
       else (case evict (cs ! i) of (f, c) \<Rightarrow>
         if f \<le> 0 then Some (b, cs[i := c], dropped, freed)
         else trim_owner coldest evict cutoff i (b\<lparr>b_bytes := b_bytes b - f, b_evictions := b_evictions b + 1\<rparr>) (cs[i := c])
           (Suc dropped) (freed + f)))"

fun trim_owners ::
  "('o \<Rightarrow> int option) \<Rightarrow> ('o \<Rightarrow> int \<times> 'o) \<Rightarrow> int \<Rightarrow> nat list \<Rightarrow> budget \<Rightarrow> 'o list \<Rightarrow> nat \<Rightarrow> int \<Rightarrow> (budget \<times> 'o list \<times> nat \<times> int) option" where
  "trim_owners coldest evict cutoff [] b cs dropped freed = Some (b, cs, dropped, freed)"
| "trim_owners coldest evict cutoff (i # is) b cs dropped freed =
     (case trim_owner coldest evict cutoff i b cs dropped freed of
        None \<Rightarrow> None
      | Some (b, cs, dropped, freed) \<Rightarrow> trim_owners coldest evict cutoff is b cs dropped freed)"

definition TrimIdle ::
  "('o \<Rightarrow> int option) \<Rightarrow> ('o \<Rightarrow> int \<times> 'o) \<Rightarrow> int \<Rightarrow> budget option \<Rightarrow> 'o list \<Rightarrow> (budget option \<times> 'o list \<times> nat \<times> int) option" where
  "TrimIdle coldest evict keep bo cs = (case bo of
     None \<Rightarrow> Some (None, cs, 0, 0)
   | Some b0 \<Rightarrow> let b = b0\<lparr>b_epoch := b_epoch b0 + 1\<rparr>; cutoff = b_epoch b - 1 - keep in
       map_option (apfst Some) (trim_owners coldest evict cutoff (b_owners b) b cs 0 0))"

lemma charge_loop_stop:
  "\<not> (b_bytes b > limit \<and> pick_victim coldest cs (b_owners b) None \<noteq> None) \<Longrightarrow> charge_loop coldest evict limit b cs = Some (b, cs)"
  by (subst charge_loop.simps) (auto split: option.split)

lemma list_all2_reflp: "reflp R \<Longrightarrow> list_all2 R xs xs"
  by (simp add: list_all2_conv_all_nth reflp_def)

lemma list_all2_transp: "transp R \<Longrightarrow> list_all2 R xs ys \<Longrightarrow> list_all2 R ys zs \<Longrightarrow> list_all2 R xs zs"
  using list_all2_trans [of R R R] by (metis transpD)

section \<open>What an owner promises\<close>

text \<open>
  An owner has evictable runs, of which it knows the epochs (\<open>heat\<close>), and resident bytes. It reports the lowest
  epoch, and evicting takes one run of that epoch away and returns its bytes.
\<close>

locale evicting =
  fixes coldest :: "'o \<Rightarrow> int option" and evict :: "'o \<Rightarrow> int \<times> 'o"
    and heat :: "'o \<Rightarrow> int multiset" and resident :: "'o \<Rightarrow> int" and ok :: "'o \<Rightarrow> bool"
  assumes coldest_heat: "coldest c = (if heat c = {#} then None else Some (Min (set_mset (heat c))))"
    and evict_heat: "ok c \<Longrightarrow> coldest c = Some e \<Longrightarrow> evict c = (f, c') \<Longrightarrow> heat c' = heat c - {#e#}"
    and evict_resident: "ok c \<Longrightarrow> coldest c = Some e \<Longrightarrow> evict c = (f, c') \<Longrightarrow> resident c' = resident c - f"
    and evict_ok: "ok c \<Longrightarrow> coldest c = Some e \<Longrightarrow> evict c = (f, c') \<Longrightarrow> ok c' \<and> 0 \<le> f"
begin

definition total :: "'o list \<Rightarrow> int" where
  "total cs = sum_list (map resident cs)"

definition warm :: "'o list \<Rightarrow> nat" where
  "warm cs = sum_list (map (size \<circ> heat) cs)"

lemma coldest_in: "coldest c = Some e \<Longrightarrow> e \<in># heat c \<and> (\<forall>d. d \<in># heat c \<longrightarrow> e \<le> d)"
  by (auto simp: coldest_heat split: if_splits)

lemma pick_victim_spec:
  "pick_victim coldest cs is best = r \<Longrightarrow>
   (r = None \<longleftrightarrow> best = None \<and> (\<forall>i\<in>set is. owner_coldest coldest cs i = None)) \<and>
   (\<forall>i e. r = Some (i, e) \<longrightarrow> (best = Some (i, e) \<or> i \<in> set is \<and> owner_coldest coldest cs i = Some e) \<and>
      (\<forall>j d. best = Some (j, d) \<longrightarrow> e \<le> d) \<and> (\<forall>j\<in>set is. \<forall>d. owner_coldest coldest cs j = Some d \<longrightarrow> e \<le> d))"
proof (induction coldest cs "is" best arbitrary: r rule: pick_victim.induct)
  case (2 coldest cs i "is" best)
  show ?case
  proof (cases "owner_coldest coldest cs i")
    case None
    then show ?thesis using 2(1) [OF None, of r] 2(3) by auto
  next
    case (Some d)
    then show ?thesis using 2(2) [OF Some, of r] 2(3) by (fastforce split: option.splits if_splits)
  qed
qed auto

lemma total_update: "i < length cs \<Longrightarrow> total (cs[i := c]) = total cs - resident (cs ! i) + resident c"
  unfolding total_def by (induction cs arbitrary: i) (auto split: nat.split)

lemma warm_update: "i < length cs \<Longrightarrow> warm (cs[i := c]) + size (heat (cs ! i)) = warm cs + size (heat c)"
  using elem_le_sum_list [of i "map (size \<circ> heat) cs"]
  by (simp add: warm_def map_update sum_list_update)

lemma victim_step:
  assumes "pick_victim coldest cs is None = Some (i, e)" "list_all ok cs" "evict (cs ! i) = (f, c)"
  shows "i \<in> set is" "i < length cs" "list_all ok (cs[i := c])" "0 \<le> f" "Suc (warm (cs[i := c])) = warm cs"
    "total (cs[i := c]) = total cs - f" "heat c = heat (cs ! i) - {#e#}" "e \<in># heat (cs ! i)"
    "\<And>j d. j \<in> set is \<Longrightarrow> j < length cs \<Longrightarrow> d \<in># heat (cs ! j) \<Longrightarrow> e \<le> d"
proof -
  have p: "i \<in> set is" "owner_coldest coldest cs i = Some e" "\<forall>j\<in>set is. \<forall>d. owner_coldest coldest cs j = Some d \<longrightarrow> e \<le> d"
    using pick_victim_spec [OF assms(1)] by auto
  then show i: "i \<in> set is" "i < length cs" by (auto simp: owner_coldest_def split: if_splits)
  have c: "coldest (cs ! i) = Some e" using p(2) i(2) by (simp add: owner_coldest_def)
  have oki: "ok (cs ! i)" using assms(2) i(2) by (simp add: list_all_length)
  show h: "heat c = heat (cs ! i) - {#e#}" "e \<in># heat (cs ! i)" using evict_heat [OF oki c assms(3)] coldest_in [OF c] by auto
  have "ok c" "0 \<le> f" using evict_ok [OF oki c assms(3)] by auto
  then show "list_all ok (cs[i := c])" "0 \<le> f" using assms(2) set_update_subset_insert [of cs i c] by (auto simp: list_all_iff)
  show "total (cs[i := c]) = total cs - f" using total_update [OF i(2), of c] evict_resident [OF oki c assms(3)] by simp
  have "size (heat (cs ! i)) = Suc (size (heat c))" using h by (metis size_Suc_Diff1)
  then show "Suc (warm (cs[i := c])) = warm cs" using warm_update [OF i(2), of c] by simp
  show "\<And>j d. j \<in> set is \<Longrightarrow> j < length cs \<Longrightarrow> d \<in># heat (cs ! j) \<Longrightarrow> e \<le> d"
  proof -
    fix j d assume j: "j \<in> set is" "j < length cs" and d: "d \<in># heat (cs ! j)"
    have "heat (cs ! j) \<noteq> {#}" using d by auto
    then obtain m where m: "coldest (cs ! j) = Some m" by (simp add: coldest_heat)
    then have "e \<le> m" using p(3) j by (simp add: owner_coldest_def)
    then show "e \<le> d" using coldest_in [OF m] d by fastforce
  qed
qed

text \<open>Charging returns. What it takes away it takes from the meter, so meter and resident bytes move together.\<close>

lemma charge_loop_returns:
  "list_all ok cs \<Longrightarrow> \<exists>b' cs'. charge_loop coldest evict limit b cs = Some (b', cs') \<and> list_all ok cs' \<and> length cs' = length cs \<and>
     b_bytes b' - b_bytes b = total cs' - total cs \<and> b_bytes b' \<le> b_bytes b \<and>
     b' = b\<lparr>b_bytes := b_bytes b', b_evictions := b_evictions b'\<rparr>"
proof (induction "warm cs" arbitrary: b cs rule: less_induct)
  case less
  show ?case
  proof (cases "b_bytes b > limit")
    case False
    then show ?thesis using less.prems by (subst charge_loop.simps) simp
  next
    case True
    show ?thesis
    proof (cases "pick_victim coldest cs (b_owners b) None")
      case None
      then show ?thesis using less.prems by (subst charge_loop.simps) simp
    next
      case (Some v)
      obtain i e where v: "v = (i, e)" by fastforce
      obtain f c where f: "evict (cs ! i) = (f, c)" by fastforce
      note st = victim_step [OF Some [unfolded v] less.prems f]
      let ?b = "b\<lparr>b_bytes := b_bytes b - f, b_evictions := b_evictions b + 1\<rparr>"
      show ?thesis
      proof (cases "f > 0")
        case False
        then show ?thesis using Some v f st True by (subst charge_loop.simps) simp
      next
        case pos: True
        have eq: "charge_loop coldest evict limit b cs = charge_loop coldest evict limit ?b (cs[i := c])"
          using Some v f pos True by (subst charge_loop.simps) simp
        show ?thesis using less.hyps [OF _ st(3), of ?b] st(4-6) unfolding eq by fastforce
      qed
    qed
  qed
qed

text \<open>What holds of every eviction holds of the whole loop, and of the sweep.\<close>

lemma list_all2_evict:
  assumes "reflp R" "\<And>c e f c'. ok c \<Longrightarrow> coldest c = Some e \<Longrightarrow> evict c = (f, c') \<Longrightarrow> R c c'"
    "list_all ok cs" "owner_coldest coldest cs i = Some e" "evict (cs ! i) = (f, c)"
  shows "list_all2 R cs (cs[i := c])"
proof -
  have i: "i < length cs" "coldest (cs ! i) = Some e" using assms(4) by (auto simp: owner_coldest_def split: if_splits)
  then have "R (cs ! i) c" using assms(2,3,5) by (auto simp: list_all_length)
  with list_all2_reflp [OF assms(1)] have "list_all2 R (cs[i := cs ! i]) (cs[i := c])" by (rule list_all2_update_cong)
  then show ?thesis by simp
qed

lemma charge_loop_rel:
  assumes R: "reflp R" "transp R" "\<And>c e f c'. ok c \<Longrightarrow> coldest c = Some e \<Longrightarrow> evict c = (f, c') \<Longrightarrow> R c c'"
  shows "list_all ok cs \<Longrightarrow> charge_loop coldest evict limit b cs = Some (b', cs') \<Longrightarrow> list_all2 R cs cs'"
proof (induction "warm cs" arbitrary: b cs rule: less_induct)
  case less
  show ?case
  proof (cases "b_bytes b > limit \<and> pick_victim coldest cs (b_owners b) None \<noteq> None")
    case False
    then show ?thesis using less.prems(2) charge_loop_stop [of limit b coldest cs evict] list_all2_reflp [OF R(1)] by auto
  next
    case True
    then obtain i e where v: "pick_victim coldest cs (b_owners b) None = Some (i, e)" by fastforce
    obtain f c where f: "evict (cs ! i) = (f, c)" by fastforce
    note st = victim_step [OF v less.prems(1) f]
    have oc: "owner_coldest coldest cs i = Some e" using pick_victim_spec [OF v] by auto
    have step: "list_all2 R cs (cs[i := c])" by (rule list_all2_evict [OF R(1,3) less.prems(1) oc f])
    let ?b = "b\<lparr>b_bytes := b_bytes b - f, b_evictions := b_evictions b + 1\<rparr>"
    have "list_all2 R (cs[i := c]) cs'"
    proof (cases "f > 0")
      case False
      then have "cs' = cs[i := c]" using less.prems(2) True v f by (subst (asm) charge_loop.simps) simp
      then show ?thesis using list_all2_reflp [OF R(1)] by simp
    next
      case pos: True
      have "charge_loop coldest evict limit ?b (cs[i := c]) = Some (b', cs')"
        using less.prems(2) True v f pos by (subst (asm) charge_loop.simps) simp
      from less.hyps [OF _ st(3) this] st(5) show ?thesis by simp
    qed
    with step show ?thesis using list_all2_transp [OF R(2)] by blast
  qed
qed

lemma trim_owner_rel:
  assumes R: "reflp R" "transp R" "\<And>c e f c'. ok c \<Longrightarrow> coldest c = Some e \<Longrightarrow> evict c = (f, c') \<Longrightarrow> R c c'"
  shows "list_all ok cs \<Longrightarrow> trim_owner coldest evict cutoff i b cs dropped freed = Some (b', cs', n, g) \<Longrightarrow> list_all2 R cs cs'"
proof (induction "warm cs" arbitrary: b cs dropped freed rule: less_induct)
  case less
  have refl: "list_all2 R xs xs" for xs by (rule list_all2_reflp [OF R(1)])
  show ?case
  proof (cases "owner_coldest coldest cs i")
    case None
    then show ?thesis using less.prems(2) refl by (subst (asm) trim_owner.simps) auto
  next
    case (Some d)
    then have v: "pick_victim coldest cs [i] None = Some (i, d)" by simp
    obtain f c where f: "evict (cs ! i) = (f, c)" by fastforce
    note st = victim_step [OF v less.prems(1) f]
    have step: "list_all2 R cs (cs[i := c])" by (rule list_all2_evict [OF R(1,3) less.prems(1) Some f])
    show ?thesis
    proof (cases "d < cutoff \<and> f > 0")
      case False
      then have "cs' = cs \<or> cs' = cs[i := c]" using Some f less.prems(2) by (subst (asm) trim_owner.simps) (auto split: if_splits)
      then show ?thesis using step refl by auto
    next
      case True
      then have "trim_owner coldest evict cutoff i (b\<lparr>b_bytes := b_bytes b - f, b_evictions := b_evictions b + 1\<rparr>) (cs[i := c])
          (Suc dropped) (freed + f) = Some (b', cs', n, g)"
        using less.prems(2) Some f by (subst (asm) trim_owner.simps) simp
      from less.hyps [OF _ st(3) this] st(5) have "list_all2 R (cs[i := c]) cs'" by simp
      with step show ?thesis using list_all2_transp [OF R(2)] by blast
    qed
  qed
qed

text \<open>What is evicted is colder than what stays, across all owners.\<close>

definition coldest_first :: "nat list \<Rightarrow> 'o list \<Rightarrow> 'o list \<Rightarrow> bool" where
  "coldest_first is cs cs' \<longleftrightarrow> length cs' = length cs \<and>
     (\<forall>i < length cs. heat (cs' ! i) \<subseteq># heat (cs ! i) \<and> (i \<notin> set is \<longrightarrow> heat (cs' ! i) = heat (cs ! i))) \<and>
     (\<forall>i < length cs. \<forall>j < length cs. \<forall>d e. d \<in># heat (cs ! i) - heat (cs' ! i) \<longrightarrow> j \<in> set is \<longrightarrow> e \<in># heat (cs' ! j) \<longrightarrow> d \<le> e)"

lemma coldest_first_refl [simp]: "coldest_first is cs cs"
  by (simp add: coldest_first_def)

lemma coldest_first_step:
  assumes v: "pick_victim coldest cs is None = Some (i, e)" "list_all ok cs" "evict (cs ! i) = (f, c)"
    and rest: "coldest_first is (cs[i := c]) cs'"
  shows "coldest_first is cs cs'"
proof -
  note st = victim_step [OF v]
  have len: "length cs' = length cs" using rest by (simp add: coldest_first_def)
  have sub1: "heat (cs[i := c] ! k) \<subseteq># heat (cs ! k)" for k using st(2,7) by (cases "k = i") auto
  have sub: "heat (cs' ! k) \<subseteq># heat (cs[i := c] ! k)" if "k < length cs" for k using rest that by (simp add: coldest_first_def)
  have old: "d \<in># heat (cs[i := c] ! k) - heat (cs' ! k) \<or> d = e" if d: "d \<in># heat (cs ! k) - heat (cs' ! k)" "k < length cs" for d k
  proof (cases "k = i \<and> d \<noteq> e")
    case True
    then have "count (heat (cs[i := c] ! k)) d = count (heat (cs ! k)) d" using st(2,7) by simp
    then show ?thesis using d(1) by (auto simp: in_diff_count)
  qed (use d in auto)
  have "d \<le> x" if "k < length cs" "j < length cs" "d \<in># heat (cs ! k) - heat (cs' ! k)" "j \<in> set is" "x \<in># heat (cs' ! j)" for k j d x
  proof (cases "d = e")
    case True
    have "x \<in># heat (cs ! j)" using that(2,5) sub sub1 by (meson mset_subset_eqD)
    then show ?thesis using True st(9) that(2,4) by simp
  next
    case False
    then have "d \<in># heat (cs[i := c] ! k) - heat (cs' ! k)" using old that(1,3) by blast
    then show ?thesis using rest that unfolding coldest_first_def by simp
  qed
  moreover have "heat (cs' ! k) = heat (cs ! k)" if "k < length cs" "k \<notin> set is" for k
  proof -
    have "k \<noteq> i" using that(2) st(1) by auto
    then show ?thesis using rest that by (simp add: coldest_first_def)
  qed
  ultimately show ?thesis unfolding coldest_first_def using len sub sub1 subset_mset.order_trans by blast
qed

lemma charge_loop_coldest_first:
  "list_all ok cs \<Longrightarrow> charge_loop coldest evict limit b cs = Some (b', cs') \<Longrightarrow> coldest_first (b_owners b) cs cs'"
proof (induction "warm cs" arbitrary: b cs rule: less_induct)
  case less
  show ?case
  proof (cases "b_bytes b > limit \<and> pick_victim coldest cs (b_owners b) None \<noteq> None")
    case False
    then show ?thesis using less.prems(2) charge_loop_stop [of limit b coldest cs evict] by auto
  next
    case True
    then obtain i e where v: "pick_victim coldest cs (b_owners b) None = Some (i, e)" by fastforce
    obtain f c where f: "evict (cs ! i) = (f, c)" by fastforce
    note st = victim_step [OF v less.prems(1) f]
    let ?b = "b\<lparr>b_bytes := b_bytes b - f, b_evictions := b_evictions b + 1\<rparr>"
    have "coldest_first (b_owners b) (cs[i := c]) cs'"
    proof (cases "f > 0")
      case False
      then have "cs' = cs[i := c]" using less.prems(2) True v f by (subst (asm) charge_loop.simps) simp
      then show ?thesis by simp
    next
      case pos: True
      have "charge_loop coldest evict limit ?b (cs[i := c]) = Some (b', cs')"
        using less.prems(2) True v f pos by (subst (asm) charge_loop.simps) simp
      from less.hyps [OF _ st(3) this] st(5) show ?thesis by simp
    qed
    from coldest_first_step [OF v less.prems(1) f this] show ?thesis .
  qed
qed

text \<open>The sweep of one owner: it returns, keeps meter and residency together and touches no other owner.\<close>

lemma trim_owner_returns:
  "list_all ok cs \<Longrightarrow> \<exists>b' cs' n g. trim_owner coldest evict cutoff i b cs dropped freed = Some (b', cs', n, g) \<and>
     list_all ok cs' \<and> length cs' = length cs \<and> b_bytes b' - b_bytes b = total cs' - total cs \<and>
     b_bytes b - b_bytes b' = g - freed \<and> (\<forall>j. j \<noteq> i \<longrightarrow> cs' ! j = cs ! j) \<and>
     (\<forall>d \<in># heat (cs ! i). i < length cs \<longrightarrow> cutoff \<le> d \<longrightarrow> d \<in># heat (cs' ! i)) \<and>
     b' = b\<lparr>b_bytes := b_bytes b', b_evictions := b_evictions b'\<rparr>"
proof (induction "warm cs" arbitrary: b cs dropped freed rule: less_induct)
  case less
  show ?case
  proof (cases "owner_coldest coldest cs i")
    case None
    then show ?thesis using less.prems by (subst trim_owner.simps) simp
  next
    case (Some e)
    then have v: "pick_victim coldest cs [i] None = Some (i, e)" by simp
    obtain f c where f: "evict (cs ! i) = (f, c)" by fastforce
    note st = victim_step [OF v less.prems f]
    show ?thesis
    proof (cases "e < cutoff")
      case False
      then show ?thesis using Some less.prems by (subst trim_owner.simps) simp
    next
      case cold: True
      let ?b = "b\<lparr>b_bytes := b_bytes b - f, b_evictions := b_evictions b + 1\<rparr>"
      have keep: "d \<in># heat c" if "d \<in># heat (cs ! i)" "cutoff \<le> d" for d
        using that cold st(7) by (simp add: in_diff_count)
      show ?thesis
      proof (cases "f > 0")
        case False
        then show ?thesis using Some f st cold keep by (subst trim_owner.simps) auto
      next
        case True
        have eq: "trim_owner coldest evict cutoff i b cs dropped freed =
            trim_owner coldest evict cutoff i ?b (cs[i := c]) (Suc dropped) (freed + f)"
          using Some f cold True by (subst trim_owner.simps) simp
        have "warm (cs[i := c]) < warm cs" using st(5) by simp
        from less.hyps [OF this st(3), of ?b "Suc dropped" "freed + f"] obtain b' cs' n g where
          t: "trim_owner coldest evict cutoff i ?b (cs[i := c]) (Suc dropped) (freed + f) = Some (b', cs', n, g)"
            "list_all ok cs'" "length cs' = length cs" "b_bytes b' - (b_bytes b - f) = total cs' - total (cs[i := c])"
            "b_bytes b - f - b_bytes b' = g - (freed + f)" "\<forall>j. j \<noteq> i \<longrightarrow> cs' ! j = cs[i := c] ! j"
            "\<forall>d \<in># heat (cs[i := c] ! i). i < length cs \<longrightarrow> cutoff \<le> d \<longrightarrow> d \<in># heat (cs' ! i)"
            "b' = ?b\<lparr>b_bytes := b_bytes b', b_evictions := b_evictions b'\<rparr>"
          by auto
        then show ?thesis unfolding eq using st(2,6) keep by (intro exI conjI) (simp_all | force)+
      qed
    qed
  qed
qed

lemma trim_owners_returns:
  "list_all ok cs \<Longrightarrow> \<exists>b' cs' n g. trim_owners coldest evict cutoff is b cs dropped freed = Some (b', cs', n, g) \<and>
     list_all ok cs' \<and> length cs' = length cs \<and> b_bytes b' - b_bytes b = total cs' - total cs \<and>
     b_bytes b - b_bytes b' = g - freed \<and> (\<forall>j. j \<notin> set is \<longrightarrow> cs' ! j = cs ! j) \<and>
     (\<forall>i < length cs. \<forall>d \<in># heat (cs ! i). cutoff \<le> d \<longrightarrow> d \<in># heat (cs' ! i)) \<and>
     b' = b\<lparr>b_bytes := b_bytes b', b_evictions := b_evictions b'\<rparr>"
proof (induction "is" arbitrary: b cs dropped freed)
  case Nil
  then show ?case by simp
next
  case (Cons i "is")
  obtain b1 cs1 n1 g1 where s: "trim_owner coldest evict cutoff i b cs dropped freed = Some (b1, cs1, n1, g1)"
    "list_all ok cs1" "length cs1 = length cs" "b_bytes b1 - b_bytes b = total cs1 - total cs"
    "b_bytes b - b_bytes b1 = g1 - freed" "\<forall>j. j \<noteq> i \<longrightarrow> cs1 ! j = cs ! j"
    "\<forall>d \<in># heat (cs ! i). i < length cs \<longrightarrow> cutoff \<le> d \<longrightarrow> d \<in># heat (cs1 ! i)"
    "b1 = b\<lparr>b_bytes := b_bytes b1, b_evictions := b_evictions b1\<rparr>"
    using trim_owner_returns [OF Cons.prems, of cutoff i b dropped freed] by auto
  obtain b2 cs2 n2 g2 where t: "trim_owners coldest evict cutoff is b1 cs1 n1 g1 = Some (b2, cs2, n2, g2)"
    "list_all ok cs2" "length cs2 = length cs1" "b_bytes b2 - b_bytes b1 = total cs2 - total cs1"
    "b_bytes b1 - b_bytes b2 = g2 - g1" "\<forall>j. j \<notin> set is \<longrightarrow> cs2 ! j = cs1 ! j"
    "\<forall>i < length cs1. \<forall>d \<in># heat (cs1 ! i). cutoff \<le> d \<longrightarrow> d \<in># heat (cs2 ! i)"
    "b2 = b1\<lparr>b_bytes := b_bytes b2, b_evictions := b_evictions b2\<rparr>"
    using Cons.IH [OF s(2), of b1 n1 g1] by auto
  have "d \<in># heat (cs2 ! k)" if "k < length cs" "d \<in># heat (cs ! k)" "cutoff \<le> d" for k d
    using that s(3,6,7) t(7) by (cases "k = i") auto
  moreover have "b2 = b\<lparr>b_bytes := b_bytes b2, b_evictions := b_evictions b2\<rparr>" using s(8) t(8)
    by (metis budget.surjective budget.update_convs(2,5) old.unit.exhaust)
  ultimately show ?case using s t by (intro exI [of _ b2] exI [of _ cs2] exI [of _ n2] exI [of _ g2]) simp
qed

lemma trim_owners_rel:
  assumes R: "reflp R" "transp R" "\<And>c e f c'. ok c \<Longrightarrow> coldest c = Some e \<Longrightarrow> evict c = (f, c') \<Longrightarrow> R c c'"
  shows "list_all ok cs \<Longrightarrow> trim_owners coldest evict cutoff is b cs dropped freed = Some (b', cs', n, g) \<Longrightarrow> list_all2 R cs cs'"
proof (induction "is" arbitrary: b cs dropped freed)
  case Nil
  then show ?case using list_all2_reflp [OF R(1)] by simp
next
  case (Cons i "is")
  obtain b1 cs1 n1 g1 where s: "trim_owner coldest evict cutoff i b cs dropped freed = Some (b1, cs1, n1, g1)" "list_all ok cs1"
    using trim_owner_returns [OF Cons.prems(1), of cutoff i b dropped freed] by auto
  have "list_all2 R cs cs1" using trim_owner_rel [OF R Cons.prems(1) s(1)] .
  moreover have "list_all2 R cs1 cs'" using Cons.IH [OF s(2)] Cons.prems(2) s(1) by simp
  ultimately show ?case using list_all2_transp [OF R(2)] by blast
qed

end

text \<open>Owners whose evictable runs all have bytes: evicting always makes room.\<close>

locale solid_evicting = evicting +
  assumes evict_frees: "ok c \<Longrightarrow> coldest c = Some e \<Longrightarrow> evict c = (f, c') \<Longrightarrow> 0 < f"
begin

lemma charge_loop_fits:
  "list_all ok cs \<Longrightarrow> charge_loop coldest evict limit b cs = Some (b', cs') \<Longrightarrow>
   b_bytes b' \<le> limit \<or> (\<forall>i\<in>set (b_owners b). owner_coldest coldest cs' i = None)"
proof (induction "warm cs" arbitrary: b cs rule: less_induct)
  case less
  show ?case
  proof (cases "b_bytes b > limit \<and> pick_victim coldest cs (b_owners b) None \<noteq> None")
    case False
    then show ?thesis
      using less.prems(2) charge_loop_stop [of limit b coldest cs evict] pick_victim_spec [of cs "b_owners b" None None]
      by (cases "pick_victim coldest cs (b_owners b) None") auto
  next
    case True
    then obtain i e where v: "pick_victim coldest cs (b_owners b) None = Some (i, e)" by fastforce
    obtain f c where f: "evict (cs ! i) = (f, c)" by fastforce
    note st = victim_step [OF v less.prems(1) f]
    let ?b = "b\<lparr>b_bytes := b_bytes b - f, b_evictions := b_evictions b + 1\<rparr>"
    have "ok (cs ! i)" "coldest (cs ! i) = Some e"
      using less.prems(1) st(2) pick_victim_spec [OF v] by (auto simp: list_all_length owner_coldest_def)
    then have "f > 0" using evict_frees f by blast
    then have "charge_loop coldest evict limit ?b (cs[i := c]) = Some (b', cs')"
      using less.prems(2) True v f by (subst (asm) charge_loop.simps) simp
    from less.hyps [OF _ st(3) this] st(5) show ?thesis by simp
  qed
qed

lemma trim_owner_cold:
  "list_all ok cs \<Longrightarrow> trim_owner coldest evict cutoff i b cs dropped freed = Some (b', cs', n, g) \<Longrightarrow>
   owner_coldest coldest cs' i = Some e \<Longrightarrow> cutoff \<le> e"
proof (induction "warm cs" arbitrary: b cs dropped freed rule: less_induct)
  case less
  show ?case
  proof (cases "owner_coldest coldest cs i")
    case None
    then show ?thesis using less.prems(2,3) by (subst (asm) trim_owner.simps) simp
  next
    case (Some d)
    then have v: "pick_victim coldest cs [i] None = Some (i, d)" by simp
    obtain f c where f: "evict (cs ! i) = (f, c)" by fastforce
    note st = victim_step [OF v less.prems(1) f]
    show ?thesis
    proof (cases "d < cutoff")
      case False
      then show ?thesis using Some less.prems(2,3) by (subst (asm) trim_owner.simps) simp
    next
      case True
      have "ok (cs ! i)" "coldest (cs ! i) = Some d"
        using less.prems(1) st(2) Some by (auto simp: list_all_length owner_coldest_def)
      then have "f > 0" using evict_frees f by blast
      then have "trim_owner coldest evict cutoff i (b\<lparr>b_bytes := b_bytes b - f, b_evictions := b_evictions b + 1\<rparr>) (cs[i := c])
          (Suc dropped) (freed + f) = Some (b', cs', n, g)"
        using less.prems(2) Some f True by (subst (asm) trim_owner.simps) simp
      from less.hyps [OF _ st(3) this less.prems(3)] st(5) show ?thesis by simp
    qed
  qed
qed

lemma trim_owners_cold:
  "list_all ok cs \<Longrightarrow> trim_owners coldest evict cutoff is b cs dropped freed = Some (b', cs', n, g) \<Longrightarrow>
   i \<in> set is \<Longrightarrow> owner_coldest coldest cs' i = Some e \<Longrightarrow> cutoff \<le> e"
proof (induction "is" arbitrary: b cs dropped freed)
  case (Cons j "is")
  obtain b1 cs1 n1 g1 where s: "trim_owner coldest evict cutoff j b cs dropped freed = Some (b1, cs1, n1, g1)"
    "list_all ok cs1" "length cs1 = length cs"
    using trim_owner_returns [OF Cons.prems(1), of cutoff j b dropped freed] by auto
  have t: "trim_owners coldest evict cutoff is b1 cs1 n1 g1 = Some (b', cs', n, g)" using Cons.prems(2) s(1) by simp
  show ?case
  proof (cases "i \<in> set is")
    case True
    then show ?thesis using Cons.IH [OF s(2) t] Cons.prems(4) by blast
  next
    case False
    then have "cs' ! i = cs1 ! i" "length cs' = length cs1" using trim_owners_returns [OF s(2), of cutoff "is" b1 n1 g1] t by auto
    then have "owner_coldest coldest cs1 i = Some e" using Cons.prems(4) by (simp add: owner_coldest_def split: if_splits)
    then show ?thesis using trim_owner_cold [OF Cons.prems(1)] s(1) False Cons.prems(3) by auto
  qed
qed simp

end

end
