(* ===== verification/Forest_Cache.thy ===== *)
theory Forest_Cache
  imports Forest_Budget
begin

text \<open>
  The cache (\<^verbatim>\<open>forest/cache.go\<close>): per node a slice of runs, sorted by their start, whose index
  survives eviction. Runs are objects the code shares by pointer; they live in a store here and are known by
  their position in it. The slice of a node is a view of a backing array: an insertion that finds spare capacity
  shifts the array in place, which a loop over the old slice sees. So a node keeps its arrays, the last one
  being current; how much capacity a grown array gets is the runtime's choice, a parameter. The source, the
  sizes, the keys and the recency oracle are parameters too, as in the code. The order of the nodes, a map's order
  in the code, is the order of a list about which nothing is assumed. The coordinates are 64 bit and wrap.
\<close>

section \<open>State\<close>

record Ref =
  ref_Node :: string
  ref_Base :: nat

record coord =
  co_Node :: string
  co_From :: nat
  co_To :: nat

record 'u run =
  r_coord :: coord
  r_units :: "'u list"
  r_bytes :: int
  r_epoch :: int
  r_pinned :: bool
  r_resident :: bool

record node =
  n_arrays :: "nat list list"
  n_cap :: nat

record 'u cache =
  c_src :: "(coord \<Rightarrow> err + 'u list) option"
  c_size :: "'u \<Rightarrow> int"
  c_key :: "'u \<Rightarrow> nat"
  c_Recency :: "(coord \<Rightarrow> int) option"
  c_grow :: "nat \<Rightarrow> nat"
  c_store :: "'u run list"
  c_nodes :: "(string \<times> node) list"
  c_recomposes :: int
  c_hooked :: "coord list"

text \<open>The caches of one budget, by number; the budget may be absent.\<close>

record 'u forest =
  f_budget :: "budget option"
  f_caches :: "'u cache list"

definition empty_node :: node where
  "empty_node = \<lparr>n_arrays = [[]], n_cap = 0\<rparr>"

definition node_runs :: "node \<Rightarrow> nat list" where
  "node_runs n = last (n_arrays n)"

definition node_of :: "'u cache \<Rightarrow> string \<Rightarrow> node" where
  "node_of c name = (case map_of (c_nodes c) name of Some n \<Rightarrow> n | None \<Rightarrow> empty_node)"

text \<open>The node of a name, made when it is missing.\<close>

definition cache_node :: "'u cache \<Rightarrow> string \<Rightarrow> 'u cache" where
  "cache_node c name = (case map_of (c_nodes c) name of Some _ \<Rightarrow> c | None \<Rightarrow> c\<lparr>c_nodes := c_nodes c @ [(name, empty_node)]\<rparr>)"

definition put_node :: "string \<Rightarrow> node \<Rightarrow> 'u cache \<Rightarrow> 'u cache" where
  "put_node name n c = c\<lparr>c_nodes := map (\<lambda>(k, m). if k = name then (k, n) else (k, m)) (c_nodes c)\<rparr>"

section \<open>Searching\<close>

text \<open>Binary search as in \<^verbatim>\<open>sort.Search\<close>.\<close>

function search_between :: "(nat \<Rightarrow> bool) \<Rightarrow> nat \<Rightarrow> nat \<Rightarrow> nat" where
  "search_between f i j =
     (if i < j then let h = (i + j) div 2 in if \<not> f h then search_between f (h + 1) j else search_between f i h else i)"
  by pat_completeness auto
termination
  by (relation "measure (\<lambda>(f, i, j). j - i)") auto

declare search_between.simps [simp del]

definition sort_Search :: "nat \<Rightarrow> (nat \<Rightarrow> bool) \<Rightarrow> nat" where
  "sort_Search n f = search_between f 0 n"

definition node_pos :: "'u run list \<Rightarrow> nat list \<Rightarrow> nat \<Rightarrow> nat" where
  "node_pos rs ids start = sort_Search (length ids) (\<lambda>i. co_From (r_coord (rs ! (ids ! i))) \<ge> start)"

definition node_at :: "'u run list \<Rightarrow> node \<Rightarrow> coord \<Rightarrow> nat option" where
  "node_at rs n co = (let ids = node_runs n; i = node_pos rs ids (co_From co) in
     if i < length ids \<and> r_coord (rs ! (ids ! i)) = co then Some (ids ! i) else None)"

text \<open>The insertion: in place when the array has room, in a new array otherwise.\<close>

definition node_insert :: "(nat \<Rightarrow> nat) \<Rightarrow> 'u run list \<Rightarrow> nat \<Rightarrow> node \<Rightarrow> node" where
  "node_insert grow rs r n = (let ids = node_runs n; i = node_pos rs ids (co_From (r_coord (rs ! r)));
       ids' = take i ids @ r # drop i ids in
     if length ids < n_cap n then n\<lparr>n_arrays := butlast (n_arrays n) @ [ids']\<rparr>
     else \<lparr>n_arrays = n_arrays n @ [ids'], n_cap = grow (Suc (length ids))\<rparr>)"

definition add_run :: "string \<Rightarrow> 'u run \<Rightarrow> 'u cache \<Rightarrow> 'u cache" where
  "add_run name r c = (let c = c\<lparr>c_store := c_store c @ [r]\<rparr> in
     put_node name (node_insert (c_grow c) (c_store c) (length (c_store c) - 1) (node_of c name)) c)"

section \<open>The owner's side of the accountant\<close>

definition effEpoch :: "'u cache \<Rightarrow> 'u run \<Rightarrow> int" where
  "effEpoch c r = (case c_Recency c of
     None \<Rightarrow> r_epoch r
   | Some f \<Rightarrow> if f (r_coord r) > r_epoch r then f (r_coord r) else r_epoch r)"

definition run_ids :: "'u cache \<Rightarrow> nat list" where
  "run_ids c = concat (map (node_runs \<circ> snd) (c_nodes c))"

fun coldest_run :: "'u cache \<Rightarrow> nat list \<Rightarrow> (nat \<times> int) option \<Rightarrow> (nat \<times> int) option" where
  "coldest_run c [] best = best"
| "coldest_run c (i # is) best = (let r = c_store c ! i; e = effEpoch c r in
     coldest_run c is
       (if r_resident r \<and> \<not> r_pinned r \<and> (case best of None \<Rightarrow> True | Some (_, d) \<Rightarrow> e < d) then Some (i, e) else best))"

definition cache_coldest :: "'u cache \<Rightarrow> int option" where
  "cache_coldest c = map_option snd (coldest_run c (run_ids c) None)"

definition evictColdest :: "'u cache \<Rightarrow> int \<times> 'u cache" where
  "evictColdest c = (case coldest_run c (run_ids c) None of
     None \<Rightarrow> (0, c)
   | Some (i, _) \<Rightarrow> let r = c_store c ! i in
       (r_bytes r, c\<lparr>c_store := (c_store c)[i := r\<lparr>r_units := [], r_resident := False\<rparr>],
          c_hooked := c_hooked c @ [r_coord r]\<rparr>))"

definition cache_charge :: "int \<Rightarrow> 'u forest \<Rightarrow> 'u forest option" where
  "cache_charge delta w =
     map_option (\<lambda>(b, cs). w\<lparr>f_budget := b, f_caches := cs\<rparr>) (charge cache_coldest evictColdest delta (f_budget w) (f_caches w))"

definition bump :: "'u forest \<Rightarrow> int \<times> 'u forest" where
  "bump w = (case f_budget w of
     None \<Rightarrow> (0, w)
   | Some b \<Rightarrow> (b_epoch b + 1, w\<lparr>f_budget := Some (b\<lparr>b_epoch := b_epoch b + 1\<rparr>)\<rparr>))"

section \<open>Operations\<close>

definition upd_cache :: "nat \<Rightarrow> ('u cache \<Rightarrow> 'u cache) \<Rightarrow> 'u forest \<Rightarrow> 'u forest" where
  "upd_cache i f w = w\<lparr>f_caches := (f_caches w)[i := f (f_caches w ! i)]\<rparr>"

definition upd_run :: "nat \<Rightarrow> ('u run \<Rightarrow> 'u run) \<Rightarrow> 'u cache \<Rightarrow> 'u cache" where
  "upd_run j f c = c\<lparr>c_store := (c_store c)[j := f (c_store c ! j)]\<rparr>"

definition cache_New :: "(coord \<Rightarrow> err + 'u list) option \<Rightarrow> ('u \<Rightarrow> int) \<Rightarrow> ('u \<Rightarrow> nat) \<Rightarrow> (nat \<Rightarrow> nat) \<Rightarrow> 'u forest \<Rightarrow> nat \<times> 'u forest" where
  "cache_New src size' key grow w = (let i = length (f_caches w) in
     (i, w\<lparr>f_caches := f_caches w @ [\<lparr>c_src = src, c_size = size', c_key = key, c_Recency = None, c_grow = grow,
            c_store = [], c_nodes = [], c_recomposes = 0, c_hooked = []\<rparr>], f_budget := adopt i (f_budget w)\<rparr>))"

definition resident_bytes :: "'u cache \<Rightarrow> int" where
  "resident_bytes c = sum_list (map (\<lambda>i. if r_resident (c_store c ! i) then r_bytes (c_store c ! i) else 0) (run_ids c))"

definition cache_Close :: "nat \<Rightarrow> 'u forest \<Rightarrow> 'u forest" where
  "cache_Close i w = (let freed = resident_bytes (f_caches w ! i); w = upd_cache i (\<lambda>c. c\<lparr>c_nodes := []\<rparr>) w in
     w\<lparr>f_budget := disown i (map_option (\<lambda>b. b\<lparr>b_bytes := b_bytes b - freed\<rparr>) (f_budget w))\<rparr>)"

definition units_bytes :: "'u cache \<Rightarrow> 'u list \<Rightarrow> int" where
  "units_bytes c units = sum_list (map (c_size c) units)"

definition cache_Put :: "nat \<Rightarrow> coord \<Rightarrow> 'u list \<Rightarrow> bool \<Rightarrow> 'u forest \<Rightarrow> 'u forest option" where
  "cache_Put i co units pinned w0 =
     (let w1 = upd_cache i (\<lambda>c. cache_node c (co_Node co)) w0; (e, w) = bump w1; c = f_caches w ! i;
          r = \<lparr>r_coord = co, r_units = units, r_bytes = units_bytes c units, r_epoch = e, r_pinned = pinned, r_resident = True\<rparr> in
      case node_at (c_store c) (node_of c (co_Node co)) co of
        Some j \<Rightarrow> let old = c_store c ! j in
          cache_charge (if r_resident old then r_bytes r - r_bytes old else r_bytes r) (upd_cache i (upd_run j (\<lambda>_. r)) w)
      | None \<Rightarrow> cache_charge (r_bytes r) (upd_cache i (add_run (co_Node co) r) w))"

definition cache_Drop :: "nat \<Rightarrow> coord \<Rightarrow> 'u forest \<Rightarrow> 'u forest" where
  "cache_Drop i co w0 =
     (let w = upd_cache i (\<lambda>c. cache_node c (co_Node co)) w0; c = f_caches w ! i in
      case node_at (c_store c) (node_of c (co_Node co)) co of
        Some j \<Rightarrow> let r = c_store c ! j in
          if r_resident r then
            (let w' = upd_cache i (upd_run j (\<lambda>r. r\<lparr>r_units := [], r_resident := False, r_pinned := False\<rparr>)) w in
             if r_bytes r > 0 then w'\<lparr>f_budget := map_option (\<lambda>b. b\<lparr>b_bytes := b_bytes b - r_bytes r\<rparr>) (f_budget w')\<rparr> else w')
          else w
      | None \<Rightarrow> w)"

section \<open>Reading\<close>

definition slice :: "('u \<Rightarrow> nat) \<Rightarrow> 'u list \<Rightarrow> nat \<Rightarrow> nat \<Rightarrow> err + 'u list" where
  "slice key units from to =
     (let lo = sort_Search (length units) (\<lambda>i. key (units ! i) > from);
          hi = sort_Search (length units) (\<lambda>i. key (units ! i) > to) in
      if lo > hi then Inl (ErrMsg ''slice bounds out of range'') else Inr (take (hi - lo) (drop lo units)))"

definition sliceUnits :: "('u \<Rightarrow> nat) \<Rightarrow> 'u list \<Rightarrow> nat \<Rightarrow> nat \<Rightarrow> 'u list" where
  "sliceUnits key units from to = takeWhile (\<lambda>u. key u \<le> to) (dropWhile (\<lambda>u. key u \<le> from) units)"

definition cache_fetch :: "nat \<Rightarrow> coord \<Rightarrow> 'u forest \<Rightarrow> (err + 'u list) \<times> 'u forest" where
  "cache_fetch i co w =
     (let w = upd_cache i (\<lambda>c. c\<lparr>c_recomposes := c_recomposes c + 1\<rparr>) w in
      (case c_src (f_caches w ! i) of None \<Rightarrow> Inr [] | Some src \<Rightarrow> src co, w))"

definition runChunk :: nat where
  "runChunk = 64"

text \<open>Filling a gap with new runs; the units fetched so far come back with an error.\<close>

partial_function (option) materialize_loop ::
  "nat \<Rightarrow> string \<Rightarrow> nat \<Rightarrow> nat \<Rightarrow> 'u list \<Rightarrow> 'u forest \<Rightarrow> (('u list \<times> err option) \<times> 'u forest) option" where
  "materialize_loop i name lo to acc w =
     (if lo < to then
        let hi0 = u64_add lo runChunk; hi = (if hi0 > to then to else hi0); co = \<lparr>co_Node = name, co_From = lo, co_To = hi\<rparr> in
        (case cache_fetch i co w of
           (Inl e, w) \<Rightarrow> Some ((acc, Some e), w)
         | (Inr units, w) \<Rightarrow> (case bump w of (ep, w) \<Rightarrow>
             let r = \<lparr>r_coord = co, r_units = units, r_bytes = units_bytes (f_caches w ! i) units, r_epoch = ep,
                      r_pinned = False, r_resident = True\<rparr> in
             (case cache_charge (r_bytes r) (upd_cache i (add_run name r) w) of
                None \<Rightarrow> None
              | Some w \<Rightarrow> materialize_loop i name hi to (acc @ units) w)))
      else Some ((acc, None), w))"

definition materializeLocked :: "nat \<Rightarrow> coord \<Rightarrow> 'u forest \<Rightarrow> (('u list \<times> err option) \<times> 'u forest) option" where
  "materializeLocked i co w = materialize_loop i (co_Node co) (co_From co) (co_To co) [] w"

definition materializeRunLocked :: "nat \<Rightarrow> nat \<Rightarrow> 'u forest \<Rightarrow> ((err + 'u list) \<times> 'u forest) option" where
  "materializeRunLocked i j w = (case cache_fetch i (r_coord (c_store (f_caches w ! i) ! j)) w of
     (Inl e, w) \<Rightarrow> Some (Inl e, w)
   | (Inr units, w) \<Rightarrow>
       let by = units_bytes (f_caches w ! i) units in
       map_option (\<lambda>w. (Inr units, w))
         (cache_charge by (upd_cache i (upd_run j (\<lambda>r. r\<lparr>r_units := units, r_bytes := by, r_resident := True\<rparr>)) w)))"

text \<open>One run of the loop over a node's runs: the gap in front of it, then the run itself.\<close>

definition range_run :: "nat \<Rightarrow> nat \<Rightarrow> nat \<Rightarrow> nat \<Rightarrow> 'u forest \<Rightarrow> (('u list \<times> err option) \<times> nat \<times> 'u forest) option" where
  "range_run i j pos to w = (let r = c_store (f_caches w ! i) ! j; co = r_coord r in
     if \<not> r_resident r then
       (case materializeRunLocked i j w of
          None \<Rightarrow> None
        | Some (Inl e, w) \<Rightarrow> Some (([], Some e), pos, w)
        | Some (Inr units, w) \<Rightarrow> (case bump w of (ep, w) \<Rightarrow>
            Some ((sliceUnits (c_key (f_caches w ! i)) units pos to, None), max pos (co_To co),
              upd_cache i (upd_run j (\<lambda>r. r\<lparr>r_epoch := ep\<rparr>)) w)))
     else (case slice (c_key (f_caches w ! i)) (r_units r) pos to of
          Inl e \<Rightarrow> Some (([], Some e), pos, w)
        | Inr us \<Rightarrow> Some ((us, None), max pos (co_To co), upd_cache i (upd_run j (\<lambda>r. r\<lparr>r_epoch := EpochNow (f_budget w)\<rparr>)) w)))"

text \<open>The loop: array \<open>g\<close> of the node, as it is at each turn, for the positions the slice had at the start.\<close>

fun range_runs :: "nat \<Rightarrow> coord \<Rightarrow> nat \<Rightarrow> nat list \<Rightarrow> nat \<Rightarrow> 'u list \<Rightarrow> 'u forest \<Rightarrow> (('u list \<times> err option) \<times> 'u forest) option" where
  "range_runs i co g [] pos out w =
     (if pos < co_To co then
        (case materializeLocked i \<lparr>co_Node = co_Node co, co_From = pos, co_To = co_To co\<rparr> w of
           None \<Rightarrow> None
         | Some ((us, Some e), w) \<Rightarrow> Some ((out, Some e), w)
         | Some ((us, None), w) \<Rightarrow> Some ((out @ us, None), w))
      else Some ((out, None), w))"
| "range_runs i co g (t # ts) pos out w =
     (let c = f_caches w ! i; j = (n_arrays (node_of c (co_Node co)) ! g) ! t; rc = r_coord (c_store c ! j) in
      if co_To rc \<le> pos \<or> co_From rc \<ge> co_To co then range_runs i co g ts pos out w
      else (case (if co_From rc > pos then materializeLocked i \<lparr>co_Node = co_Node co, co_From = pos, co_To = co_From rc\<rparr> w
                  else Some (([], None), w)) of
          None \<Rightarrow> None
        | Some ((us, Some e), w) \<Rightarrow> Some ((out, Some e), w)
        | Some ((us, None), w) \<Rightarrow>
            (case range_run i j pos (co_To co) w of
               None \<Rightarrow> None
             | Some ((vs, Some e), pos', w) \<Rightarrow> Some ((out @ us, Some e), w)
             | Some ((vs, None), pos', w) \<Rightarrow> range_runs i co g ts pos' (out @ us @ vs) w)))"

definition rangeInNode :: "nat \<Rightarrow> coord \<Rightarrow> 'u forest \<Rightarrow> (('u list \<times> err option) \<times> 'u forest) option" where
  "rangeInNode i co w0 =
     (let w = upd_cache i (\<lambda>c. cache_node c (co_Node co)) w0; n = node_of (f_caches w ! i) (co_Node co) in
      range_runs i co (length (n_arrays n) - 1) [0..<length (node_runs n)] (co_From co) [] w)"

text \<open>The part of a lineage's range that each of its nodes has.\<close>

fun cache_split :: "Ref list \<Rightarrow> nat \<Rightarrow> nat \<Rightarrow> coord list" where
  "cache_split [] lo to = []"
| "cache_split (r # rs) lo to =
     (let hi = (case rs of
            [] \<Rightarrow> to
          | r' # _ \<Rightarrow> if ref_Base r' > 0 \<and> ref_Base r' - 1 < to then ref_Base r' - 1 else to);
          cuts = (if hi > lo then [\<lparr>co_Node = ref_Node r, co_From = lo, co_To = hi\<rparr>] else []);
          lo' = (if hi > lo then hi else lo) in
      if lo' \<ge> to then cuts else cuts @ cache_split rs lo' to)"

fun range_cuts :: "nat \<Rightarrow> coord list \<Rightarrow> 'u list \<Rightarrow> 'u forest \<Rightarrow> (('u list \<times> err option) \<times> 'u forest) option" where
  "range_cuts i [] out w = Some ((out, None), w)"
| "range_cuts i (co # cuts) out w = (case rangeInNode i co w of
     None \<Rightarrow> None
   | Some ((us, Some e), w) \<Rightarrow> Some ((out, Some e), w)
   | Some ((us, None), w) \<Rightarrow> range_cuts i cuts (out @ us) w)"

definition cache_Range :: "nat \<Rightarrow> Ref list \<Rightarrow> nat \<Rightarrow> nat \<Rightarrow> 'u forest \<Rightarrow> (('u list \<times> err option) \<times> 'u forest) option" where
  "cache_Range i lineage from to w =
     (if lineage = [] \<or> to < from then Some (([], None), w)
      else range_cuts i (cache_split lineage from to) [] w)"

definition forest_TrimIdle :: "int \<Rightarrow> 'u forest \<Rightarrow> ((nat \<times> int) \<times> 'u forest) option" where
  "forest_TrimIdle keep w = map_option (\<lambda>(b, cs, n, g). ((n, g), w\<lparr>f_budget := b, f_caches := cs\<rparr>))
     (TrimIdle cache_coldest evictColdest keep (f_budget w) (f_caches w))"

text \<open>The sweep of the segments' payload cache (\<^verbatim>\<open>segment/cache.go\<close>).\<close>

definition SweepIdle :: "int \<Rightarrow> 'u forest \<Rightarrow> ((nat \<times> int) \<times> 'u forest) option" where
  "SweepIdle keep w = (if keep < 0 then Some ((0, 0), w) else forest_TrimIdle keep w)"

end
