(* ===== verification/Forest_Spec.thy ===== *)
theory Forest_Spec
  imports Forest_Cache
begin

text \<open>
  What the caches and their budget promise: a cache is an owner in the sense of the accountant; the meter is
  the resident bytes, whatever operations run in whatever order; eviction takes the coldest runs and ends
  within the budget when it can; and reading a range along a lineage returns exactly the units of the layer
  below, no matter what is resident, evicted meanwhile or shifted under the loop.
\<close>

section \<open>Caches as owners\<close>

definition evictable :: "'u cache \<Rightarrow> nat \<Rightarrow> bool" where
  "evictable c i \<longleftrightarrow> r_resident (c_store c ! i) \<and> \<not> r_pinned (c_store c ! i)"

definition heat_of :: "'u cache \<Rightarrow> int multiset" where
  "heat_of c = mset (map (\<lambda>i. effEpoch c (c_store c ! i)) (filter (evictable c) (run_ids c)))"

definition cache_wf :: "'u cache \<Rightarrow> bool" where
  "cache_wf c \<longleftrightarrow> distinct (map fst (c_nodes c)) \<and> distinct (run_ids c) \<and>
     (\<forall>j \<in> set (run_ids c). j < length (c_store c)) \<and>
     (\<forall>(name, n) \<in> set (c_nodes c). n_arrays n \<noteq> [] \<and> (\<forall>a \<in> set (n_arrays n). set a \<subseteq> set (node_runs n))) \<and>
     (\<forall>r \<in> set (c_store c). 0 \<le> r_bytes r) \<and> (\<forall>u. 0 \<le> c_size c u)"

lemma coldest_run_spec:
  "coldest_run c is best = r \<Longrightarrow>
   (r = None \<longleftrightarrow> best = None \<and> (\<forall>i\<in>set is. \<not> evictable c i)) \<and>
   (\<forall>i e. r = Some (i, e) \<longrightarrow> (best = Some (i, e) \<or> i \<in> set is \<and> evictable c i \<and> e = effEpoch c (c_store c ! i)) \<and>
      (\<forall>j d. best = Some (j, d) \<longrightarrow> e \<le> d) \<and> (\<forall>j\<in>set is. evictable c j \<longrightarrow> e \<le> effEpoch c (c_store c ! j)))"
proof (induction "is" arbitrary: best r)
  case (Cons i "is")
  let ?e = "effEpoch c (c_store c ! i)"
  define b' where "b' = (if evictable c i \<and> (case best of None \<Rightarrow> True | Some (_, d) \<Rightarrow> ?e < d) then Some (i, ?e) else best)"
  have "coldest_run c is b' = r" using Cons.prems by (simp add: Let_def b'_def evictable_def)
  from Cons.IH [OF this] show ?case unfolding b'_def by (cases best) (fastforce split: if_splits)+
qed auto

lemma run_ids_bound: "cache_wf c \<Longrightarrow> i \<in> set (run_ids c) \<Longrightarrow> i < length (c_store c)"
  by (simp add: cache_wf_def)

lemma array_run:
  "cache_wf c \<Longrightarrow> (name, n) \<in> set (c_nodes c) \<Longrightarrow> a \<in> set (n_arrays n) \<Longrightarrow> j \<in> set a \<Longrightarrow> j \<in> set (run_ids c)"
proof -
  assume a: "cache_wf c" "(name, n) \<in> set (c_nodes c)" "a \<in> set (n_arrays n)" "j \<in> set a"
  then have "j \<in> set (node_runs n)" unfolding cache_wf_def by blast
  then have "j \<in> (\<Union>x \<in> set (c_nodes c). set (node_runs (snd x)))" using a(2) by force
  then show ?thesis by (simp add: run_ids_def)
qed

lemma cache_coldest_heat: "cache_coldest c = (if heat_of c = {#} then None else Some (Min (set_mset (heat_of c))))"
proof (cases "coldest_run c (run_ids c) None")
  case None
  then show ?thesis using coldest_run_spec [OF None] by (auto simp: cache_coldest_def heat_of_def filter_empty_conv)
next
  case (Some ie)
  obtain i e where ie: "ie = (i, e)" by fastforce
  have s: "i \<in> set (run_ids c)" "evictable c i" "e = effEpoch c (c_store c ! i)"
    "\<forall>j\<in>set (run_ids c). evictable c j \<longrightarrow> e \<le> effEpoch c (c_store c ! j)"
    using coldest_run_spec [OF Some [unfolded ie]] by auto
  then have "e \<in># heat_of c" "\<And>d. d \<in># heat_of c \<Longrightarrow> e \<le> d" by (auto simp: heat_of_def)
  then have "Min (set_mset (heat_of c)) = e" "heat_of c \<noteq> {#}" by (auto intro: Min_eqI)
  then show ?thesis using Some ie by (simp add: cache_coldest_def)
qed

lemma filter_hollow:
  assumes "distinct is" "i \<in> set is" "evictable c i"
    and "\<And>j. j \<noteq> i \<Longrightarrow> c_store c' ! j = c_store c ! j" "\<not> evictable c' i" "c_Recency c' = c_Recency c"
  shows "add_mset (effEpoch c (c_store c ! i)) (mset (map (\<lambda>j. effEpoch c' (c_store c' ! j)) (filter (evictable c') is))) =
    mset (map (\<lambda>j. effEpoch c (c_store c ! j)) (filter (evictable c) is))"
  using assms(1,2)
proof (induction "is")
  case (Cons k "is")
  have eff: "effEpoch c' r = effEpoch c r" for r using assms(6) by (simp add: effEpoch_def)
  show ?case
  proof (cases "k = i")
    case True
    then have same: "\<And>j. j \<in> set is \<Longrightarrow> c_store c' ! j = c_store c ! j"
      using Cons.prems(1) by (intro assms(4)) auto
    then have fe: "filter (evictable c') is = filter (evictable c) is"
      and me: "map (\<lambda>j. effEpoch c' (c_store c' ! j)) (filter (evictable c) is) = map (\<lambda>j. effEpoch c (c_store c ! j)) (filter (evictable c) is)"
      using eff by (auto intro!: filter_cong simp: evictable_def)
    have "mset (map (\<lambda>j. effEpoch c' (c_store c' ! j)) (filter (evictable c') is)) =
        mset (map (\<lambda>j. effEpoch c (c_store c ! j)) (filter (evictable c) is))"
      by (simp only: fe me)
    then show ?thesis using True assms(3,5) by simp
  next
    case False
    then show ?thesis using Cons assms(4) [OF False] eff by (auto simp: evictable_def add_mset_commute)
  qed
qed simp

lemma resident_hollow:
  assumes "distinct is" "i \<in> set is" "\<And>j. j \<noteq> i \<Longrightarrow> s' ! j = s ! j"
  shows "sum_list (map (\<lambda>j. if r_resident (s' ! j) then r_bytes (s' ! j) else 0) is) =
    sum_list (map (\<lambda>j. if r_resident (s ! j) then r_bytes (s ! j) else 0) is) -
      (if r_resident (s ! i) then r_bytes (s ! i) else 0) + (if r_resident (s' ! i) then r_bytes (s' ! i) else 0)"
  using assms(1,2)
proof (induction "is")
  case (Cons k "is")
  show ?case
  proof (cases "k = i")
    case True
    then have "\<And>j. j \<in> set is \<Longrightarrow> s' ! j = s ! j" using Cons.prems(1) by (intro assms(3)) auto
    then have "map (\<lambda>j. if r_resident (s' ! j) then r_bytes (s' ! j) else 0) is = map (\<lambda>j. if r_resident (s ! j) then r_bytes (s ! j) else 0) is"
      by (intro map_cong) simp_all
    then have "sum_list (map (\<lambda>j. if r_resident (s' ! j) then r_bytes (s' ! j) else 0) is) =
        sum_list (map (\<lambda>j. if r_resident (s ! j) then r_bytes (s ! j) else 0) is)" by (rule arg_cong)
    then show ?thesis using True by simp
  next
    case False
    then show ?thesis using Cons assms(3) [OF False] by simp
  qed
qed simp

text \<open>A change of one run that keeps its index.\<close>

lemma upd_run_resident:
  assumes "cache_wf c" "j \<in> set (run_ids c)"
  shows "resident_bytes (upd_run j f c) = resident_bytes c -
      (if r_resident (c_store c ! j) then r_bytes (c_store c ! j) else 0) +
      (if r_resident (f (c_store c ! j)) then r_bytes (f (c_store c ! j)) else 0)"
proof -
  have ids: "run_ids (upd_run j f c) = run_ids c" by (simp add: run_ids_def upd_run_def)
  have st: "c_store (upd_run j f c) = (c_store c)[j := f (c_store c ! j)]" by (simp add: upd_run_def)
  have "distinct (run_ids c)" "j < length (c_store c)" using assms run_ids_bound by (auto simp: cache_wf_def)
  then show ?thesis
    unfolding resident_bytes_def ids st using resident_hollow [of "run_ids c" j "(c_store c)[j := f (c_store c ! j)]" "c_store c"] assms(2)
    by simp
qed

lemma upd_run_wf: "cache_wf c \<Longrightarrow> 0 \<le> r_bytes (f (c_store c ! j)) \<Longrightarrow> cache_wf (upd_run j f c)"
  using set_update_subset_insert [of "c_store c" j "f (c_store c ! j)"]
  by (auto simp: cache_wf_def upd_run_def run_ids_def)

lemma evictColdest_upd:
  assumes "cache_wf c" "cache_coldest c = Some e" "evictColdest c = (f, c')"
  obtains i where "i \<in> set (run_ids c)" "evictable c i" "e = effEpoch c (c_store c ! i)" "f = r_bytes (c_store c ! i)"
    "c' = (upd_run i (\<lambda>r. r\<lparr>r_units := [], r_resident := False\<rparr>) c)\<lparr>c_hooked := c_hooked c @ [r_coord (c_store c ! i)]\<rparr>"
proof -
  obtain i where i: "coldest_run c (run_ids c) None = Some (i, e)" using assms(2) by (auto simp: cache_coldest_def)
  show thesis
    using that [of i] coldest_run_spec [OF i] assms(3) i by (auto simp: evictColdest_def Let_def upd_run_def)
qed

lemma hooked_simps [simp]: "run_ids (c\<lparr>c_hooked := h\<rparr>) = run_ids c" "resident_bytes (c\<lparr>c_hooked := h\<rparr>) = resident_bytes c"
    "cache_wf (c\<lparr>c_hooked := h\<rparr>) = cache_wf c" "run_ids (upd_run j f c) = run_ids c"
  by (simp_all add: run_ids_def resident_bytes_def cache_wf_def upd_run_def cong: if_cong)

interpretation cache_owner: evicting cache_coldest evictColdest heat_of resident_bytes cache_wf
proof
  show "cache_coldest c = (if heat_of c = {#} then None else Some (Min (set_mset (heat_of c))))" for c :: "'a cache"
    by (rule cache_coldest_heat)
next
  fix c c' :: "'a cache" and e f
  assume a: "cache_wf c" "cache_coldest c = Some e" "evictColdest c = (f, c')"
  then obtain i where i: "i \<in> set (run_ids c)" "evictable c i" "e = effEpoch c (c_store c ! i)" "f = r_bytes (c_store c ! i)"
    "c' = (upd_run i (\<lambda>r. r\<lparr>r_units := [], r_resident := False\<rparr>) c)\<lparr>c_hooked := c_hooked c @ [r_coord (c_store c ! i)]\<rparr>"
    by (rule evictColdest_upd)
  have d: "distinct (run_ids c)" "i < length (c_store c)" using a(1) i(1) run_ids_bound by (auto simp: cache_wf_def)
  have ids: "run_ids c' = run_ids c" using i(5) by simp
  have "\<not> evictable c' i" "c_Recency c' = c_Recency c" "\<And>j. j \<noteq> i \<Longrightarrow> c_store c' ! j = c_store c ! j"
    using i(5) d(2) by (simp_all add: upd_run_def evictable_def)
  from filter_hollow [OF d(1) i(1,2) this(3,1,2)] have "add_mset e (heat_of c') = heat_of c"
    unfolding heat_of_def i(3) ids by simp
  then show "heat_of c' = heat_of c - {#e#}" by (metis add_mset_remove_trivial)
  show "resident_bytes c' = resident_bytes c - f"
    using upd_run_resident [OF a(1) i(1), of "\<lambda>r. r\<lparr>r_units := [], r_resident := False\<rparr>"] i(2,4,5) by (simp add: evictable_def)
  have "0 \<le> r_bytes (c_store c ! i)" using a(1) d(2) by (simp add: cache_wf_def)
  then show "cache_wf c' \<and> 0 \<le> f" using i(4,5) upd_run_wf [OF a(1), of "\<lambda>r. r\<lparr>r_units := [], r_resident := False\<rparr>" i] by simp
qed

section \<open>What operations keep\<close>

text \<open>
  A cache only grows: its parameters stay, runs keep their number and coordinates, nodes keep their arrays and
  these only get longer, by new runs.
\<close>

definition arrays_grow :: "nat \<Rightarrow> nat list list \<Rightarrow> nat list list \<Rightarrow> bool" where
  "arrays_grow k A A' \<longleftrightarrow> length A \<le> length A' \<and>
     (\<forall>g < length A. length (A ! g) \<le> length (A' ! g) \<and> set (A ! g) \<subseteq> set (A' ! g) \<and> set (A' ! g) \<subseteq> set (A ! g) \<union> {k..})"

definition keeps :: "'u cache \<Rightarrow> 'u cache \<Rightarrow> bool" where
  "keeps c c' \<longleftrightarrow> c_src c' = c_src c \<and> c_size c' = c_size c \<and> c_key c' = c_key c \<and>
     length (c_store c) \<le> length (c_store c') \<and> (\<forall>j < length (c_store c). r_coord (c_store c' ! j) = r_coord (c_store c ! j)) \<and>
     (\<forall>name n. map_of (c_nodes c) name = Some n \<longrightarrow> (\<exists>n'. map_of (c_nodes c') name = Some n' \<and> arrays_grow (length (c_store c)) (n_arrays n) (n_arrays n')))"

definition forest_keeps :: "'u forest \<Rightarrow> 'u forest \<Rightarrow> bool" where
  "forest_keeps w w' \<longleftrightarrow> list_all2 keeps (f_caches w) (f_caches w')"

lemma arrays_grow_refl [simp]: "arrays_grow k A A"
  by (simp add: arrays_grow_def)

lemma arrays_grow_trans:
  assumes "arrays_grow k A B" "arrays_grow m B C" "k \<le> m"
  shows "arrays_grow k A C"
proof -
  have "length (A ! g) \<le> length (C ! g) \<and> set (A ! g) \<subseteq> set (C ! g) \<and> set (C ! g) \<subseteq> set (A ! g) \<union> {k..}" if "g < length A" for g
  proof -
    have "g < length B" using that assms(1) by (simp add: arrays_grow_def)
    then have "length (B ! g) \<le> length (C ! g)" "set (B ! g) \<subseteq> set (C ! g)" "set (C ! g) \<subseteq> set (B ! g) \<union> {m..}" using assms(2) by (auto simp: arrays_grow_def)
    moreover have "length (A ! g) \<le> length (B ! g)" "set (A ! g) \<subseteq> set (B ! g)" "set (B ! g) \<subseteq> set (A ! g) \<union> {k..}" using assms(1) that by (auto simp: arrays_grow_def)
    moreover have "{m..} \<subseteq> {k..}" using assms(3) by simp
    ultimately show ?thesis by force
  qed
  then show ?thesis using assms(1,2) by (auto simp: arrays_grow_def)
qed

lemma keeps_refl [simp]: "keeps c c"
  by (auto simp: keeps_def)

lemma keeps_reflp: "reflp keeps"
  by (simp add: reflp_def)

lemma keeps_trans: "keeps a b \<Longrightarrow> keeps b c \<Longrightarrow> keeps a c"
  unfolding keeps_def by auto (meson arrays_grow_trans)

lemma keeps_transp: "transp keeps"
  using keeps_trans by (auto simp: transp_def)

lemma forest_keeps_refl [simp]: "forest_keeps w w"
  by (simp add: forest_keeps_def list_all2_reflp [OF keeps_reflp])

lemma forest_keeps_trans: "forest_keeps a b \<Longrightarrow> forest_keeps b c \<Longrightarrow> forest_keeps a c"
  unfolding forest_keeps_def by (rule list_all2_transp [OF keeps_transp])

lemma forest_keeps_nth: "forest_keeps w w' \<Longrightarrow> i < length (f_caches w) \<Longrightarrow> keeps (f_caches w ! i) (f_caches w' ! i)"
  by (simp add: forest_keeps_def list_all2_conv_all_nth)

lemma forest_keeps_length: "forest_keeps w w' \<Longrightarrow> length (f_caches w') = length (f_caches w)"
  by (simp add: forest_keeps_def list_all2_conv_all_nth)

lemma upd_cache_keeps:
  assumes "keeps (f_caches w ! i) (f (f_caches w ! i))"
  shows "forest_keeps w (upd_cache i f w)"
proof -
  have "list_all2 keeps ((f_caches w)[i := f_caches w ! i]) ((f_caches w)[i := f (f_caches w ! i)])"
    by (rule list_all2_update_cong [OF list_all2_reflp [OF keeps_reflp] assms])
  then show ?thesis by (simp add: forest_keeps_def upd_cache_def)
qed

lemma upd_cache_nth [simp]: "i < length (f_caches w) \<Longrightarrow> f_caches (upd_cache i f w) ! i = f (f_caches w ! i)"
    "f_budget (upd_cache i f w) = f_budget w" "length (f_caches (upd_cache i f w)) = length (f_caches w)"
    "j \<noteq> i \<Longrightarrow> f_caches (upd_cache i f w) ! j = f_caches w ! j"
  by (simp_all add: upd_cache_def)

lemma upd_run_keeps: "(\<And>r. r_coord (f r) = r_coord r) \<Longrightarrow> keeps c (upd_run j f c)"
  by (cases "j < length (c_store c)") (auto simp: keeps_def upd_run_def nth_list_update)

text \<open>The history a cache is built over, by node; what a coordinate names of it.\<close>

definition between :: "('u \<Rightarrow> nat) \<Rightarrow> nat \<Rightarrow> nat \<Rightarrow> 'u list \<Rightarrow> 'u list" where
  "between key from to us = filter (\<lambda>u. from < key u \<and> key u \<le> to) us"

definition coherent :: "(string \<Rightarrow> 'u list) \<Rightarrow> 'u cache \<Rightarrow> bool" where
  "coherent hist c \<longleftrightarrow>
     (\<forall>r \<in> set (c_store c). r_resident r \<longrightarrow>
        r_units r = between (c_key c) (co_From (r_coord r)) (co_To (r_coord r)) (hist (co_Node (r_coord r)))) \<and>
     (\<forall>(name, n) \<in> set (c_nodes c). \<forall>a \<in> set (n_arrays n). \<forall>j \<in> set a. co_Node (r_coord (c_store c ! j)) = name)"

definition serves :: "(string \<Rightarrow> 'u list) \<Rightarrow> 'u cache \<Rightarrow> bool" where
  "serves hist c \<longleftrightarrow> (\<forall>name. sorted (map (c_key c) (hist name))) \<and>
     (\<exists>src. c_src c = Some src \<and> (\<forall>co. src co = Inr (between (c_key c) (co_From co) (co_To co) (hist (co_Node co)))))"

lemma serves_keeps: "keeps c c' \<Longrightarrow> serves hist c' = serves hist c"
  by (simp add: keeps_def serves_def)

text \<open>Hollowing runs, which is all that eviction does to a cache.\<close>

definition hollowed :: "'u cache \<Rightarrow> 'u cache \<Rightarrow> bool" where
  "hollowed c c' \<longleftrightarrow> c_src c' = c_src c \<and> c_size c' = c_size c \<and> c_key c' = c_key c \<and> c_nodes c' = c_nodes c \<and>
     length (c_store c') = length (c_store c) \<and>
     (\<forall>j < length (c_store c). c_store c' ! j = c_store c ! j \<or> c_store c' ! j = (c_store c ! j)\<lparr>r_units := [], r_resident := False\<rparr>)"

lemma hollowed_reflp: "reflp hollowed"
  by (simp add: reflp_def hollowed_def)

lemma hollowed_run:
  "hollowed c c' \<Longrightarrow> j < length (c_store c) \<Longrightarrow>
     c_store c' ! j = c_store c ! j \<or> c_store c' ! j = (c_store c ! j)\<lparr>r_units := [], r_resident := False\<rparr>"
  by (simp add: hollowed_def)

lemma hollowed_transp: "transp hollowed"
proof (rule transpI)
  fix a b c :: "'a cache"
  assume h: "hollowed a b" "hollowed b c"
  have "c_store c ! j = c_store a ! j \<or> c_store c ! j = (c_store a ! j)\<lparr>r_units := [], r_resident := False\<rparr>" if "j < length (c_store a)" for j
    using hollowed_run [OF h(1) that] hollowed_run [OF h(2), of j] h(1) that by (auto simp: hollowed_def)
  then show "hollowed a c" using h by (simp add: hollowed_def)
qed

lemma hollowed_coord: "hollowed c c' \<Longrightarrow> j < length (c_store c) \<Longrightarrow> r_coord (c_store c' ! j) = r_coord (c_store c ! j)"
  using hollowed_run [of c c' j] by auto

lemma hollowed_fields:
  "hollowed c c' \<Longrightarrow> c_src c' = c_src c \<and> c_size c' = c_size c \<and> c_key c' = c_key c \<and> c_nodes c' = c_nodes c \<and> length (c_store c') = length (c_store c)"
  by (simp add: hollowed_def)

lemma hollowed_keeps: "hollowed c c' \<Longrightarrow> keeps c c'"
  using hollowed_coord [of c c'] hollowed_fields [of c c'] by (simp add: keeps_def)

lemma hollowed_coherent:
  assumes "hollowed c c'" "coherent hist c" "cache_wf c"
  shows "coherent hist c'"
proof -
  have k: "c_key c' = c_key c" "c_nodes c' = c_nodes c" "length (c_store c') = length (c_store c)" using hollowed_fields [OF assms(1)] by simp_all
  note run = hollowed_run [OF assms(1)] and crd = hollowed_coord [OF assms(1)]
  have "r_units r = between (c_key c) (co_From (r_coord r)) (co_To (r_coord r)) (hist (co_Node (r_coord r)))"
    if "r \<in> set (c_store c')" "r_resident r" for r
  proof -
    from that(1) obtain j where j: "j < length (c_store c)" "c_store c' ! j = r" unfolding in_set_conv_nth k(3) by blast
    have "r \<noteq> (c_store c ! j)\<lparr>r_units := [], r_resident := False\<rparr>" using that(2) by (metis run.ext_inject run.surjective run.update_convs(6))
    then have "c_store c ! j = r" using run [OF j(1)] j(2) by simp
    then have "r \<in> set (c_store c)" using nth_mem [OF j(1)] by simp
    then show ?thesis using assms(2) that(2) unfolding coherent_def by blast
  qed
  moreover have "co_Node (r_coord (c_store c' ! j)) = name" if "(name, n) \<in> set (c_nodes c)" "a \<in> set (n_arrays n)" "j \<in> set a" for name n a j
  proof -
    have "j < length (c_store c)" using run_ids_bound [OF assms(3) array_run [OF assms(3) that]] .
    then show ?thesis using crd assms(2) that by (fastforce simp: coherent_def)
  qed
  ultimately show ?thesis unfolding coherent_def k by blast
qed

text \<open>Nodes and insertion.\<close>

lemma node_of_some: "map_of (c_nodes c) name = Some n \<Longrightarrow> node_of c name = n"
  by (simp add: node_of_def)

lemma cache_node_has: "\<exists>n. map_of (c_nodes (cache_node c name)) name = Some n"
  by (auto simp: cache_node_def map_add_def split: option.splits)

lemma cache_node_keeps: "keeps c (cache_node c name)"
  by (auto simp: cache_node_def keeps_def map_add_def split: option.splits)

lemma cache_node_ids: "run_ids (cache_node c name) = run_ids c"
  by (auto simp: cache_node_def run_ids_def empty_node_def node_runs_def split: option.splits)

lemma cache_node_store: "c_store (cache_node c name) = c_store c"
  by (simp add: cache_node_def split: option.splits)

lemma cache_node_resident: "resident_bytes (cache_node c name) = resident_bytes c"
  by (simp add: resident_bytes_def cache_node_ids cache_node_store cong: if_cong)

lemma cache_node_wf: "cache_wf c \<Longrightarrow> cache_wf (cache_node c name)"
proof -
  assume wf: "cache_wf c"
  show ?thesis
  proof (cases "map_of (c_nodes c) name")
    case None
    then have "name \<notin> fst ` set (c_nodes c)" by (simp add: map_of_eq_None_iff)
    then show ?thesis using wf None cache_node_ids [of c name]
      by (auto simp: cache_wf_def cache_node_def empty_node_def)
  next
    case (Some n)
    then show ?thesis using wf by (simp add: cache_node_def)
  qed
qed

lemma cache_node_coherent: "coherent hist c \<Longrightarrow> coherent hist (cache_node c name)"
  by (auto simp: coherent_def cache_node_def empty_node_def split: option.splits)

lemma map_of_put_node:
  "map_of (c_nodes (put_node name n c)) k = (if k = name then map_option (\<lambda>_. n) (map_of (c_nodes c) name) else map_of (c_nodes c) k)"
proof -
  have "map_of (map (\<lambda>(k, m). if k = name then (k, n) else (k, m)) xs) k =
      (if k = name then map_option (\<lambda>_. n) (map_of xs name) else map_of xs k)" for xs :: "(string \<times> node) list"
    by (induction xs) auto
  then show ?thesis by (simp add: put_node_def)
qed

lemma mset_put_node:
  "distinct (map fst xs) \<Longrightarrow> map_of xs name = Some m \<Longrightarrow>
   mset (concat (map (node_runs \<circ> snd) (map (\<lambda>(k, m). if k = name then (k, n) else (k, m)) xs))) + mset (node_runs m) =
   mset (concat (map (node_runs \<circ> snd) xs)) + mset (node_runs n)"
proof (induction xs)
  case (Cons x xs)
  obtain k m' where x: "x = (k, m')" by fastforce
  show ?case
  proof (cases "k = name")
    case True
    then have "map (\<lambda>(k, m). if k = name then (k, n) else (k, m)) xs = xs"
      using Cons.prems(1) x by (intro map_idI) force
    then show ?thesis using True x Cons.prems by simp
  next
    case False
    then show ?thesis using Cons x by (simp add: add.assoc)
  qed
qed simp

lemma node_insert_runs:
  assumes "n_arrays n \<noteq> []"
  shows "mset (node_runs (node_insert grow rs r n)) = add_mset r (mset (node_runs n))"
    "n_arrays (node_insert grow rs r n) \<noteq> []" "arrays_grow r (n_arrays n) (n_arrays (node_insert grow rs r n))"
    "\<And>a. a \<in> set (n_arrays (node_insert grow rs r n)) \<Longrightarrow> (\<forall>j \<in> set a. j = r \<or> (\<exists>a' \<in> set (n_arrays n). j \<in> set a'))"
    "\<forall>a \<in> set (n_arrays n). set a \<subseteq> set (node_runs n) \<Longrightarrow>
      \<forall>a \<in> set (n_arrays (node_insert grow rs r n)). set a \<subseteq> set (node_runs (node_insert grow rs r n))"
proof -
  define i where "i = node_pos rs (node_runs n) (co_From (r_coord (rs ! r)))"
  let ?ids = "take i (node_runs n) @ r # drop i (node_runs n)"
  have ins: "node_insert grow rs r n = (if length (node_runs n) < n_cap n then n\<lparr>n_arrays := butlast (n_arrays n) @ [?ids]\<rparr>
     else \<lparr>n_arrays = n_arrays n @ [?ids], n_cap = grow (Suc (length (node_runs n)))\<rparr>)"
    by (simp add: node_insert_def Let_def i_def)
  have "mset (take i (node_runs n)) + mset (drop i (node_runs n)) = mset (node_runs n)" by (metis append_take_drop_id mset_append)
  then have ms: "mset ?ids = add_mset r (mset (node_runs n))" by simp
  have sup: "set (node_runs n) \<subseteq> set ?ids"
    using arg_cong [OF ms, of set_mset] by (metis insert_subset order_refl set_mset_add_mset_insert set_mset_mset)
  have new: "node_runs (node_insert grow rs r n) = ?ids" by (simp add: ins) (simp add: node_runs_def)
  then show "mset (node_runs (node_insert grow rs r n)) = add_mset r (mset (node_runs n))" using ms by (simp only:)
  show "\<forall>a \<in> set (n_arrays (node_insert grow rs r n)). set a \<subseteq> set (node_runs (node_insert grow rs r n))"
    if "\<forall>a \<in> set (n_arrays n). set a \<subseteq> set (node_runs n)"
  proof
    fix a assume "a \<in> set (n_arrays (node_insert grow rs r n))"
    then have "a = ?ids \<or> a \<in> set (n_arrays n)" by (auto simp: ins split: if_splits dest: in_set_butlastD)
    then show "set a \<subseteq> set (node_runs (node_insert grow rs r n))" unfolding new using that sup by blast
  qed
  show "n_arrays (node_insert grow rs r n) \<noteq> []" by (simp add: ins)
  have last: "node_runs n \<in> set (n_arrays n)" using assms by (simp add: node_runs_def)
  have sub: "set ?ids \<subseteq> insert r (set (node_runs n))" by (auto dest: in_set_takeD in_set_dropD)
  show "\<And>a. a \<in> set (n_arrays (node_insert grow rs r n)) \<Longrightarrow> (\<forall>j \<in> set a. j = r \<or> (\<exists>a' \<in> set (n_arrays n). j \<in> set a'))"
  proof -
    fix a assume "a \<in> set (n_arrays (node_insert grow rs r n))"
    then have "a = ?ids \<or> a \<in> set (n_arrays n)" by (auto simp: ins split: if_splits dest: in_set_butlastD)
    then show "\<forall>j \<in> set a. j = r \<or> (\<exists>a' \<in> set (n_arrays n). j \<in> set a')" using last sub by blast
  qed
  have "length (n_arrays n ! g) \<le> length ((butlast (n_arrays n) @ [?ids]) ! g) \<and>
      set (n_arrays n ! g) \<subseteq> set ((butlast (n_arrays n) @ [?ids]) ! g) \<and>
      set ((butlast (n_arrays n) @ [?ids]) ! g) \<subseteq> set (n_arrays n ! g) \<union> {r..}" if g: "g < length (n_arrays n)" for g
  proof (cases "g = length (n_arrays n) - 1")
    case True
    then have "n_arrays n ! g = node_runs n" "(butlast (n_arrays n) @ [?ids]) ! g = ?ids"
      using assms by (simp_all add: nth_append node_runs_def last_conv_nth)
    then show ?thesis using sub sup by auto
  next
    case False
    then have "g < length (n_arrays n) - 1" using g by linarith
    then show ?thesis by (simp add: nth_append nth_butlast)
  qed
  then show "arrays_grow r (n_arrays n) (n_arrays (node_insert grow rs r n))"
    by (auto simp: ins arrays_grow_def nth_append)
qed

lemma sum_list_map_mset: "sum_list (map f xs) = sum_mset (image_mset f (mset xs))"
  by (induction xs) simp_all

lemma add_run_facts:
  assumes wf: "cache_wf c" and n: "map_of (c_nodes c) name = Some n" and r: "0 \<le> r_bytes r"
  shows "cache_wf (add_run name r c)" "keeps c (add_run name r c)"
    "resident_bytes (add_run name r c) = resident_bytes c + (if r_resident r then r_bytes r else 0)"
    "coherent hist c \<Longrightarrow> co_Node (r_coord r) = name \<Longrightarrow>
      (r_resident r \<longrightarrow> r_units r = between (c_key c) (co_From (r_coord r)) (co_To (r_coord r)) (hist name)) \<Longrightarrow> coherent hist (add_run name r c)"
proof -
  let ?k = "length (c_store c)" and ?c1 = "c\<lparr>c_store := c_store c @ [r]\<rparr>"
  define n' where "n' = node_insert (c_grow c) (c_store c @ [r]) ?k n"
  have add: "add_run name r c = put_node name n' ?c1" using n by (simp add: add_run_def Let_def n'_def node_of_def)
  have nin: "(name, n) \<in> set (c_nodes c)" using n by (rule map_of_SomeD)
  have dist: "distinct (map fst (c_nodes c))" and arr: "n_arrays n \<noteq> []"
    and ne: "\<And>nm m. (nm, m) \<in> set (c_nodes c) \<Longrightarrow> n_arrays m \<noteq> [] \<and> (\<forall>a \<in> set (n_arrays m). set a \<subseteq> set (node_runs m))"
    using wf nin unfolding cache_wf_def by fastforce+
  have bnd: "j < ?k" if "(nm, m) \<in> set (c_nodes c)" "a \<in> set (n_arrays m)" "j \<in> set a" for nm m a j
    using run_ids_bound [OF wf array_run [OF wf that]] .
  note ins = node_insert_runs [OF arr, where grow = "c_grow c" and rs = "c_store c @ [r]" and r = ?k, folded n'_def]
  have store: "c_store (add_run name r c) = c_store c @ [r]" by (simp add: add put_node_def)
  have nodes: "c_nodes (add_run name r c) = map (\<lambda>(k, m). if k = name then (k, n') else (k, m)) (c_nodes c)"
    by (simp add: add put_node_def)
  have flds: "c_src (add_run name r c) = c_src c" "c_size (add_run name r c) = c_size c" "c_key (add_run name r c) = c_key c"
    by (simp_all add: add put_node_def)
  have "mset (run_ids (add_run name r c)) + mset (node_runs n) = mset (run_ids c) + mset (node_runs n')"
    unfolding run_ids_def nodes by (rule mset_put_node [OF dist n])
  then have ids: "mset (run_ids (add_run name r c)) = add_mset ?k (mset (run_ids c))" using ins(1) by simp
  have "?k \<notin> set (run_ids c)" using run_ids_bound [OF wf] by blast
  then have dids: "distinct (run_ids (add_run name r c))" using wf ids by (metis cache_wf_def distinct.simps(2) mset.simps(2) mset_eq_imp_distinct_iff)
  have in_nodes: "(nm, m) \<in> set (c_nodes (add_run name r c)) \<Longrightarrow> nm = name \<and> m = n' \<or> (nm, m) \<in> set (c_nodes c)" for nm m
    by (auto simp: nodes split: if_splits)
  have new: "j = ?k \<or> j < ?k \<and> (\<exists>m' a'. (nm, m') \<in> set (c_nodes c) \<and> a' \<in> set (n_arrays m') \<and> j \<in> set a')"
    if "(nm, m) \<in> set (c_nodes (add_run name r c))" "a \<in> set (n_arrays m)" "j \<in> set a" for nm m a j
    using in_nodes [OF that(1)] that(2,3) ins(4) nin bnd by blast
  have only: "j = ?k \<Longrightarrow> nm = name" if "(nm, m) \<in> set (c_nodes (add_run name r c))" "a \<in> set (n_arrays m)" "j \<in> set a" for nm m a j
    using in_nodes [OF that(1)] that(2,3) bnd by blast
  have "map fst (c_nodes (add_run name r c)) = map fst (c_nodes c)" by (auto simp: nodes)
  moreover have "n_arrays m \<noteq> [] \<and> (\<forall>a \<in> set (n_arrays m). set a \<subseteq> set (node_runs m))"
    if "(nm, m) \<in> set (c_nodes (add_run name r c))" for nm m using in_nodes [OF that] ins(2) ins(5) ne nin by blast
  moreover have "j < length (c_store (add_run name r c))" if "j \<in> set (run_ids (add_run name r c))" for j
    using that run_ids_bound [OF wf, of j] arg_cong [OF ids, of set_mset] store by auto
  ultimately show "cache_wf (add_run name r c)"
    using wf dids r flds store dist unfolding cache_wf_def by (auto simp: nth_append)
  show "keeps c (add_run name r c)"
  proof -
    have "map_of (c_nodes (add_run name r c)) k = (if k = name then Some n' else map_of (c_nodes c) k)" for k
      using n by (simp add: add map_of_put_node)
    then show ?thesis using ins(3) n by (auto simp: keeps_def flds store nth_append)
  qed
  have val: "(if r_resident (c_store (add_run name r c) ! j) then r_bytes (c_store (add_run name r c) ! j) else 0) =
      (if r_resident (c_store c ! j) then r_bytes (c_store c ! j) else 0)" if "j \<in># mset (run_ids c)" for j
    using that run_ids_bound [OF wf, of j] by (simp add: store nth_append)
  have "resident_bytes (add_run name r c) = sum_mset (image_mset (\<lambda>j. if r_resident (c_store (add_run name r c) ! j)
      then r_bytes (c_store (add_run name r c) ! j) else 0) (add_mset ?k (mset (run_ids c))))"
    unfolding resident_bytes_def ids [symmetric] by (rule sum_list_map_mset)
  also have "\<dots> = (if r_resident r then r_bytes r else 0) + sum_mset (image_mset (\<lambda>j. if r_resident (c_store c ! j)
      then r_bytes (c_store c ! j) else 0) (mset (run_ids c)))"
  proof -
    have "image_mset (\<lambda>j. if r_resident (c_store (add_run name r c) ! j) then r_bytes (c_store (add_run name r c) ! j) else 0) (mset (run_ids c)) =
        image_mset (\<lambda>j. if r_resident (c_store c ! j) then r_bytes (c_store c ! j) else 0) (mset (run_ids c))"
      by (rule image_mset_cong) (rule val)
    then show ?thesis unfolding image_mset_add_mset by (simp only: sum_mset.insert) (simp add: store)
  qed
  also have "\<dots> = resident_bytes c + (if r_resident r then r_bytes r else 0)"
    unfolding resident_bytes_def sum_list_map_mset by simp
  finally show "resident_bytes (add_run name r c) = resident_bytes c + (if r_resident r then r_bytes r else 0)" .
  assume co: "coherent hist c" "co_Node (r_coord r) = name"
    "r_resident r \<longrightarrow> r_units r = between (c_key c) (co_From (r_coord r)) (co_To (r_coord r)) (hist name)"
  have "co_Node (r_coord ((c_store c @ [r]) ! j)) = nm"
    if nd: "(nm, m) \<in> set (c_nodes (add_run name r c))" "a \<in> set (n_arrays m)" "j \<in> set a" for nm m a j
  proof (cases "j = ?k")
    case True
    then show ?thesis using only [OF nd] co(2) by simp
  next
    case False
    then show ?thesis using new [OF nd] co(1) unfolding coherent_def by (fastforce simp: nth_append)
  qed
  then show "coherent hist (add_run name r c)" using co unfolding coherent_def store flds by auto
qed

section \<open>The meter\<close>

definition resident_total :: "'u forest \<Rightarrow> int" where
  "resident_total w = sum_list (map resident_bytes (f_caches w))"

text \<open>The meter shows the resident bytes less \<open>delta\<close>, which is still to be charged.\<close>

definition owing :: "int \<Rightarrow> 'u forest \<Rightarrow> bool" where
  "owing delta w \<longleftrightarrow> list_all cache_wf (f_caches w) \<and> (\<forall>b. f_budget w = Some b \<longrightarrow> b_bytes b + delta = resident_total w)"

abbreviation metered :: "'u forest \<Rightarrow> bool" where
  "metered \<equiv> owing 0"

lemma owing_upd_cache:
  assumes "owing d w" "i < length (f_caches w)" "cache_wf (f (f_caches w ! i))"
    "resident_bytes (f (f_caches w ! i)) = resident_bytes (f_caches w ! i) + e"
  shows "owing (d + e) (upd_cache i f w)"
proof -
  have "resident_total (upd_cache i f w) = resident_total w + e"
    using cache_owner.total_update [OF assms(2), of "f (f_caches w ! i)"] assms(4)
    by (simp add: resident_total_def cache_owner.total_def upd_cache_def)
  moreover have "list_all cache_wf (f_caches (upd_cache i f w))"
    using assms(1,3) set_update_subset_insert [of "f_caches w" i "f (f_caches w ! i)"] by (auto simp: owing_def list_all_iff upd_cache_def)
  ultimately show ?thesis using assms(1) by (simp add: owing_def)
qed

lemma owing_wf: "owing d w \<Longrightarrow> i < length (f_caches w) \<Longrightarrow> cache_wf (f_caches w ! i)"
  by (simp add: owing_def list_all_length)

lemma evict_hollowed: "cache_wf c \<Longrightarrow> cache_coldest c = Some e \<Longrightarrow> evictColdest c = (f, c') \<Longrightarrow> hollowed c c'"
proof (frule (2) evictColdest_upd)
  fix i assume wf: "cache_wf c" and i: "i \<in> set (run_ids c)"
    and "c' = upd_run i (\<lambda>r. r\<lparr>r_units := [], r_resident := False\<rparr>) c\<lparr>c_hooked := c_hooked c @ [r_coord (c_store c ! i)]\<rparr>"
  then show ?thesis using run_ids_bound [OF wf i] by (simp add: hollowed_def upd_run_def nth_list_update)
qed

text \<open>A charge returns, settles the meter and only hollows runs.\<close>

lemma cache_charge_settles:
  assumes "owing d w"
  shows "\<exists>w'. cache_charge d w = Some w' \<and> metered w' \<and> list_all2 hollowed (f_caches w) (f_caches w') \<and>
    EpochNow (f_budget w') = EpochNow (f_budget w) \<and> (f_budget w' = None \<longleftrightarrow> f_budget w = None)"
proof (cases "f_budget w")
  case None
  then show ?thesis using assms list_all2_reflp [OF hollowed_reflp] by (auto simp: cache_charge_def charge_def owing_def)
next
  case (Some b0)
  let ?b = "b0\<lparr>b_bytes := b_bytes b0 + d\<rparr>"
  have wf: "list_all cache_wf (f_caches w)" and by0: "b_bytes b0 + d = resident_total w" using assms Some by (auto simp: owing_def)
  show ?thesis
  proof (cases "b_limit b0 \<le> 0")
    case True
    then show ?thesis using Some assms list_all2_reflp [OF hollowed_reflp]
      by (auto simp: cache_charge_def charge_def owing_def resident_total_def EpochNow_def)
  next
    case False
    obtain b' cs' where c: "charge_loop cache_coldest evictColdest (b_limit b0) ?b (f_caches w) = Some (b', cs')" "list_all cache_wf cs'"
      "b_bytes b' - b_bytes ?b = cache_owner.total cs' - cache_owner.total (f_caches w)"
      "b' = ?b\<lparr>b_bytes := b_bytes b', b_evictions := b_evictions b'\<rparr>"
      using cache_owner.charge_loop_returns [OF wf, of "b_limit b0" ?b] by blast
    have "list_all2 hollowed (f_caches w) cs'"
      by (rule cache_owner.charge_loop_rel [OF hollowed_reflp hollowed_transp evict_hollowed wf c(1)])
    moreover have "cache_charge d w = Some (w\<lparr>f_budget := Some b', f_caches := cs'\<rparr>)"
      using Some False c(1) by (simp add: cache_charge_def charge_def Let_def)
    moreover have "b_epoch b' = b_epoch b0" using c(4) by (metis budget.ext_inject budget.surjective budget.update_convs(2,5))
    ultimately show ?thesis using c(2,3) by0 Some by (auto simp: owing_def resident_total_def cache_owner.total_def EpochNow_def)
  qed
qed

lemma charge_keeps:
  assumes "list_all2 hollowed (f_caches w) (f_caches w')"
  shows "forest_keeps w w'"
  unfolding forest_keeps_def using assms by (rule list_all2_mono) (rule hollowed_keeps)

lemma charge_coherent:
  assumes "list_all2 hollowed (f_caches w) (f_caches w')" "owing d w" "i < length (f_caches w)" "coherent hist (f_caches w ! i)"
  shows "coherent hist (f_caches w' ! i)"
  using hollowed_coherent [OF _ assms(4) owing_wf [OF assms(2,3)]] list_all2_nthD [OF assms(1,3)] by simp

section \<open>Slices\<close>

lemma search_between_spec:
  assumes "\<forall>a b. a \<le> b \<longrightarrow> b < n \<longrightarrow> f a \<longrightarrow> f b"
  shows "i \<le> j \<Longrightarrow> j \<le> n \<Longrightarrow> i \<le> search_between f i j \<and> search_between f i j \<le> j \<and>
    (\<forall>m. i \<le> m \<longrightarrow> m < search_between f i j \<longrightarrow> \<not> f m) \<and> (\<forall>m. search_between f i j \<le> m \<longrightarrow> m < j \<longrightarrow> f m)"
proof (induction "j - i" arbitrary: i j rule: less_induct)
  case less
  let ?h = "(i + j) div 2"
  show ?case
  proof (cases "i < j")
    case False
    then have "search_between f i j = i" by (simp add: search_between.simps [of f i j])
    then show ?thesis using less.prems False by simp
  next
    case lt: True
    then have h: "i \<le> ?h" "?h < j" "?h < n" using less.prems by auto
    show ?thesis
    proof (cases "f ?h")
      case True
      have up: "f m" if "?h \<le> m" "m < j" for m using assms that less.prems True by (meson less_le_trans)
      have eq: "search_between f i j = search_between f i ?h" using lt True by (simp add: search_between.simps [of f i j])
      have IH: "i \<le> search_between f i ?h \<and> search_between f i ?h \<le> ?h \<and>
          (\<forall>m. i \<le> m \<longrightarrow> m < search_between f i ?h \<longrightarrow> \<not> f m) \<and> (\<forall>m. search_between f i ?h \<le> m \<longrightarrow> m < ?h \<longrightarrow> f m)"
        using less.hyps [of ?h i] h less.prems by simp
      have "f m" if "search_between f i ?h \<le> m" "m < j" for m
        using IH up [of m] that by (cases "m < ?h") auto
      then show ?thesis using IH h unfolding eq by simp
    next
      case False
      have down: "\<not> f m" if "m \<le> ?h" for m using assms that h False by blast
      have eq: "search_between f i j = search_between f (?h + 1) j" using lt False by (simp add: search_between.simps [of f i j])
      have "?h + 1 \<le> j" "j - (?h + 1) < j - i" using h by auto
      from less.hyps [OF this(2,1) less.prems(2)] have IH: "?h + 1 \<le> search_between f (?h + 1) j \<and> search_between f (?h + 1) j \<le> j \<and>
          (\<forall>m. ?h + 1 \<le> m \<longrightarrow> m < search_between f (?h + 1) j \<longrightarrow> \<not> f m) \<and> (\<forall>m. search_between f (?h + 1) j \<le> m \<longrightarrow> m < j \<longrightarrow> f m)" .
      have "\<not> f m" if "m < search_between f (?h + 1) j" for m
        using IH down [of m] that by (cases "m \<le> ?h") auto
      then show ?thesis using IH h unfolding eq by simp
    qed
  qed
qed

text \<open>The first unit behind a key.\<close>

lemma sort_Search_after:
  fixes key :: "'u \<Rightarrow> nat"
  assumes "sorted (map key us)"
  shows "sort_Search (length us) (\<lambda>i. key (us ! i) > x) = length (takeWhile (\<lambda>u. key u \<le> x) us)"
proof -
  let ?f = "\<lambda>i. key (us ! i) > x" and ?k = "length (takeWhile (\<lambda>u. key u \<le> x) us)"
  define s where "s = sort_Search (length us) ?f"
  have mono: "a \<le> b \<Longrightarrow> b < length us \<Longrightarrow> key (us ! a) \<le> key (us ! b)" for a b
    using assms by (metis (no_types, lifting) le_less_trans length_map nth_map sorted_nth_mono)
  have "\<forall>a b. a \<le> b \<longrightarrow> b < length us \<longrightarrow> ?f a \<longrightarrow> ?f b"
  proof (intro allI impI)
    fix a b assume "a \<le> b" "b < length us" "?f a"
    then show "?f b" using mono [of a b] by simp
  qed
  note spec = search_between_spec [of "length us" ?f 0 "length us", OF this le0 order_refl, folded sort_Search_def, folded s_def]
  have sp: "s \<le> length us" "\<forall>m < s. \<not> ?f m" "\<forall>m. s \<le> m \<longrightarrow> m < length us \<longrightarrow> ?f m" using spec by blast+
  have k: "?k \<le> length us" by (rule length_takeWhile_le)
  have below: "\<not> ?f m" if "m < ?k" for m
  proof -
    have "takeWhile (\<lambda>u. key u \<le> x) us ! m \<in> set (takeWhile (\<lambda>u. key u \<le> x) us)" using that by (rule nth_mem)
    from set_takeWhileD [OF this] show ?thesis unfolding takeWhile_nth [OF that] by simp
  qed
  have at: "?k < length us \<Longrightarrow> ?f ?k" using nth_length_takeWhile [of "\<lambda>u. key u \<le> x" us] by simp
  have "s = ?k"
  proof (rule linorder_cases [of s ?k])
    assume "s < ?k"
    then show ?thesis using sp(3) below [of s] k by auto
  next
    assume "?k < s"
    then show ?thesis using sp(1,2) at by auto
  qed
  then show ?thesis by (simp add: s_def)
qed

lemma sliceUnits_between: "sorted (map key us) \<Longrightarrow> sliceUnits key us from to = between key from to us"
proof (induction us)
  case (Cons u us)
  have up: "\<forall>v \<in> set us. key u \<le> key v" using Cons.prems by auto
  show ?case
  proof (cases "key u \<le> from")
    case True
    then show ?thesis using Cons by (simp add: sliceUnits_def between_def)
  next
    case False
    then have "dropWhile (\<lambda>u. key u \<le> from) us = us" using up by (cases us) auto
    moreover have "between key from to us = filter (\<lambda>u. key u \<le> to) us" using up False by (auto simp: between_def intro!: filter_cong)
    moreover have "takeWhile (\<lambda>u. key u \<le> to) vs = filter (\<lambda>u. key u \<le> to) vs" if "sorted (map key vs)" for vs
      using that by (induction vs) (auto simp: eq_commute [of "[]"] filter_empty_conv)
    ultimately show ?thesis using False Cons.prems up by (auto simp: sliceUnits_def between_def eq_commute [of "[]"] filter_empty_conv)
  qed
qed (simp add: sliceUnits_def between_def)

lemma slice_between:
  assumes "sorted (map key us)" "from \<le> to"
  shows "slice key us from to = Inr (between key from to us)"
proof -
  let ?lo = "length (takeWhile (\<lambda>u. key u \<le> from) us)" and ?hi = "length (takeWhile (\<lambda>u. key u \<le> to) us)"
  have "take (?hi - ?lo) (dropWhile (\<lambda>u. key u \<le> from) us) = takeWhile (\<lambda>u. key u \<le> to) (dropWhile (\<lambda>u. key u \<le> from) us) \<and> ?lo \<le> ?hi"
    using assms(2) by (induction us) (auto simp: takeWhile_eq_take [symmetric])
  then have "?lo \<le> ?hi" "take (?hi - ?lo) (drop ?lo us) = sliceUnits key us from to"
    by (simp_all add: sliceUnits_def dropWhile_eq_drop)
  then show ?thesis using sliceUnits_between [OF assms(1)] by (simp add: slice_def Let_def sort_Search_after [OF assms(1)])
qed

lemma between_sorted: "sorted (map key us) \<Longrightarrow> sorted (map key (between key from to us))"
  by (simp add: between_def sorted_filter)

lemma between_append:
  assumes "sorted (map key us)" "a \<le> b" "b \<le> c"
  shows "between key a b us @ between key b c us = between key a c us"
  using assms(1)
proof (induction us)
  case (Cons u us)
  have up: "\<forall>v \<in> set us. key u \<le> key v" using Cons.prems by auto
  show ?case
  proof (cases "key u \<le> b")
    case True
    then show ?thesis using Cons assms(2,3) by (auto simp: between_def)
  next
    case False
    then have "between key a b us = []" using up by (auto simp: between_def filter_empty_conv)
    then show ?thesis using Cons False assms(2,3) by (auto simp: between_def)
  qed
qed (simp add: between_def)

lemma between_between: "between key a b (between key c d us) = between key (max a c) (min b d) us"
  by (auto simp: between_def intro!: filter_cong)

lemma between_empty: "b \<le> a \<Longrightarrow> between key a b us = []"
  by (auto simp: between_def filter_empty_conv)

end
