(* ===== verification/Forest_Range.thy ===== *)
theory Forest_Range
  imports Forest_Spec
begin

text \<open>
  Reading through the cache: what a range along a lineage returns, and that the meter stays right over every
  sequence of operations.
\<close>

section \<open>Changing one run\<close>

lemma owing_bump: "owing d (snd (bump w)) = owing d w" "f_caches (snd (bump w)) = f_caches w"
  by (auto simp: bump_def owing_def resident_total_def split: option.splits)

lemma forest_keeps_caches: "f_caches w' = f_caches w \<Longrightarrow> forest_keeps w w'"
  using forest_keeps_refl [of w] unfolding forest_keeps_def by (simp only:)

lemma bump_keeps: "forest_keeps w (snd (bump w))"
  by (rule forest_keeps_caches) (rule owing_bump)

text \<open>Only one node's runs change.\<close>

definition only_node :: "string \<Rightarrow> 'u cache \<Rightarrow> 'u cache \<Rightarrow> bool" where
  "only_node name c c' \<longleftrightarrow> (\<forall>nm. nm \<noteq> name \<longrightarrow> map_of (c_nodes c') nm = map_of (c_nodes c) nm)"

lemma only_node_refl [simp]: "only_node name c c"
  by (simp add: only_node_def)

lemma only_node_trans: "only_node name a b \<Longrightarrow> only_node name b c \<Longrightarrow> only_node name a c"
  by (simp add: only_node_def)

text \<open>A new run, charged for.\<close>

lemma push_run:
  assumes "metered w" "i < length (f_caches w)" "map_of (c_nodes (f_caches w ! i)) name = Some n" "r_resident r" "0 \<le> r_bytes r"
  obtains w' where "cache_charge (r_bytes r) (upd_cache i (add_run name r) w) = Some w'" "metered w'" "forest_keeps w w'"
    "length (c_store (f_caches w' ! i)) = Suc (length (c_store (f_caches w ! i)))"
    "r_coord (c_store (f_caches w' ! i) ! length (c_store (f_caches w ! i))) = r_coord r"
    "only_node name (f_caches w ! i) (f_caches w' ! i)"
    "\<And>hist. coherent hist (f_caches w ! i) \<Longrightarrow> co_Node (r_coord r) = name \<Longrightarrow>
      r_units r = between (c_key (f_caches w ! i)) (co_From (r_coord r)) (co_To (r_coord r)) (hist name) \<Longrightarrow> coherent hist (f_caches w' ! i)"
proof -
  let ?c = "f_caches w ! i" and ?w = "upd_cache i (add_run name r) w"
  note ar = add_run_facts [OF owing_wf [OF assms(1,2)] assms(3,5)]
  have o: "owing (r_bytes r) ?w" using owing_upd_cache [where f = "add_run name r", OF assms(1,2) ar(1) ar(3)] assms(4) by simp
  obtain w' where w': "cache_charge (r_bytes r) ?w = Some w'" "metered w'" "list_all2 hollowed (f_caches ?w) (f_caches w')"
    using cache_charge_settles [OF o] by blast
  have i': "i < length (f_caches ?w)" using assms(2) by simp
  have h: "hollowed (add_run name r ?c) (f_caches w' ! i)" using list_all2_nthD [OF w'(3) i'] assms(2) by simp
  have st: "c_store (add_run name r ?c) = c_store ?c @ [r]" by (simp add: add_run_def put_node_def Let_def)
  have "forest_keeps w ?w" by (rule upd_cache_keeps) (rule ar(2))
  then have "forest_keeps w w'" using charge_keeps [OF w'(3)] forest_keeps_trans by blast
  moreover have "length (c_store (f_caches w' ! i)) = Suc (length (c_store ?c))" using hollowed_fields [OF h] st by simp
  moreover have "only_node name ?c (f_caches w' ! i)"
    using hollowed_fields [OF h] by (simp add: only_node_def add_run_def Let_def map_of_put_node)
  moreover have "r_coord (c_store (f_caches w' ! i) ! length (c_store ?c)) = r_coord r"
    using hollowed_coord [OF h, of "length (c_store ?c)"] st by simp
  moreover have "coherent hist (f_caches w' ! i)"
    if "coherent hist ?c" "co_Node (r_coord r) = name"
      "r_units r = between (c_key ?c) (co_From (r_coord r)) (co_To (r_coord r)) (hist name)" for hist
    using charge_coherent [OF w'(3) o i'] ar(4) [OF that(1,2)] that(3) assms(2) by simp
  ultimately show thesis using that w'(1,2) by blast
qed

text \<open>A run that is changed in place, charged for the difference.\<close>

definition run_bytes :: "'u run \<Rightarrow> int" where
  "run_bytes r = (if r_resident r then r_bytes r else 0)"

lemma replace_run:
  assumes "metered w" "i < length (f_caches w)" "j \<in> set (run_ids (f_caches w ! i))" "\<And>r. r_coord (f r) = r_coord r"
    "0 \<le> r_bytes (f (c_store (f_caches w ! i) ! j))"
  shows "owing (run_bytes (f (c_store (f_caches w ! i) ! j)) - run_bytes (c_store (f_caches w ! i) ! j)) (upd_cache i (upd_run j f) w)"
    "forest_keeps w (upd_cache i (upd_run j f) w)"
proof -
  let ?c = "f_caches w ! i"
  have wf: "cache_wf ?c" by (rule owing_wf [OF assms(1,2)])
  show "owing (run_bytes (f (c_store ?c ! j)) - run_bytes (c_store ?c ! j)) (upd_cache i (upd_run j f) w)"
    using owing_upd_cache [where f = "upd_run j f", OF assms(1,2) upd_run_wf [where f = f, OF wf assms(5)],
        of "run_bytes (f (c_store ?c ! j)) - run_bytes (c_store ?c ! j)"]
      upd_run_resident [OF wf assms(3), of f] by (simp add: run_bytes_def)
  show "forest_keeps w (upd_cache i (upd_run j f) w)" by (rule upd_cache_keeps) (rule upd_run_keeps [OF assms(4)])
qed

lemma upd_run_coherent:
  assumes "coherent hist c" "\<And>r. r_coord (f r) = r_coord r"
    "r_resident (f (c_store c ! j)) \<Longrightarrow> r_units (f (c_store c ! j)) =
      between (c_key c) (co_From (r_coord (c_store c ! j))) (co_To (r_coord (c_store c ! j))) (hist (co_Node (r_coord (c_store c ! j))))"
  shows "coherent hist (upd_run j f c)"
proof -
  have st: "c_store (upd_run j f c) = (c_store c)[j := f (c_store c ! j)]" "c_key (upd_run j f c) = c_key c" "c_nodes (upd_run j f c) = c_nodes c"
    by (simp_all add: upd_run_def)
  have "r_coord ((c_store c)[j := f (c_store c ! j)] ! k) = r_coord (c_store c ! k)" for k
    by (cases "j < length (c_store c)"; cases "k = j") (simp_all add: assms(2) list_update_beyond)
  moreover have "r_units r = between (c_key c) (co_From (r_coord r)) (co_To (r_coord r)) (hist (co_Node (r_coord r)))"
    if "r \<in> set ((c_store c)[j := f (c_store c ! j)])" "r_resident r" for r
    using set_update_subset_insert [of "c_store c" j "f (c_store c ! j)"] that assms unfolding coherent_def by auto
  ultimately show ?thesis using assms(1) unfolding coherent_def st by simp
qed

section \<open>Filling gaps\<close>

definition new_runs_to :: "nat \<Rightarrow> 'u cache \<Rightarrow> 'u cache \<Rightarrow> bool" where
  "new_runs_to to c c' \<longleftrightarrow> (\<forall>j. length (c_store c) \<le> j \<longrightarrow> j < length (c_store c') \<longrightarrow> co_To (r_coord (c_store c' ! j)) \<le> to)"

lemma fetch_keeps:
  assumes "owing d w" "i < length (f_caches w)" "cache_fetch i co w = (r, w')"
  shows "owing d w'" "forest_keeps w w'" "coherent hist (f_caches w' ! i) = coherent hist (f_caches w ! i)"
    "c_store (f_caches w' ! i) = c_store (f_caches w ! i)" "c_nodes (f_caches w' ! i) = c_nodes (f_caches w ! i)"
    "c_key (f_caches w' ! i) = c_key (f_caches w ! i)" "c_size (f_caches w' ! i) = c_size (f_caches w ! i)"
    "serves hist (f_caches w ! i) \<Longrightarrow> r = Inr (between (c_key (f_caches w ! i)) (co_From co) (co_To co) (hist (co_Node co)))"
proof -
  let ?f = "\<lambda>c :: 'a cache. c\<lparr>c_recomposes := c_recomposes c + 1\<rparr>"
  have w': "w' = upd_cache i ?f w" "r = (case c_src (f_caches w ! i) of None \<Rightarrow> Inr [] | Some src \<Rightarrow> src co)"
    using assms(2,3) by (auto simp: cache_fetch_def Let_def)
  have same: "run_ids (?f c) = run_ids c" "cache_wf (?f c) = cache_wf c" "resident_bytes (?f c) = resident_bytes c" "coherent hist (?f c) = coherent hist c" for c
    by (simp_all add: run_ids_def cache_wf_def resident_bytes_def coherent_def cong: if_cong)
  show "owing d w'" using owing_upd_cache [where f = ?f and e = 0, OF assms(1,2)] same owing_wf [OF assms(1,2)] w' by simp
  show "forest_keeps w w'" unfolding w'(1) by (rule upd_cache_keeps) (auto simp: keeps_def)
  show "coherent hist (f_caches w' ! i) = coherent hist (f_caches w ! i)" "c_store (f_caches w' ! i) = c_store (f_caches w ! i)"
    "c_nodes (f_caches w' ! i) = c_nodes (f_caches w ! i)"
    "c_key (f_caches w' ! i) = c_key (f_caches w ! i)" "c_size (f_caches w' ! i) = c_size (f_caches w ! i)"
    using assms(2) w'(1) same(4) by simp_all
  show "serves hist (f_caches w ! i) \<Longrightarrow> r = Inr (between (c_key (f_caches w ! i)) (co_From co) (co_To co) (hist (co_Node co)))"
    using w'(2) by (auto simp: serves_def)
qed

lemma units_bytes_nonneg: "cache_wf c \<Longrightarrow> 0 \<le> units_bytes c us"
  by (auto simp: units_bytes_def cache_wf_def intro!: sum_list_nonneg)

lemma keeps_node: "keeps c c' \<Longrightarrow> map_of (c_nodes c) name = Some n \<Longrightarrow> \<exists>n'. map_of (c_nodes c') name = Some n'"
  unfolding keeps_def by blast

lemma new_runs_trans:
  assumes "new_runs_to a c d" "new_runs_to b d e" "a \<le> b" "keeps d e"
  shows "new_runs_to b c e"
  using assms unfolding new_runs_to_def keeps_def by (metis le_trans not_le)

lemma materialize_loop_ok:
  "metered w \<Longrightarrow> i < length (f_caches w) \<Longrightarrow> map_of (c_nodes (f_caches w ! i)) name = Some n \<Longrightarrow> to + runChunk < u64_lim \<Longrightarrow>
   \<exists>us e w'. materialize_loop i name lo to acc w = Some ((acc @ us, e), w') \<and> metered w' \<and> forest_keeps w w' \<and>
     new_runs_to to (f_caches w ! i) (f_caches w' ! i) \<and> only_node name (f_caches w ! i) (f_caches w' ! i) \<and>
     (serves hist (f_caches w ! i) \<and> coherent hist (f_caches w ! i) \<longrightarrow>
        e = None \<and> us = between (c_key (f_caches w ! i)) lo to (hist name) \<and> coherent hist (f_caches w' ! i))"
proof (induction "to - lo" arbitrary: lo acc w n rule: less_induct)
  case less
  show ?case
  proof (cases "lo < to")
    case False
    then show ?thesis using less.prems(1)
      by (subst materialize_loop.simps) (simp add: new_runs_to_def between_empty)
  next
    case True
    define hi where "hi = min to (lo + 64)"
    have hi: "(if u64_add lo runChunk > to then to else u64_add lo runChunk) = hi" "lo < hi" "hi \<le> to"
      using True less.prems(4) by (auto simp: hi_def runChunk_def u64_simps)
    let ?co = "\<lparr>co_Node = name, co_From = lo, co_To = hi\<rparr>"
    obtain r w1 where f: "cache_fetch i ?co w = (r, w1)" by fastforce
    note fk = fetch_keeps [OF less.prems(1,2) f]
    show ?thesis
    proof (cases r)
      case (Inl e)
      have "materialize_loop i name lo to acc w = Some ((acc @ [], Some e), w1)"
        using True f Inl hi(1) by (subst materialize_loop.simps) (simp add: Let_def)
      moreover have "\<not> serves hist (f_caches w ! i)" using fk(8) Inl by auto
      ultimately show ?thesis using fk(1,2,4,5) by (auto simp: new_runs_to_def only_node_def)
    next
      case (Inr units)
      obtain ep w2 where b: "bump w1 = (ep, w2)" by fastforce
      have w2: "metered w2" "f_caches w2 = f_caches w1" using owing_bump [where w = w1] b fk(1) by auto
      have i2: "i < length (f_caches w2)" using less.prems(2) forest_keeps_length [OF fk(2)] w2(2) by simp
      define run where "run = \<lparr>r_coord = ?co, r_units = units, r_bytes = units_bytes (f_caches w2 ! i) units, r_epoch = ep,
        r_pinned = False, r_resident = True\<rparr>"
      have n2: "map_of (c_nodes (f_caches w2 ! i)) name = Some n" using less.prems(3) fk(5) w2(2) by simp
      have pos: "r_resident run" "0 \<le> r_bytes run" using units_bytes_nonneg [OF owing_wf [OF w2(1) i2]] by (auto simp: run_def)
      obtain w3 where p: "cache_charge (r_bytes run) (upd_cache i (add_run name run) w2) = Some w3" "metered w3" "forest_keeps w2 w3"
        "length (c_store (f_caches w3 ! i)) = Suc (length (c_store (f_caches w2 ! i)))"
        "r_coord (c_store (f_caches w3 ! i) ! length (c_store (f_caches w2 ! i))) = r_coord run" "only_node name (f_caches w2 ! i) (f_caches w3 ! i)"
        "coherent hist (f_caches w2 ! i) \<Longrightarrow> co_Node (r_coord run) = name \<Longrightarrow>
          r_units run = between (c_key (f_caches w2 ! i)) (co_From (r_coord run)) (co_To (r_coord run)) (hist name) \<Longrightarrow> coherent hist (f_caches w3 ! i)"
        using push_run [OF w2(1) i2 n2 pos] by metis
      have k13: "forest_keeps w w3" using fk(2) forest_keeps_caches [OF w2(2)] p(3) forest_keeps_trans by blast
      have i3: "i < length (f_caches w3)" using less.prems(2) forest_keeps_length [OF k13] by simp
      note kc = forest_keeps_nth [OF k13 less.prems(2)]
      obtain n3 where n3: "map_of (c_nodes (f_caches w3 ! i)) name = Some n3" using keeps_node [OF kc less.prems(3)] by blast
      have new: "new_runs_to hi (f_caches w ! i) (f_caches w3 ! i)"
        using p(4,5) w2(2) fk(4) by (auto simp: new_runs_to_def run_def less_Suc_eq)
      have eq: "materialize_loop i name lo to acc w = materialize_loop i name hi to (acc @ units) w3"
        using True f Inr hi(1) b p(1) by (subst materialize_loop.simps) (simp add: Let_def run_def)
      have lt: "to - hi < to - lo" using hi(2,3) by simp
      obtain us e w' where IH: "materialize_loop i name hi to (acc @ units) w3 = Some (((acc @ units) @ us, e), w')" "metered w'" "forest_keeps w3 w'"
        "new_runs_to to (f_caches w3 ! i) (f_caches w' ! i)" "only_node name (f_caches w3 ! i) (f_caches w' ! i)"
        "serves hist (f_caches w3 ! i) \<and> coherent hist (f_caches w3 ! i) \<longrightarrow>
          e = None \<and> us = between (c_key (f_caches w3 ! i)) hi to (hist name) \<and> coherent hist (f_caches w' ! i)"
        using less.hyps [OF lt p(2) i3 n3 less.prems(4), of "acc @ units"] by blast
      have "new_runs_to to (f_caches w ! i) (f_caches w' ! i)"
        by (rule new_runs_trans [OF new IH(4) hi(3) forest_keeps_nth [OF IH(3) i3]])
      moreover have "only_node name (f_caches w ! i) (f_caches w' ! i)" using p(6) IH(5) fk(5) w2(2) by (simp add: only_node_def)
      moreover have "e = None \<and> units @ us = between (c_key (f_caches w ! i)) lo to (hist name) \<and> coherent hist (f_caches w' ! i)"
        if s: "serves hist (f_caches w ! i)" "coherent hist (f_caches w ! i)"
      proof -
        have u: "units = between (c_key (f_caches w ! i)) lo hi (hist name)" using fk(8) [OF s(1)] Inr by simp
        have "coherent hist (f_caches w3 ! i)" using p(7) s(2) fk(3,6) w2(2) u by (simp add: run_def)
        moreover have "serves hist (f_caches w3 ! i)" using serves_keeps [OF kc] s(1) by blast
        moreover have "c_key (f_caches w3 ! i) = c_key (f_caches w ! i)" using kc by (simp add: keeps_def)
        ultimately show ?thesis using IH(6) u between_append [of "c_key (f_caches w ! i)" "hist name" lo hi to] hi(2,3) s(1)
          by (simp add: serves_def)
      qed
      ultimately show ?thesis unfolding eq using IH(1-3) k13 forest_keeps_trans
        by (intro exI [of _ "units @ us"] exI [of _ e] exI [of _ w']) auto
    qed
  qed
qed

section \<open>One run\<close>

lemma coherent_epoch:
  "coherent hist (upd_run j (\<lambda>r. r\<lparr>r_epoch := e\<rparr>) c) \<longleftrightarrow> coherent hist c" if "j < length (c_store c)"
proof -
  have "coherent hist (upd_run j (\<lambda>r. r\<lparr>r_epoch := e\<rparr>) c)" if "coherent hist c" "j < length (c_store c)" for c e
    using upd_run_coherent [OF that(1), of "\<lambda>r. r\<lparr>r_epoch := e\<rparr>" j] that unfolding coherent_def by simp
  from this [of c e] this [of "upd_run j (\<lambda>r. r\<lparr>r_epoch := e\<rparr>) c" "r_epoch (c_store c ! j)"] that show ?thesis
    by (auto simp: upd_run_def)
qed

text \<open>Stamping a run changes neither bytes nor contents.\<close>

lemma stamp_run:
  assumes "metered w" "i < length (f_caches w)" "j \<in> set (run_ids (f_caches w ! i))"
  shows "metered (upd_cache i (upd_run j (\<lambda>r. r\<lparr>r_epoch := e\<rparr>)) w)" "forest_keeps w (upd_cache i (upd_run j (\<lambda>r. r\<lparr>r_epoch := e\<rparr>)) w)"
    "coherent hist (f_caches (upd_cache i (upd_run j (\<lambda>r. r\<lparr>r_epoch := e\<rparr>)) w) ! i) = coherent hist (f_caches w ! i)"
    "length (c_store (f_caches (upd_cache i (upd_run j (\<lambda>r. r\<lparr>r_epoch := e\<rparr>)) w) ! i)) = length (c_store (f_caches w ! i))"
proof -
  have wf: "cache_wf (f_caches w ! i)" by (rule owing_wf [OF assms(1,2)])
  have j: "j < length (c_store (f_caches w ! i))" by (rule run_ids_bound [OF wf assms(3)])
  then have nn: "0 \<le> r_bytes (c_store (f_caches w ! i) ! j)" using wf by (simp add: cache_wf_def)
  note rr = replace_run [where f = "\<lambda>r. r\<lparr>r_epoch := e\<rparr>", OF assms]
  show "metered (upd_cache i (upd_run j (\<lambda>r. r\<lparr>r_epoch := e\<rparr>)) w)" "forest_keeps w (upd_cache i (upd_run j (\<lambda>r. r\<lparr>r_epoch := e\<rparr>)) w)"
    using rr nn by (simp_all add: run_bytes_def cong: if_cong)
  show "coherent hist (f_caches (upd_cache i (upd_run j (\<lambda>r. r\<lparr>r_epoch := e\<rparr>)) w) ! i) = coherent hist (f_caches w ! i)"
    "length (c_store (f_caches (upd_cache i (upd_run j (\<lambda>r. r\<lparr>r_epoch := e\<rparr>)) w) ! i)) = length (c_store (f_caches w ! i))"
    using assms(2) coherent_epoch [OF j] by (simp_all add: upd_run_def)
qed

lemma keeps_run_id: "keeps c c' \<Longrightarrow> length (c_store c') = length (c_store c) \<Longrightarrow> c_nodes c' = c_nodes c \<Longrightarrow> run_ids c' = run_ids c"
  by (simp add: run_ids_def)

text \<open>Refilling a hollow run.\<close>

lemma refill_run:
  assumes m: "metered w" and i: "i < length (f_caches w)" and j: "j \<in> set (run_ids (f_caches w ! i))"
    and nr: "\<not> r_resident (c_store (f_caches w ! i) ! j)"
  obtains r w' where "materializeRunLocked i j w = Some (r, w')" "metered w'" "forest_keeps w w'"
    "length (c_store (f_caches w' ! i)) = length (c_store (f_caches w ! i))" "c_nodes (f_caches w' ! i) = c_nodes (f_caches w ! i)"
    "\<And>hist. serves hist (f_caches w ! i) \<Longrightarrow> coherent hist (f_caches w ! i) \<Longrightarrow> coherent hist (f_caches w' ! i) \<and>
      r = Inr (between (c_key (f_caches w ! i)) (co_From (r_coord (c_store (f_caches w ! i) ! j))) (co_To (r_coord (c_store (f_caches w ! i) ! j)))
        (hist (co_Node (r_coord (c_store (f_caches w ! i) ! j)))))"
proof -
  let ?r = "c_store (f_caches w ! i) ! j"
  obtain r w1 where f: "cache_fetch i (r_coord ?r) w = (r, w1)" by fastforce
  note fk = fetch_keeps [OF m i f]
  show thesis
  proof (cases r)
    case (Inl e)
    have "\<not> serves hist (f_caches w ! i)" for hist using fk(8) [of hist] Inl by auto
    then show thesis using that [of "Inl e" w1] f Inl fk by (auto simp: materializeRunLocked_def)
  next
    case (Inr units)
    define by' where "by' = units_bytes (f_caches w1 ! i) units"
    let ?f = "\<lambda>r. r\<lparr>r_units := units, r_bytes := by', r_resident := True\<rparr>" and ?w2 = "upd_cache i (upd_run j (\<lambda>r. r\<lparr>r_units := units, r_bytes := by', r_resident := True\<rparr>)) w1"
    have i1: "i < length (f_caches w1)" using i forest_keeps_length [OF fk(2)] by simp
    have j1: "j \<in> set (run_ids (f_caches w1 ! i))" using j fk(5) by (simp add: run_ids_def)
    have nn: "0 \<le> by'" using units_bytes_nonneg [OF owing_wf [OF fk(1) i1]] by (simp add: by'_def)
    have o: "owing by' ?w2" "forest_keeps w1 ?w2"
      using replace_run [where f = ?f, OF fk(1) i1 j1] nn nr fk(4) by (simp_all add: run_bytes_def)
    obtain w3 where w3: "cache_charge by' ?w2 = Some w3" "metered w3" "list_all2 hollowed (f_caches ?w2) (f_caches w3)"
      using cache_charge_settles [OF o(1)] by blast
    have i2: "i < length (f_caches ?w2)" using i1 by simp
    have h: "hollowed (upd_run j ?f (f_caches w1 ! i)) (f_caches w3 ! i)" using list_all2_nthD [OF w3(3) i2] i1 by simp
    have k: "forest_keeps w w3" using fk(2) o(2) charge_keeps [OF w3(3)] forest_keeps_trans by blast
    have "materializeRunLocked i j w = Some (Inr units, w3)"
      using f Inr w3(1) by (simp add: materializeRunLocked_def by'_def [symmetric] Let_def)
    moreover have "length (c_store (f_caches w3 ! i)) = length (c_store (f_caches w ! i))" "c_nodes (f_caches w3 ! i) = c_nodes (f_caches w ! i)"
      using hollowed_fields [OF h] fk(4,5) by (simp_all add: upd_run_def)
    moreover have "coherent hist (f_caches w3 ! i) \<and> Inr units = (Inr (between (c_key (f_caches w ! i)) (co_From (r_coord ?r)) (co_To (r_coord ?r))
        (hist (co_Node (r_coord ?r)))) :: err + 'a list)"
      if s: "serves hist (f_caches w ! i)" "coherent hist (f_caches w ! i)" for hist
    proof -
      have u: "units = between (c_key (f_caches w ! i)) (co_From (r_coord ?r)) (co_To (r_coord ?r)) (hist (co_Node (r_coord ?r)))"
        using fk(8) [OF s(1)] Inr by simp
      have "coherent hist (f_caches w1 ! i)" using fk(3) s(2) by blast
      then have "coherent hist (upd_run j ?f (f_caches w1 ! i))" by (rule upd_run_coherent) (use u fk(4,6) in simp_all)
      then have "coherent hist (f_caches ?w2 ! i)" using i1 by simp
      from charge_coherent [OF w3(3) o(1) i2 this] u show ?thesis by simp
    qed
    ultimately show thesis using that w3(2) k by blast
  qed
qed

lemma range_run_ok:
  assumes m: "metered w" and i: "i < length (f_caches w)" and j: "j \<in> set (run_ids (f_caches w ! i))"
  obtains us e pos' w' where "range_run i j pos to w = Some ((us, e), pos', w')" "metered w'" "forest_keeps w w'"
    "length (c_store (f_caches w' ! i)) = length (c_store (f_caches w ! i))" "c_nodes (f_caches w' ! i) = c_nodes (f_caches w ! i)"
    "\<And>hist. serves hist (f_caches w ! i) \<Longrightarrow> coherent hist (f_caches w ! i) \<Longrightarrow> (r_resident (c_store (f_caches w ! i) ! j) \<Longrightarrow> pos \<le> to) \<Longrightarrow>
      coherent hist (f_caches w' ! i) \<and> e = None \<and> pos' = max pos (co_To (r_coord (c_store (f_caches w ! i) ! j))) \<and>
      us = between (c_key (f_caches w ! i)) (max pos (co_From (r_coord (c_store (f_caches w ! i) ! j))))
        (min to (co_To (r_coord (c_store (f_caches w ! i) ! j)))) (hist (co_Node (r_coord (c_store (f_caches w ! i) ! j))))"
proof -
  let ?c = "f_caches w ! i" and ?r = "c_store (f_caches w ! i) ! j"
  show thesis
  proof (cases "r_resident ?r")
    case False
    obtain r w1 where rf: "materializeRunLocked i j w = Some (r, w1)" "metered w1" "forest_keeps w w1"
      "length (c_store (f_caches w1 ! i)) = length (c_store ?c)" "c_nodes (f_caches w1 ! i) = c_nodes ?c"
      "\<And>hist. serves hist ?c \<Longrightarrow> coherent hist ?c \<Longrightarrow> coherent hist (f_caches w1 ! i) \<and>
        r = Inr (between (c_key ?c) (co_From (r_coord ?r)) (co_To (r_coord ?r)) (hist (co_Node (r_coord ?r))))"
      using refill_run [OF m i j False] by metis
    show thesis
    proof (cases r)
      case (Inl e)
      have "\<not> (serves hist ?c \<and> coherent hist ?c)" for hist using rf(6) [of hist] Inl by auto
      then show thesis using that [of "[]" "Some e" pos w1] rf(1-5) False Inl by (auto simp: range_run_def Let_def)
    next
      case (Inr units)
      obtain ep w2 where b: "bump w1 = (ep, w2)" by fastforce
      have w2: "metered w2" "f_caches w2 = f_caches w1" using owing_bump [where w = w1] b rf(2) by auto
      have i2: "i < length (f_caches w2)" using i forest_keeps_length [OF rf(3)] w2(2) by simp
      have j2: "j \<in> set (run_ids (f_caches w2 ! i))" using j rf(5) w2(2) by (simp add: run_ids_def)
      note st = stamp_run [OF w2(1) i2 j2, where e = ep]
      have k: "forest_keeps w (upd_cache i (upd_run j (\<lambda>r. r\<lparr>r_epoch := ep\<rparr>)) w2)"
        using rf(3) forest_keeps_caches [OF w2(2)] st(2) forest_keeps_trans by blast
      have key: "c_key (f_caches w2 ! i) = c_key ?c" using forest_keeps_nth [OF rf(3) i] w2(2) by (simp add: keeps_def)
      have "range_run i j pos to w = Some ((sliceUnits (c_key ?c) units pos to, None), max pos (co_To (r_coord ?r)),
          upd_cache i (upd_run j (\<lambda>r. r\<lparr>r_epoch := ep\<rparr>)) w2)"
        using False rf(1) Inr b key by (simp add: range_run_def Let_def)
      moreover have "sliceUnits (c_key ?c) units pos to = between (c_key ?c) (max pos (co_From (r_coord ?r))) (min to (co_To (r_coord ?r)))
          (hist (co_Node (r_coord ?r)))" if "serves hist ?c" "coherent hist ?c" for hist
        using rf(6) [OF that] Inr that(1) sliceUnits_between [OF between_sorted, of "c_key ?c"] by (simp add: serves_def between_between)
      moreover have "c_nodes (f_caches (upd_cache i (upd_run j (\<lambda>r. r\<lparr>r_epoch := ep\<rparr>)) w2) ! i) = c_nodes ?c"
        using i2 rf(5) w2(2) by (simp add: upd_run_def)
      ultimately show thesis using that [OF _ st(1) k] st(3,4) rf(4,6) w2(2) by auto
    qed
  next
    case True
    note st = stamp_run [OF m i j, where e = "EpochNow (f_budget w)"]
    let ?w = "upd_cache i (upd_run j (\<lambda>r. r\<lparr>r_epoch := EpochNow (f_budget w)\<rparr>)) w"
    have mem: "?r \<in> set (c_store ?c)" using run_ids_bound [OF owing_wf [OF m i] j] by simp
    show thesis
    proof (cases "slice (c_key ?c) (r_units ?r) pos to")
      case (Inl e)
      have "\<not> (serves hist ?c \<and> coherent hist ?c \<and> pos \<le> to)" for hist
        using Inl slice_between [OF between_sorted, of "c_key ?c" _ pos to] mem True unfolding serves_def coherent_def by force
      then show thesis using that [of "[]" "Some e" pos w] Inl True m by (simp add: range_run_def Let_def)
    next
      case (Inr us)
      have "range_run i j pos to w = Some ((us, None), max pos (co_To (r_coord ?r)), ?w)" using Inr True by (simp add: range_run_def Let_def)
      moreover have "us = between (c_key ?c) (max pos (co_From (r_coord ?r))) (min to (co_To (r_coord ?r))) (hist (co_Node (r_coord ?r)))"
        if "serves hist ?c" "coherent hist ?c" "pos \<le> to" for hist
      proof -
        have "r_units ?r = between (c_key ?c) (co_From (r_coord ?r)) (co_To (r_coord ?r)) (hist (co_Node (r_coord ?r)))"
          using that(2) mem True unfolding coherent_def by blast
        then show ?thesis using Inr slice_between [OF between_sorted that(3), of "c_key ?c"] that(1) by (simp add: serves_def between_between)
      qed
      moreover have "c_nodes (f_caches ?w ! i) = c_nodes ?c" using i by (simp add: upd_run_def)
      ultimately show thesis using that [OF _ st(1,2)] st(3,4) True by auto
    qed
  qed
qed

section \<open>The loop over a node's runs\<close>

text \<open>
  The runs a read starts from, by their coordinates: each from its start to its end, no two overlapping.
\<close>

definition disjoint_coords :: "nat set \<Rightarrow> (nat \<Rightarrow> coord) \<Rightarrow> bool" where
  "disjoint_coords S crd \<longleftrightarrow> (\<forall>q \<in> S. co_From (crd q) \<le> co_To (crd q)) \<and>
     (\<forall>p \<in> S. \<forall>q \<in> S. p \<noteq> q \<longrightarrow> co_To (crd p) \<le> co_From (crd q) \<or> co_To (crd q) \<le> co_From (crd p))"

text \<open>
  What the loop maintains: the array it walks holds runs it started from and runs it has made below its
  position; the position is within the request or at the end of a run that reaches beyond it.
\<close>

definition walking :: "nat set \<Rightarrow> (nat \<Rightarrow> coord) \<Rightarrow> nat list \<Rightarrow> nat \<Rightarrow> nat \<Rightarrow> 'u cache \<Rightarrow> bool" where
  "walking S crd arr pos to c \<longleftrightarrow> disjoint_coords S crd \<and> (\<forall>q \<in> S. q < length (c_store c) \<and> r_coord (c_store c ! q) = crd q) \<and>
     (\<forall>j \<in> set arr. j \<in> S \<or> co_To (r_coord (c_store c ! j)) \<le> pos) \<and>
     (pos \<le> to \<or> (\<exists>q \<in> S. co_To (crd q) = pos \<and> co_From (crd q) < to))"

lemma walking_within:
  assumes "walking S crd arr pos to c" "j \<in> set arr" "pos < co_To (r_coord (c_store c ! j))" "co_From (r_coord (c_store c ! j)) < to"
  shows "pos \<le> to" "j \<in> S" "r_coord (c_store c ! j) = crd j" "co_From (crd j) \<le> co_To (crd j)"
proof -
  show j: "j \<in> S" "r_coord (c_store c ! j) = crd j" using assms by (auto simp: walking_def)
  then show "co_From (crd j) \<le> co_To (crd j)" using assms(1) by (auto simp: walking_def disjoint_coords_def)
  show "pos \<le> to"
  proof (rule ccontr)
    assume "\<not> pos \<le> to"
    then obtain q where q: "q \<in> S" "co_To (crd q) = pos" "co_From (crd q) < to" using assms(1) by (auto simp: walking_def)
    have "co_To (crd q) \<le> co_From (crd j) \<or> co_To (crd j) \<le> co_From (crd q)"
      using assms(1,3) q j by (auto simp: walking_def disjoint_coords_def)
    then show False using q assms(3,4) j(2) \<open>\<not> pos \<le> to\<close> by auto
  qed
qed

lemma walking_step:
  assumes w: "walking S crd arr pos to c" and j: "j \<in> set arr" "pos < co_To (r_coord (c_store c ! j))" "co_From (r_coord (c_store c ! j)) < to"
    and new: "new_runs_to (co_From (r_coord (c_store c ! j))) c c'" and k: "keeps c c'"
    and arr: "set arr' \<subseteq> set arr \<union> {length (c_store c)..}" "\<forall>x \<in> set arr'. x < length (c_store c')" "\<forall>x \<in> set arr. x < length (c_store c)"
  shows "walking S crd arr' (max pos (co_To (r_coord (c_store c ! j)))) to c'"
proof -
  note in' = walking_within [OF w j]
  have pos': "max pos (co_To (r_coord (c_store c ! j))) = co_To (crd j)" using j(2) in'(3) by simp
  have crd': "x < length (c_store c) \<Longrightarrow> r_coord (c_store c' ! x) = r_coord (c_store c ! x)" for x using k by (simp add: keeps_def)
  have len: "length (c_store c) \<le> length (c_store c')" using k by (simp add: keeps_def)
  have "x \<in> S \<or> co_To (r_coord (c_store c' ! x)) \<le> co_To (crd j)" if x: "x \<in> set arr'" for x
  proof (cases "x < length (c_store c)")
    case True
    then have "x \<in> set arr" using x arr(1) by auto
    then show ?thesis using w True crd' [OF True] j(2) in'(3) by (auto simp: walking_def)
  next
    case False
    then have "co_To (r_coord (c_store c' ! x)) \<le> co_From (crd j)" using new arr(2) x in'(3) by (auto simp: new_runs_to_def)
    then show ?thesis using in'(4) by simp
  qed
  moreover have "\<exists>q \<in> S. co_To (crd q) = co_To (crd j) \<and> co_From (crd q) < to" using in'(2,3) j(3) by auto
  ultimately show ?thesis unfolding pos' using w crd' len by (fastforce simp: walking_def)
qed

lemma arrays_after:
  assumes "metered w" "i < length (f_caches w)" "metered w'" "forest_keeps w w'" "map_of (c_nodes (f_caches w ! i)) name = Some n" "g < length (n_arrays n)"
  obtains n' where "map_of (c_nodes (f_caches w' ! i)) name = Some n'" "g < length (n_arrays n')" "length (n_arrays n ! g) \<le> length (n_arrays n' ! g)"
    "set (n_arrays n ! g) \<subseteq> set (n_arrays n' ! g)" "set (n_arrays n' ! g) \<subseteq> set (n_arrays n ! g) \<union> {length (c_store (f_caches w ! i))..}"
    "\<forall>x \<in> set (n_arrays n' ! g). x < length (c_store (f_caches w' ! i))" "\<forall>x \<in> set (n_arrays n ! g). x < length (c_store (f_caches w ! i))"
proof -
  have i': "i < length (f_caches w')" using assms(2,4) forest_keeps_length by fastforce
  obtain n' where n': "map_of (c_nodes (f_caches w' ! i)) name = Some n'" "arrays_grow (length (c_store (f_caches w ! i))) (n_arrays n) (n_arrays n')"
    using forest_keeps_nth [OF assms(4,2)] assms(5) unfolding keeps_def by blast
  have bnd: "x < length (c_store (f_caches v ! i))"
    if "metered v" "i < length (f_caches v)" "map_of (c_nodes (f_caches v ! i)) name = Some m" "g < length (n_arrays m)" "x \<in> set (n_arrays m ! g)" for v m x
    using run_ids_bound [OF owing_wf array_run [OF owing_wf map_of_SomeD [OF that(3)]]] that by (meson nth_mem)
  have g': "g < length (n_arrays n')" using n'(2) assms(6) by (simp add: arrays_grow_def)
  show thesis using that [OF n'(1) g'] n'(2) assms(6) bnd [OF assms(1,2,5,6)] bnd [OF assms(3) i' n'(1) g'] unfolding arrays_grow_def by blast
qed

lemma run_gap:
  assumes "sorted (map key us)" "co_From rc \<le> co_To rc" "co_From rc < to" "pos < co_To rc" "pos \<le> to"
  shows "(if co_From rc > pos then between key pos (co_From rc) us else []) @ between key (max pos (co_From rc)) (min to (co_To rc)) us @
      between key (max pos (co_To rc)) to us = between key pos to us"
proof -
  have "between key (max pos (co_From rc)) (min to (co_To rc)) us @ between key (max pos (co_To rc)) to us = between key (max pos (co_From rc)) to us"
  proof (cases "co_To rc \<le> to")
    case True
    have "max pos (co_From rc) \<le> co_To rc" "min to (co_To rc) = co_To rc" "max pos (co_To rc) = co_To rc" using True assms(2,4) by auto
    then show ?thesis using between_append [OF assms(1), of "max pos (co_From rc)" "co_To rc" to] True by (simp only:)
  next
    case False
    then show ?thesis using assms(4) by (simp add: max_def min_def between_empty)
  qed
  then show ?thesis using between_append [OF assms(1), of pos "co_From rc" to] assms(3) by (auto simp: max_def)
qed

lemma range_runs_ok:
  "metered w \<Longrightarrow> i < length (f_caches w) \<Longrightarrow> map_of (c_nodes (f_caches w ! i)) (co_Node co) = Some n \<Longrightarrow> g < length (n_arrays n) \<Longrightarrow>
   \<forall>t \<in> set ts. t < length (n_arrays n ! g) \<Longrightarrow> co_To co + runChunk < u64_lim \<Longrightarrow>
   \<exists>res w'. range_runs i co g ts pos out w = Some (res, w') \<and> metered w' \<and> forest_keeps w w' \<and>
     only_node (co_Node co) (f_caches w ! i) (f_caches w' ! i) \<and>
     (serves hist (f_caches w ! i) \<and> coherent hist (f_caches w ! i) \<and> walking S crd (n_arrays n ! g) pos (co_To co) (f_caches w ! i) \<longrightarrow>
        res = (out @ between (c_key (f_caches w ! i)) pos (co_To co) (hist (co_Node co)), None) \<and> coherent hist (f_caches w' ! i))"
proof (induction ts arbitrary: pos out w n)
  case Nil
  show ?case
  proof (cases "pos < co_To co")
    case False
    then show ?thesis using Nil(1) by (auto simp: between_empty)
  next
    case True
    obtain us e w' where m: "materialize_loop i (co_Node co) pos (co_To co) [] w = Some (([] @ us, e), w')" "metered w'" "forest_keeps w w'" "only_node (co_Node co) (f_caches w ! i) (f_caches w' ! i)"
      "serves hist (f_caches w ! i) \<and> coherent hist (f_caches w ! i) \<longrightarrow>
        e = None \<and> us = between (c_key (f_caches w ! i)) pos (co_To co) (hist (co_Node co)) \<and> coherent hist (f_caches w' ! i)"
      using materialize_loop_ok [OF Nil(1-3,6), where hist = hist and lo = pos and acc = "[]"] by blast
    then show ?thesis using True by (cases e) (auto simp: materializeLocked_def)
  qed
next
  case (Cons t ts)
  let ?c = "f_caches w ! i"
  define j where "j = n_arrays n ! g ! t"
  define rc where "rc = r_coord (c_store ?c ! j)"
  have wf: "cache_wf ?c" by (rule owing_wf [OF Cons.prems(1,2)])
  have ja: "j \<in> set (n_arrays n ! g)" using Cons.prems(5) by (simp add: j_def)
  have jr: "j \<in> set (run_ids ?c)" using array_run [OF wf map_of_SomeD [OF Cons.prems(3)] nth_mem [OF Cons.prems(4)] ja] .
  have node: "node_of ?c (co_Node co) = n" by (rule node_of_some [OF Cons.prems(3)])
  show ?case
  proof (cases "co_To rc \<le> pos \<or> co_From rc \<ge> co_To co")
    case True
    then have "range_runs i co g (t # ts) pos out w = range_runs i co g ts pos out w" using node by (simp add: Let_def j_def rc_def)
    then show ?thesis using Cons.IH [OF Cons.prems(1-4) _ Cons.prems(6)] Cons.prems(5) by simp
  next
    case False
    have lim: "co_From rc + runChunk < u64_lim" using False Cons.prems(6) by simp
    obtain us e w1 where gap: "(if co_From rc > pos then materializeLocked i \<lparr>co_Node = co_Node co, co_From = pos, co_To = co_From rc\<rparr> w
          else Some (([], None), w)) = Some ((us, e), w1)" "metered w1" "forest_keeps w w1" "new_runs_to (co_From rc) ?c (f_caches w1 ! i)" "only_node (co_Node co) ?c (f_caches w1 ! i)"
        "serves hist ?c \<and> coherent hist ?c \<longrightarrow> e = None \<and> us = (if co_From rc > pos then between (c_key ?c) pos (co_From rc) (hist (co_Node co)) else []) \<and>
           coherent hist (f_caches w1 ! i)"
    proof (cases "co_From rc > pos")
      case True
      then show thesis using that materialize_loop_ok [OF Cons.prems(1-3) lim, where hist = hist and lo = pos and acc = "[]"] by (auto simp: materializeLocked_def)
    next
      case False
      then show thesis using that [of "[]" None w] Cons.prems(1) by (simp add: new_runs_to_def)
    qed
    note step = range_runs.simps(2) [of i co g t ts pos out w, unfolded Let_def node, folded j_def, folded rc_def, unfolded if_not_P [OF False] gap(1)]
    have i1: "i < length (f_caches w1)" using Cons.prems(2) forest_keeps_length [OF gap(3)] by simp
    note kc = forest_keeps_nth [OF gap(3) Cons.prems(2)]
    have rc1: "r_coord (c_store (f_caches w1 ! i) ! j) = rc" using kc run_ids_bound [OF wf jr] by (simp add: keeps_def rc_def)
    show ?thesis
    proof (cases e)
      case (Some err)
      then have "range_runs i co g (t # ts) pos out w = Some ((out, Some err), w1)"
        unfolding step by simp
      then show ?thesis using gap(2,3,5,6) Some by auto
    next
      case None
      obtain n1 where n1: "map_of (c_nodes (f_caches w1 ! i)) (co_Node co) = Some n1" "g < length (n_arrays n1)"
        "length (n_arrays n ! g) \<le> length (n_arrays n1 ! g)" "set (n_arrays n ! g) \<subseteq> set (n_arrays n1 ! g)"
        "set (n_arrays n1 ! g) \<subseteq> set (n_arrays n ! g) \<union> {length (c_store ?c)..}"
        "\<forall>x \<in> set (n_arrays n1 ! g). x < length (c_store (f_caches w1 ! i))" "\<forall>x \<in> set (n_arrays n ! g). x < length (c_store ?c)"
        by (rule arrays_after [OF Cons.prems(1,2) gap(2,3) Cons.prems(3,4)])
      have jr1: "j \<in> set (run_ids (f_caches w1 ! i))"
        using array_run [OF owing_wf [OF gap(2) i1] map_of_SomeD [OF n1(1)] nth_mem [OF n1(2)]] ja n1(4) by blast
      obtain vs e2 pos' w2 where run: "range_run i j pos (co_To co) w1 = Some ((vs, e2), pos', w2)" "metered w2" "forest_keeps w1 w2"
        "length (c_store (f_caches w2 ! i)) = length (c_store (f_caches w1 ! i))" "c_nodes (f_caches w2 ! i) = c_nodes (f_caches w1 ! i)"
        "serves hist (f_caches w1 ! i) \<Longrightarrow> coherent hist (f_caches w1 ! i) \<Longrightarrow> (r_resident (c_store (f_caches w1 ! i) ! j) \<Longrightarrow> pos \<le> co_To co) \<Longrightarrow>
          coherent hist (f_caches w2 ! i) \<and> e2 = None \<and> pos' = max pos (co_To rc) \<and>
          vs = between (c_key (f_caches w1 ! i)) (max pos (co_From rc)) (min (co_To co) (co_To rc)) (hist (co_Node rc))"
        using range_run_ok [OF gap(2) i1 jr1, of pos "co_To co"] unfolding rc1 by metis
      have k2: "forest_keeps w w2" using gap(3) run(3) forest_keeps_trans by blast
      have i2: "i < length (f_caches w2)" using Cons.prems(2) forest_keeps_length [OF k2] by simp
      have on2: "only_node (co_Node co) ?c (f_caches w2 ! i)" using gap(5) run(5) by (simp add: only_node_def)
      show ?thesis
      proof (cases e2)
        case (Some err)
        then have "range_runs i co g (t # ts) pos out w = Some ((out @ us, Some err), w2)"
          unfolding step using None run(1) by simp
        moreover have "pos \<le> co_To co" if "walking S crd (n_arrays n ! g) pos (co_To co) ?c"
          using walking_within(1) [OF that ja] False by (simp add: rc_def)
        ultimately show ?thesis using run(2,6) k2 on2 Some gap(6) None serves_keeps [OF kc] by auto
      next
        case None2: None
        obtain n2 where n2: "map_of (c_nodes (f_caches w2 ! i)) (co_Node co) = Some n2" "g < length (n_arrays n2)"
          "length (n_arrays n1 ! g) \<le> length (n_arrays n2 ! g)" "set (n_arrays n1 ! g) \<subseteq> set (n_arrays n2 ! g)"
          "set (n_arrays n2 ! g) \<subseteq> set (n_arrays n1 ! g) \<union> {length (c_store (f_caches w1 ! i))..}"
          "\<forall>x \<in> set (n_arrays n2 ! g). x < length (c_store (f_caches w2 ! i))" "\<forall>x \<in> set (n_arrays n1 ! g). x < length (c_store (f_caches w1 ! i))"
          by (rule arrays_after [OF gap(2) i1 run(2,3) n1(1,2)])
        have ts: "\<forall>t \<in> set ts. t < length (n_arrays n2 ! g)" using Cons.prems(5) n1(3) n2(3) by fastforce
        have eq: "range_runs i co g (t # ts) pos out w = range_runs i co g ts pos' (out @ us @ vs) w2"
          unfolding step using None run(1) None2 by simp
        obtain res w' where IH: "range_runs i co g ts pos' (out @ us @ vs) w2 = Some (res, w')" "metered w'" "forest_keeps w2 w'" "only_node (co_Node co) (f_caches w2 ! i) (f_caches w' ! i)"
          "serves hist (f_caches w2 ! i) \<and> coherent hist (f_caches w2 ! i) \<and> walking S crd (n_arrays n2 ! g) pos' (co_To co) (f_caches w2 ! i) \<longrightarrow>
            res = ((out @ us @ vs) @ between (c_key (f_caches w2 ! i)) pos' (co_To co) (hist (co_Node co)), None) \<and> coherent hist (f_caches w' ! i)"
          using Cons.IH [OF run(2) i2 n2(1,2) ts Cons.prems(6), of pos' "out @ us @ vs"] by blast
        have "res = (out @ between (c_key ?c) pos (co_To co) (hist (co_Node co)), None) \<and> coherent hist (f_caches w' ! i)"
          if s: "serves hist ?c" "coherent hist ?c" "walking S crd (n_arrays n ! g) pos (co_To co) ?c"
        proof -
          have g: "pos < co_To (r_coord (c_store ?c ! j))" "co_From (r_coord (c_store ?c ! j)) < co_To co" using False by (simp_all add: rc_def)
          note within = walking_within [OF s(3) ja g]
          have u: "us = (if co_From rc > pos then between (c_key ?c) pos (co_From rc) (hist (co_Node co)) else [])" "coherent hist (f_caches w1 ! i)"
            using gap(6) s(1,2) by auto
          have s1: "serves hist (f_caches w1 ! i)" "c_key (f_caches w1 ! i) = c_key ?c" using serves_keeps [OF kc] s(1) kc by (auto simp: keeps_def)
          have v: "coherent hist (f_caches w2 ! i)" "pos' = max pos (co_To rc)"
            "vs = between (c_key ?c) (max pos (co_From rc)) (min (co_To co) (co_To rc)) (hist (co_Node rc))"
            using run(6) [OF s1(1) u(2)] within(1) s1(2) by auto
          have cn: "co_Node rc = co_Node co"
            using s(2) map_of_SomeD [OF Cons.prems(3)] nth_mem [OF Cons.prems(4)] ja unfolding coherent_def rc_def by fastforce
          have "new_runs_to (co_From rc) ?c (f_caches w2 ! i)"
            using gap(4) run(4) forest_keeps_nth [OF run(3) i1] by (auto simp: new_runs_to_def keeps_def)
          moreover have "set (n_arrays n2 ! g) \<subseteq> set (n_arrays n ! g) \<union> {length (c_store ?c)..}"
            using n2(5) n1(5) kc by (auto simp: keeps_def)
          ultimately have w2: "walking S crd (n_arrays n2 ! g) pos' (co_To co) (f_caches w2 ! i)"
            using walking_step [OF s(3) ja g _ forest_keeps_nth [OF k2 Cons.prems(2)] _ n2(6) n1(7)] v(2) by (simp add: rc_def)
          have s2: "serves hist (f_caches w2 ! i)" "c_key (f_caches w2 ! i) = c_key ?c"
            using serves_keeps [OF forest_keeps_nth [OF k2 Cons.prems(2)]] s(1) forest_keeps_nth [OF k2 Cons.prems(2)] by (auto simp: keeps_def)
          have "sorted (map (c_key ?c) (hist (co_Node co)))" using s(1) by (simp add: serves_def)
          from run_gap [OF this _ g(2) [folded rc_def] g(1) [folded rc_def] within(1)] within(3,4)
          have "us @ vs @ between (c_key ?c) pos' (co_To co) (hist (co_Node co)) = between (c_key ?c) pos (co_To co) (hist (co_Node co))"
            using u(1) v cn by (simp add: rc_def)
          then show ?thesis using IH(5) s2 v(1) w2 by simp
        qed
        then show ?thesis unfolding eq using IH(1-4) k2 on2 forest_keeps_trans only_node_trans by blast
      qed
    qed
  qed
qed

end
