(* ===== verification/Forest_Theorems.thy ===== *)
theory Forest_Theorems
  imports Forest_Range
begin

text \<open>
  The properties of the forest: the meter over every sequence of operations, the budget and the order of
  eviction, the idle sweep, and what a range along a lineage returns.
\<close>

section \<open>Reading a node\<close>

definition disjoint_node :: "'u cache \<Rightarrow> string \<Rightarrow> bool" where
  "disjoint_node c name \<longleftrightarrow> disjoint_coords (set (node_runs (node_of c name))) (\<lambda>j. r_coord (c_store c ! j))"

lemma cache_node_forest:
  assumes "metered w" "i < length (f_caches w)"
  shows "metered (upd_cache i (\<lambda>c. cache_node c name) w)" "forest_keeps w (upd_cache i (\<lambda>c. cache_node c name) w)"
  using owing_upd_cache [where f = "\<lambda>c. cache_node c name" and e = 0, OF assms] cache_node_wf [OF owing_wf [OF assms]]
    upd_cache_keeps [where f = "\<lambda>c. cache_node c name", OF cache_node_keeps] by (simp_all add: cache_node_resident)

lemma rangeInNode_ok:
  assumes m: "metered w" and i: "i < length (f_caches w)" and t: "co_To co + runChunk < u64_lim"
  shows "\<exists>res w'. rangeInNode i co w = Some (res, w') \<and> metered w' \<and> forest_keeps w w' \<and>
    (\<forall>nm. nm \<noteq> co_Node co \<longrightarrow> node_of (f_caches w' ! i) nm = node_of (f_caches w ! i) nm) \<and>
    (serves hist (f_caches w ! i) \<and> coherent hist (f_caches w ! i) \<and> disjoint_node (f_caches w ! i) (co_Node co) \<and> co_From co \<le> co_To co \<longrightarrow>
       res = (between (c_key (f_caches w ! i)) (co_From co) (co_To co) (hist (co_Node co)), None) \<and> coherent hist (f_caches w' ! i))"
proof -
  let ?w = "upd_cache i (\<lambda>c. cache_node c (co_Node co)) w" and ?c = "f_caches w ! i"
  define c where "c = cache_node ?c (co_Node co)"
  have c: "f_caches ?w ! i = c" using i by (simp add: c_def)
  note cn = cache_node_forest [OF m i, where name = "co_Node co"]
  have i1: "i < length (f_caches ?w)" using i by simp
  obtain n where n: "map_of (c_nodes c) (co_Node co) = Some n" unfolding c_def using cache_node_has [of ?c "co_Node co"] by blast
  have wf: "cache_wf c" using owing_wf [OF cn(1) i1] c by simp
  have ne: "n_arrays n \<noteq> []" using wf map_of_SomeD [OF n] by (fastforce simp: cache_wf_def)
  let ?g = "length (n_arrays n) - 1"
  have g: "?g < length (n_arrays n)" "n_arrays n ! ?g = node_runs n" using ne by (auto simp: node_runs_def last_conv_nth)
  have nodes: "node_of c nm = node_of ?c nm" for nm
    by (auto simp: c_def node_of_def cache_node_def empty_node_def map_add_def split: option.splits)
  have store: "c_store c = c_store ?c" "c_key c = c_key ?c" by (simp_all add: c_def cache_node_def split: option.splits)
  obtain res w' where r: "range_runs i co ?g [0..<length (node_runs n)] (co_From co) [] ?w = Some (res, w')" "metered w'" "forest_keeps ?w w'"
    "only_node (co_Node co) c (f_caches w' ! i)"
    "serves hist c \<and> coherent hist c \<and> walking (set (node_runs n)) (\<lambda>j. r_coord (c_store c ! j)) (node_runs n) (co_From co) (co_To co) c \<longrightarrow>
      res = ([] @ between (c_key c) (co_From co) (co_To co) (hist (co_Node co)), None) \<and> coherent hist (f_caches w' ! i)"
    using range_runs_ok [where w = ?w, OF cn(1) i1 _ g(1) _ t, where ts = "[0..<length (node_runs n)]" and pos = "co_From co" and out = "[]" and hist = hist
        and S = "set (node_runs n)" and crd = "\<lambda>j. r_coord (c_store c ! j)"] n g(2) unfolding c by auto
  have eq: "rangeInNode i co w = Some (res, w')" using r(1) c n by (simp add: rangeInNode_def Let_def node_of_def)
  have "node_of (f_caches w' ! i) nm = node_of ?c nm" if "nm \<noteq> co_Node co" for nm
    using r(4) that nodes [of nm] by (simp add: only_node_def node_of_def)
  moreover have "res = (between (c_key ?c) (co_From co) (co_To co) (hist (co_Node co)), None) \<and> coherent hist (f_caches w' ! i)"
    if s: "serves hist ?c" "coherent hist ?c" "disjoint_node ?c (co_Node co)" "co_From co \<le> co_To co"
  proof -
    have "serves hist c" using s(1) serves_keeps [OF cache_node_keeps] by (auto simp: c_def)
    moreover have "coherent hist c" using s(2) cache_node_coherent by (auto simp: c_def)
    moreover have "walking (set (node_runs n)) (\<lambda>j. r_coord (c_store c ! j)) (node_runs n) (co_From co) (co_To co) c"
      using s(3,4) n nodes [of "co_Node co"] store array_run [OF wf map_of_SomeD [OF n] nth_mem [OF g(1)]] run_ids_bound [OF wf] g(2)
      by (auto simp: walking_def disjoint_node_def node_of_some)
    ultimately show ?thesis using r(5) store by simp
  qed
  ultimately show ?thesis using eq r(2) cn(2) r(3) forest_keeps_trans by blast
qed

section \<open>Lineages\<close>

text \<open>The node that has a coordinate: the first whose child, if there is one, begins behind it.\<close>

fun owner_of :: "Ref list \<Rightarrow> nat \<Rightarrow> string" where
  "owner_of [] x = ''''"
| "owner_of [r] x = ref_Node r"
| "owner_of (r # r' # rs) x = (if ref_Base r' = 0 \<or> x < ref_Base r' then ref_Node r else owner_of (r' # rs) x)"

definition lineage_units :: "('u \<Rightarrow> nat) \<Rightarrow> (string \<Rightarrow> 'u list) \<Rightarrow> Ref list \<Rightarrow> nat \<Rightarrow> nat \<Rightarrow> 'u list" where
  "lineage_units key hist lineage from to =
     concat (map (\<lambda>x. filter (\<lambda>u. key u = x) (hist (owner_of lineage x))) [Suc from..<Suc to])"

lemma between_pointwise:
  assumes "sorted (map key us)"
  shows "between key a b us = concat (map (\<lambda>x. filter (\<lambda>u. key u = x) us) [Suc a..<Suc b])"
proof (induction b)
  case (Suc b)
  show ?case
  proof (cases "a \<le> b")
    case True
    have "between key b (Suc b) us = filter (\<lambda>u. key u = Suc b) us" by (auto simp: between_def intro!: filter_cong)
    then show ?thesis using Suc True between_append [OF assms, of a b "Suc b"] by simp
  qed (simp add: between_empty)
qed (simp add: between_empty)

lemma lineage_units_split:
  "a \<le> b \<Longrightarrow> b \<le> c \<Longrightarrow> lineage_units key hist l a b @ lineage_units key hist l b c = lineage_units key hist l a c"
  unfolding lineage_units_def map_append [symmetric] concat_append [symmetric]
  using upt_add_eq_append [of "Suc a" "Suc b" "c - b"] by simp

lemma lineage_units_cong:
  "(\<And>x. a < x \<Longrightarrow> x \<le> b \<Longrightarrow> owner_of l x = owner_of l' x) \<Longrightarrow> lineage_units key hist l a b = lineage_units key hist l' a b"
  unfolding lineage_units_def by (intro arg_cong [where f = concat] map_cong) auto

lemma cache_split_units:
  assumes "\<And>name. sorted (map key (hist name))"
  shows "l \<noteq> [] \<Longrightarrow> concat (map (\<lambda>co. between key (co_From co) (co_To co) (hist (co_Node co))) (cache_split l lo to)) = lineage_units key hist l lo to"
proof (induction l lo to rule: cache_split.induct)
  case (2 r rs lo to)
  define hi where "hi = (case rs of [] \<Rightarrow> to | r' # _ \<Rightarrow> if ref_Base r' > 0 \<and> ref_Base r' - 1 < to then ref_Base r' - 1 else to)"
  have own: "owner_of (r # rs) x = ref_Node r" if "x \<le> hi" "x \<le> to" for x
    using that by (cases rs) (auto simp: hi_def split: if_splits)
  have mine: "between key lo hi (hist (ref_Node r)) = lineage_units key hist (r # rs) lo hi"
    unfolding lineage_units_def between_pointwise [OF assms]
    using own by (intro arg_cong [where f = concat] map_cong) (auto simp: hi_def split: list.splits if_splits)
  have le: "hi \<le> to" by (auto simp: hi_def split: list.splits)
  show ?case
  proof (cases "max lo hi \<ge> to")
    case True
    then have "cache_split (r # rs) lo to = (if hi > lo then [\<lparr>co_Node = ref_Node r, co_From = lo, co_To = hi\<rparr>] else [])"
      using le by (auto simp: hi_def [symmetric] Let_def)
    then show ?thesis using mine le True by (auto simp: lineage_units_def max_def split: if_splits)
  next
    case False
    then obtain r' rs' where rs: "rs = r' # rs'" "hi = ref_Base r' - 1" "0 < ref_Base r'" using le by (auto simp: hi_def split: list.splits if_splits)
    let ?lo = "if hi > lo then hi else lo"
    have lo': "?lo = max lo hi" by simp
    have split: "cache_split (r # rs) lo to = (if hi > lo then [\<lparr>co_Node = ref_Node r, co_From = lo, co_To = hi\<rparr>] else []) @ cache_split rs (max lo hi) to"
      using False by (auto simp: hi_def [symmetric] Let_def max_def)
    have rest: "concat (map (\<lambda>co. between key (co_From co) (co_To co) (hist (co_Node co))) (cache_split rs (max lo hi) to)) = lineage_units key hist rs (max lo hi) to"
      using 2(1) [OF refl refl refl, folded hi_def, unfolded lo'] False rs(1) by simp
    have "lineage_units key hist rs (max lo hi) to = lineage_units key hist (r # rs) (max lo hi) to"
      by (rule lineage_units_cong) (use rs in auto)
    then show ?thesis unfolding split using rest mine False lineage_units_split [of lo hi to key hist "r # rs"] by (auto simp: max_def)
  qed
qed simp

text \<open>The split of a lineage, one node at a time.\<close>

definition cut_at :: "Ref list \<Rightarrow> nat \<Rightarrow> nat" where
  "cut_at rs to = (case rs of [] \<Rightarrow> to | r' # _ \<Rightarrow> if ref_Base r' > 0 \<and> ref_Base r' - 1 < to then ref_Base r' - 1 else to)"

lemma cut_at_le: "cut_at rs to \<le> to"
  by (auto simp: cut_at_def split: list.splits)

lemma cache_split_Cons:
  "cache_split (r # rs) lo to = (if cut_at rs to > lo then [\<lparr>co_Node = ref_Node r, co_From = lo, co_To = cut_at rs to\<rparr>] else []) @
     (if max lo (cut_at rs to) \<ge> to then [] else cache_split rs (max lo (cut_at rs to)) to)"
  unfolding cache_split.simps cut_at_def [symmetric] Let_def by (auto simp: max_def)

lemma cache_split_bounds: "co \<in> set (cache_split l lo to) \<Longrightarrow> co_From co \<le> co_To co \<and> co_To co \<le> to \<and> co_Node co \<in> ref_Node ` set l"
proof (induction l arbitrary: lo)
  case (Cons r rs)
  then show ?case using cut_at_le [of rs to] unfolding cache_split_Cons by (auto split: if_splits)
qed simp

lemma cache_split_distinct: "distinct (map ref_Node l) \<Longrightarrow> distinct (map co_Node (cache_split l lo to))"
proof (induction l arbitrary: lo)
  case (Cons r rs)
  have d: "distinct (map co_Node (cache_split rs lo' to))" for lo' using Cons by simp
  have "ref_Node r \<notin> co_Node ` set (cache_split rs lo' to)" for lo'
  proof
    assume "ref_Node r \<in> co_Node ` set (cache_split rs lo' to)"
    then obtain co where "co \<in> set (cache_split rs lo' to)" "co_Node co = ref_Node r" by force
    then show False using cache_split_bounds [of co rs lo' to] Cons.prems by force
  qed
  then show ?case using d unfolding cache_split_Cons by simp
qed simp

lemma node_runs_bound: "cache_wf c \<Longrightarrow> j \<in> set (node_runs (node_of c name)) \<Longrightarrow> j < length (c_store c)"
proof (cases "map_of (c_nodes c) name")
  case None
  then show "j \<in> set (node_runs (node_of c name)) \<Longrightarrow> j < length (c_store c)" by (simp add: node_of_def empty_node_def node_runs_def)
next
  case (Some n)
  then have "(name, n) \<in> set (c_nodes c)" by (rule map_of_SomeD)
  then show "cache_wf c \<Longrightarrow> j \<in> set (node_runs (node_of c name)) \<Longrightarrow> j < length (c_store c)"
    using Some by (force simp: node_of_def run_ids_def intro!: run_ids_bound)
qed

lemma disjoint_node_keeps:
  assumes "keeps c c'" "cache_wf c" "node_of c' name = node_of c name"
  shows "disjoint_node c' name = disjoint_node c name"
proof -
  have "r_coord (c_store c' ! j) = r_coord (c_store c ! j)" if "j \<in> set (node_runs (node_of c name))" for j
    using node_runs_bound [OF assms(2) that] assms(1) by (simp add: keeps_def)
  then show ?thesis by (simp add: disjoint_node_def disjoint_coords_def assms(3))
qed

lemma range_cuts_ok:
  "metered w \<Longrightarrow> i < length (f_caches w) \<Longrightarrow> \<forall>co \<in> set cuts. co_To co + runChunk < u64_lim \<and> co_From co \<le> co_To co \<Longrightarrow>
   \<exists>res w'. range_cuts i cuts out w = Some (res, w') \<and> metered w' \<and> forest_keeps w w' \<and>
     (serves hist (f_caches w ! i) \<and> coherent hist (f_caches w ! i) \<and> distinct (map co_Node cuts) \<and> (\<forall>co \<in> set cuts. disjoint_node (f_caches w ! i) (co_Node co)) \<longrightarrow>
        res = (out @ concat (map (\<lambda>co. between (c_key (f_caches w ! i)) (co_From co) (co_To co) (hist (co_Node co))) cuts), None) \<and>
        coherent hist (f_caches w' ! i))"
proof (induction cuts arbitrary: out w)
  case Nil
  then show ?case by simp
next
  case (Cons co cuts)
  let ?c = "f_caches w ! i"
  have t: "co_To co + runChunk < u64_lim" "co_From co \<le> co_To co" "\<forall>co \<in> set cuts. co_To co + runChunk < u64_lim \<and> co_From co \<le> co_To co"
    using Cons.prems(3) by auto
  obtain us e w1 where r: "rangeInNode i co w = Some ((us, e), w1)" "metered w1" "forest_keeps w w1"
    "\<forall>nm. nm \<noteq> co_Node co \<longrightarrow> node_of (f_caches w1 ! i) nm = node_of ?c nm"
    "serves hist ?c \<and> coherent hist ?c \<and> disjoint_node ?c (co_Node co) \<longrightarrow>
      us = between (c_key ?c) (co_From co) (co_To co) (hist (co_Node co)) \<and> e = None \<and> coherent hist (f_caches w1 ! i)"
    using rangeInNode_ok [OF Cons.prems(1,2) t(1), of hist] t(2) by fastforce
  have i1: "i < length (f_caches w1)" using Cons.prems(2) forest_keeps_length [OF r(3)] by simp
  note k = forest_keeps_nth [OF r(3) Cons.prems(2)]
  show ?case
  proof (cases e)
    case (Some err)
    then have "range_cuts i (co # cuts) out w = Some ((out, Some err), w1)" using r(1) by simp
    then show ?thesis using r(2,3,5) Some by auto
  next
    case None
    obtain res w' where IH: "range_cuts i cuts (out @ us) w1 = Some (res, w')" "metered w'" "forest_keeps w1 w'"
      "serves hist (f_caches w1 ! i) \<and> coherent hist (f_caches w1 ! i) \<and> distinct (map co_Node cuts) \<and> (\<forall>co \<in> set cuts. disjoint_node (f_caches w1 ! i) (co_Node co)) \<longrightarrow>
        res = ((out @ us) @ concat (map (\<lambda>co. between (c_key (f_caches w1 ! i)) (co_From co) (co_To co) (hist (co_Node co))) cuts), None) \<and>
        coherent hist (f_caches w' ! i)"
      using Cons.IH [OF r(2) i1 t(3), of "out @ us"] by blast
    have eq: "range_cuts i (co # cuts) out w = Some (res, w')" using r(1) None IH(1) by simp
    have "c_key (f_caches w1 ! i) = c_key ?c" using k by (simp add: keeps_def)
    moreover have "disjoint_node (f_caches w1 ! i) (co_Node co')"
      if "co' \<in> set cuts" "distinct (map co_Node (co # cuts))" "\<forall>co \<in> set cuts. disjoint_node ?c (co_Node co)" for co'
    proof -
      have "co_Node co' \<noteq> co_Node co" using that(1,2) by (auto simp: image_iff)
      then show ?thesis using disjoint_node_keeps [OF k owing_wf [OF Cons.prems(1,2)]] r(4) that(1,3) by blast
    qed
    ultimately show ?thesis unfolding eq using IH(2-4) r(3,5) serves_keeps [OF k] forest_keeps_trans [OF r(3) IH(3)] by auto
  qed
qed

section \<open>A small forest\<close>

text \<open>A node and a fork of it, which has its own records from 3 on, under a budget of two bytes.\<close>

definition small_hist :: "string \<Rightarrow> (nat \<times> nat) list" where
  "small_hist name = (if name = ''a'' then [(1, 0), (2, 0), (3, 0)] else [(3, 1), (4, 1)])"

definition small_cache :: "(nat \<times> nat) cache" where
  "small_cache = \<lparr>c_src = Some (\<lambda>co. Inr (between fst (co_From co) (co_To co) (small_hist (co_Node co)))), c_size = (\<lambda>_. 1), c_key = fst,
     c_Recency = None, c_grow = (\<lambda>n. 2 * n), c_store = [], c_nodes = [], c_recomposes = 0, c_hooked = []\<rparr>"

definition small_forest :: "(nat \<times> nat) forest" where
  "small_forest = \<lparr>f_budget = Some \<lparr>b_limit = 2, b_bytes = 0, b_epoch = 0, b_owners = [0], b_evictions = 0\<rparr>, f_caches = [small_cache]\<rparr>"

text \<open>The same cache with two runs of given sizes, the older one first.\<close>

definition two_runs :: "int \<Rightarrow> int \<Rightarrow> (nat \<times> nat) forest" where
  "two_runs x y = \<lparr>f_budget = Some \<lparr>b_limit = 2, b_bytes = x + y, b_epoch = 2, b_owners = [0], b_evictions = 0\<rparr>,
     f_caches = [small_cache\<lparr>c_store :=
         [\<lparr>r_coord = \<lparr>co_Node = ''a'', co_From = 0, co_To = 1\<rparr>, r_units = [(1, 0)], r_bytes = x, r_epoch = 1, r_pinned = False, r_resident = True\<rparr>,
          \<lparr>r_coord = \<lparr>co_Node = ''a'', co_From = 1, co_To = 2\<rparr>, r_units = [(2, 0)], r_bytes = y, r_epoch = 2, r_pinned = False, r_resident = True\<rparr>],
       c_nodes := [(''a'', \<lparr>n_arrays = [[0, 1]], n_cap = 2\<rparr>)]\<rparr>]\<rparr>"

lemma small_forest_facts:
  "metered small_forest" "serves small_hist (f_caches small_forest ! 0)" "coherent small_hist (f_caches small_forest ! 0)"
  "disjoint_node (f_caches small_forest ! 0) name" "c_key (f_caches small_forest ! 0) = fst" "length (f_caches small_forest) = 1"
  by (auto simp: small_forest_def small_cache_def owing_def resident_total_def resident_bytes_def run_ids_def cache_wf_def serves_def
      coherent_def small_hist_def disjoint_node_def disjoint_coords_def node_of_def empty_node_def node_runs_def)

text \<open>C23: Reading a range along a lineage returns, for each coordinate in it, the units the layer below has there in the
  node that owns the coordinate, and nothing else, in order: whatever part is resident, hollow or missing, and
  whatever the budget evicts while the read goes on. The runs of the nodes read must not overlap at the start.\<close>

theorem forest_range_exact:
  assumes "metered w" "i < length (f_caches w)" "serves hist (f_caches w ! i)" "coherent hist (f_caches w ! i)"
    "lineage \<noteq> []" "distinct (map ref_Node lineage)" "\<forall>r \<in> set lineage. disjoint_node (f_caches w ! i) (ref_Node r)"
    "from \<le> to" "to + runChunk < u64_lim"
  shows "\<exists>w'. cache_Range i lineage from to w = Some ((lineage_units (c_key (f_caches w ! i)) hist lineage from to, None), w') \<and>
    metered w' \<and> coherent hist (f_caches w' ! i)"
proof -
  let ?cuts = "cache_split lineage from to"
  have "\<forall>co \<in> set ?cuts. co_To co + runChunk < u64_lim \<and> co_From co \<le> co_To co" using cache_split_bounds assms(9) by fastforce
  from range_cuts_ok [OF assms(1,2) this, of "[]" hist] obtain w' where
    w': "range_cuts i ?cuts [] w = Some (([] @ concat (map (\<lambda>co. between (c_key (f_caches w ! i)) (co_From co) (co_To co) (hist (co_Node co))) ?cuts), None), w')"
      "metered w'" "coherent hist (f_caches w' ! i)"
    using assms(3,4,7) cache_split_distinct [OF assms(6)] cache_split_bounds by fastforce
  have "\<And>name. sorted (map (c_key (f_caches w ! i)) (hist name))" using assms(3) by (simp add: serves_def)
  from cache_split_units [where hist = hist, OF this assms(5)] w' show ?thesis using assms(5,8) by (simp add: cache_Range_def not_less)
qed

theorem forest_range_exact_witness:
  "\<exists>w'. cache_Range 0 [\<lparr>ref_Node = ''a'', ref_Base = 0\<rparr>, \<lparr>ref_Node = ''b'', ref_Base = 3\<rparr>] 0 4 small_forest =
     Some (([(1, 0), (2, 0), (3, 1), (4, 1)], None), w')"
proof -
  let ?l = "[\<lparr>ref_Node = ''a'', ref_Base = 0\<rparr>, \<lparr>ref_Node = ''b'', ref_Base = 3\<rparr>]"
  have "lineage_units fst small_hist ?l 0 4 = [(1, 0), (2, 0), (3, 1), (4, 1)]"
    by (simp add: lineage_units_def small_hist_def upt_rec)
  then show ?thesis
    using forest_range_exact [OF small_forest_facts(1) _ small_forest_facts(2,3), of ?l 0 4] small_forest_facts(4-6)
    by (auto simp: runChunk_def)
qed

section \<open>The meter\<close>

lemma upd_run_cong: "f (c_store c ! j) = g (c_store c ! j) \<Longrightarrow> upd_run j f c = upd_run j g c"
  by (simp add: upd_run_def)

lemma upd_cache_cong: "f (f_caches w ! i) = g (f_caches w ! i) \<Longrightarrow> upd_cache i f w = upd_cache i g w"
  by (simp add: upd_cache_def)

lemma node_at_run: "cache_wf c \<Longrightarrow> node_at (c_store c) (node_of c name) co = Some j \<Longrightarrow> j \<in> set (run_ids c) \<and> r_coord (c_store c ! j) = co"
proof -
  assume wf: "cache_wf c" and at: "node_at (c_store c) (node_of c name) co = Some j"
  define p where "p = node_pos (c_store c) (node_runs (node_of c name)) (co_From co)"
  have p: "p < length (node_runs (node_of c name))" "r_coord (c_store c ! (node_runs (node_of c name) ! p)) = co" "node_runs (node_of c name) ! p = j"
    using at by (auto simp: node_at_def Let_def p_def [symmetric] split: if_splits)
  have j: "j \<in> set (node_runs (node_of c name))" "r_coord (c_store c ! j) = co" using p(2,3) nth_mem [OF p(1)] by simp_all
  then obtain n where n: "map_of (c_nodes c) name = Some n" by (cases "map_of (c_nodes c) name") (auto simp: node_of_def empty_node_def node_runs_def)
  then have "j \<in> set (node_runs n)" "(name, n) \<in> set (c_nodes c)" using j(1) by (auto simp: node_of_def dest: map_of_SomeD)
  then show ?thesis using j(2) by (force simp: run_ids_def)
qed

lemma cache_Put_meter:
  assumes m: "metered w" and i: "i < length (f_caches w)"
  shows "\<exists>w'. cache_Put i co units pinned w = Some w' \<and> metered w' \<and> length (f_caches w') = length (f_caches w)"
proof -
  let ?w1 = "upd_cache i (\<lambda>c. cache_node c (co_Node co)) w"
  note cn = cache_node_forest [OF m i, where name = "co_Node co"]
  obtain e w2 where b: "bump ?w1 = (e, w2)" by fastforce
  have w2: "metered w2" "f_caches w2 = f_caches ?w1" using owing_bump [where w = ?w1] b cn(1) by auto
  have i2: "i < length (f_caches w2)" using i w2(2) by simp
  let ?c = "f_caches w2 ! i"
  have wf: "cache_wf ?c" by (rule owing_wf [OF w2(1) i2])
  define r where "r = \<lparr>r_coord = co, r_units = units, r_bytes = units_bytes ?c units, r_epoch = e, r_pinned = pinned, r_resident = True\<rparr>"
  have pos: "r_resident r" "0 \<le> r_bytes r" using units_bytes_nonneg [OF wf] by (auto simp: r_def)
  show ?thesis
  proof (cases "node_at (c_store ?c) (node_of ?c (co_Node co)) co")
    case None
    obtain n where "map_of (c_nodes ?c) (co_Node co) = Some n" using cache_node_has [of "f_caches w ! i" "co_Node co"] i w2(2) by auto
    from push_run [OF w2(1) i2 this pos] obtain w' where
      w': "cache_charge (r_bytes r) (upd_cache i (add_run (co_Node co) r) w2) = Some w'" "metered w'" "forest_keeps w2 w'" by metis
    then show ?thesis using None b forest_keeps_length [OF w'(3)] w2(2) by (simp add: cache_Put_def Let_def r_def)
  next
    case (Some j)
    note j = node_at_run [OF wf Some]
    define d where "d = (if r_resident (c_store ?c ! j) then r_bytes r - r_bytes (c_store ?c ! j) else r_bytes r)"
    have "upd_cache i (upd_run j (\<lambda>_. r)) w2 = upd_cache i (upd_run j (\<lambda>q. r\<lparr>r_coord := r_coord q\<rparr>)) w2"
      by (rule upd_cache_cong, rule upd_run_cong) (use j in \<open>simp add: r_def\<close>)
    moreover note replace_run [where f = "\<lambda>q. r\<lparr>r_coord := r_coord q\<rparr>", OF w2(1) i2 conjunct1 [OF j]]
    ultimately have o: "owing d (upd_cache i (upd_run j (\<lambda>_. r)) w2)" "forest_keeps w2 (upd_cache i (upd_run j (\<lambda>_. r)) w2)"
      using pos by (auto simp: d_def run_bytes_def)
    obtain w' where w': "cache_charge d (upd_cache i (upd_run j (\<lambda>_. r)) w2) = Some w'" "metered w'"
      "list_all2 hollowed (f_caches (upd_cache i (upd_run j (\<lambda>_. r)) w2)) (f_caches w')"
      using cache_charge_settles [OF o(1)] by blast
    have "cache_Put i co units pinned w = cache_charge d (upd_cache i (upd_run j (\<lambda>_. r)) w2)"
      unfolding cache_Put_def Let_def b prod.case Some option.case r_def [symmetric] d_def by (rule refl)
    then show ?thesis using w'(1,2) w2(2) list_all2_lengthD [OF w'(3)] by simp
  qed
qed

lemma cache_Drop_meter:
  assumes m: "metered w" and i: "i < length (f_caches w)"
  shows "metered (cache_Drop i co w)" "length (f_caches (cache_Drop i co w)) = length (f_caches w)"
proof -
  let ?w = "upd_cache i (\<lambda>c. cache_node c (co_Node co)) w"
  note cn = cache_node_forest [OF m i, where name = "co_Node co"]
  have i1: "i < length (f_caches ?w)" using i by simp
  let ?c = "f_caches ?w ! i"
  have wf: "cache_wf ?c" by (rule owing_wf [OF cn(1) i1])
  have "metered (cache_Drop i co w) \<and> length (f_caches (cache_Drop i co w)) = length (f_caches w)"
  proof (cases "node_at (c_store ?c) (node_of ?c (co_Node co)) co")
    case None
    then show ?thesis using cn(1) by (simp add: cache_Drop_def Let_def)
  next
    case (Some j)
    note j = node_at_run [OF wf Some]
    let ?f = "\<lambda>r. r\<lparr>r_units := [], r_resident := False, r_pinned := False\<rparr>" and ?r = "c_store ?c ! j"
    have nn: "0 \<le> r_bytes ?r" using wf run_ids_bound [OF wf conjunct1 [OF j]] by (simp add: cache_wf_def)
    show ?thesis
    proof (cases "r_resident ?r")
      case False
      then show ?thesis using Some cn(1) by (simp add: cache_Drop_def Let_def)
    next
      case True
      have "owing (- r_bytes ?r) (upd_cache i (upd_run j ?f) ?w)"
        using replace_run(1) [where f = ?f, OF cn(1) i1 conjunct1 [OF j]] nn True by (simp add: run_bytes_def)
      then show ?thesis using Some True nn by (auto simp: cache_Drop_def Let_def owing_def resident_total_def)
    qed
  qed
  then show "metered (cache_Drop i co w)" "length (f_caches (cache_Drop i co w)) = length (f_caches w)" by simp_all
qed

lemma forest_TrimIdle_meter:
  assumes "metered w"
  shows "\<exists>n g w'. forest_TrimIdle keep w = Some ((n, g), w') \<and> metered w' \<and> length (f_caches w') = length (f_caches w)"
proof (cases "f_budget w")
  case None
  then show ?thesis using assms by (auto simp: forest_TrimIdle_def TrimIdle_def owing_def resident_total_def)
next
  case (Some b0)
  let ?b = "b0\<lparr>b_epoch := b_epoch b0 + 1\<rparr>"
  have wf: "list_all cache_wf (f_caches w)" "b_bytes b0 = resident_total w" using assms Some by (auto simp: owing_def)
  obtain b' cs' n g where t: "trim_owners cache_coldest evictColdest (b_epoch b0 - keep) (b_owners b0) ?b (f_caches w) 0 0 = Some (b', cs', n, g)"
    "list_all cache_wf cs'" "length cs' = length (f_caches w)" "b_bytes b' - b_bytes ?b = cache_owner.total cs' - cache_owner.total (f_caches w)"
    using cache_owner.trim_owners_returns [OF wf(1), of "b_epoch b0 - keep" "b_owners b0" ?b 0 0] by blast
  have "forest_TrimIdle keep w = Some ((n, g), w\<lparr>f_budget := Some b', f_caches := cs'\<rparr>)"
    using Some t(1) by (simp add: forest_TrimIdle_def TrimIdle_def Let_def)
  then show ?thesis using t(2-4) wf(2) by (simp add: owing_def resident_total_def cache_owner.total_def)
qed

lemma cache_Close_meter:
  assumes m: "metered w" and i: "i < length (f_caches w)"
  shows "metered (cache_Close i w)" "length (f_caches (cache_Close i w)) = length (f_caches w)"
proof -
  let ?c = "f_caches w ! i"
  have wf: "cache_wf ?c" by (rule owing_wf [OF m i])
  have c: "cache_wf (?c\<lparr>c_nodes := []\<rparr>)" "resident_bytes (?c\<lparr>c_nodes := []\<rparr>) = resident_bytes ?c + - resident_bytes ?c"
    using wf by (simp_all add: cache_wf_def run_ids_def resident_bytes_def)
  have "owing (- resident_bytes ?c) (upd_cache i (\<lambda>c. c\<lparr>c_nodes := []\<rparr>) w)"
    using owing_upd_cache [where f = "\<lambda>c. c\<lparr>c_nodes := []\<rparr>", OF m i c] by simp
  then show "metered (cache_Close i w)" by (auto simp: cache_Close_def Let_def owing_def resident_total_def disown_def)
  show "length (f_caches (cache_Close i w)) = length (f_caches w)" by (simp add: cache_Close_def Let_def)
qed

lemma cache_New_meter:
  assumes "metered w" "\<forall>u. 0 \<le> size' u"
  shows "metered (snd (cache_New src size' key grow w))" "length (f_caches (snd (cache_New src size' key grow w))) = Suc (length (f_caches w))"
  using assms by (auto simp: cache_New_def Let_def owing_def resident_total_def resident_bytes_def run_ids_def cache_wf_def adopt_def)

lemma cache_Range_meter:
  assumes "metered w" "i < length (f_caches w)" "to + runChunk < u64_lim"
  shows "\<exists>res w'. cache_Range i lineage from to w = Some (res, w') \<and> metered w' \<and> length (f_caches w') = length (f_caches w)"
proof -
  have "\<forall>co \<in> set (cache_split lineage from to). co_To co + runChunk < u64_lim \<and> co_From co \<le> co_To co"
    using cache_split_bounds assms(3) by fastforce
  from range_cuts_ok [OF assms(1,2) this, of "[]"] show ?thesis
    using assms(1) forest_keeps_length by (fastforce simp: cache_Range_def)
qed

text \<open>The operations of the caches of one budget, in any order.\<close>

datatype 'u forest_op =
    ONew "(coord \<Rightarrow> err + 'u list) option" "'u \<Rightarrow> int" "'u \<Rightarrow> nat" "nat \<Rightarrow> nat"
  | OPut nat coord "'u list" bool
  | ODrop nat coord
  | ORange nat "Ref list" nat nat
  | OClose nat
  | OTrimIdle int
  | OSetLimit int

fun forest_step :: "'u forest_op \<Rightarrow> 'u forest \<Rightarrow> 'u forest option" where
  "forest_step (ONew src size' key grow) w = Some (snd (cache_New src size' key grow w))"
| "forest_step (OPut i co units pinned) w = cache_Put i co units pinned w"
| "forest_step (ODrop i co) w = Some (cache_Drop i co w)"
| "forest_step (ORange i lineage from to) w = map_option snd (cache_Range i lineage from to w)"
| "forest_step (OClose i) w = Some (cache_Close i w)"
| "forest_step (OTrimIdle keep) w = map_option snd (forest_TrimIdle keep w)"
| "forest_step (OSetLimit n) w = Some (w\<lparr>f_budget := map_option (SetLimit n) (f_budget w)\<rparr>)"

fun op_ok :: "nat \<Rightarrow> 'u forest_op \<Rightarrow> bool" where
  "op_ok n (ONew src size' key grow) \<longleftrightarrow> (\<forall>u. 0 \<le> size' u)"
| "op_ok n (OPut i co units pinned) \<longleftrightarrow> i < n"
| "op_ok n (ODrop i co) \<longleftrightarrow> i < n"
| "op_ok n (ORange i lineage from to) \<longleftrightarrow> i < n \<and> to + runChunk < u64_lim"
| "op_ok n (OClose i) \<longleftrightarrow> i < n"
| "op_ok n (OTrimIdle keep) \<longleftrightarrow> True"
| "op_ok n (OSetLimit m) \<longleftrightarrow> True"

fun forest_run :: "'u forest_op list \<Rightarrow> 'u forest \<Rightarrow> 'u forest option" where
  "forest_run [] w = Some w"
| "forest_run (x # xs) w = (case forest_step x w of None \<Rightarrow> None | Some w' \<Rightarrow> forest_run xs w')"

fun ops_ok :: "nat \<Rightarrow> 'u forest_op list \<Rightarrow> bool" where
  "ops_ok n [] \<longleftrightarrow> True"
| "ops_ok n (x # xs) \<longleftrightarrow> op_ok n x \<and> ops_ok (case x of ONew _ _ _ _ \<Rightarrow> Suc n | _ \<Rightarrow> n) xs"

lemma forest_step_meter:
  assumes "metered w" "op_ok (length (f_caches w)) x"
  shows "\<exists>w'. forest_step x w = Some w' \<and> metered w' \<and>
    length (f_caches w') = (case x of ONew _ _ _ _ \<Rightarrow> Suc (length (f_caches w)) | _ \<Rightarrow> length (f_caches w))"
proof (cases x)
  case (ONew src size' key grow)
  then show ?thesis using cache_New_meter [OF assms(1)] assms(2) by simp
next
  case (OPut i co units pinned)
  then show ?thesis using cache_Put_meter [OF assms(1)] assms(2) by simp
next
  case (ODrop i co)
  then show ?thesis using cache_Drop_meter [OF assms(1)] assms(2) by simp
next
  case (ORange i lineage "from" to)
  then show ?thesis using cache_Range_meter [OF assms(1), of i to lineage "from"] assms(2) by auto
next
  case (OClose i)
  then show ?thesis using cache_Close_meter [OF assms(1)] assms(2) by simp
next
  case (OTrimIdle keep)
  then show ?thesis using forest_TrimIdle_meter [OF assms(1), of keep] by auto
next
  case (OSetLimit n)
  then show ?thesis using assms(1) by (auto simp: owing_def resident_total_def SetLimit_def)
qed

text \<open>C24: Any sequence of operations on the caches of a budget returns, and afterwards the meter shows exactly the bytes
  that are resident in all of them together, evictions, replaced and pinned runs and closed caches included.\<close>

theorem forest_meter_exact:
  assumes "metered w" "ops_ok (length (f_caches w)) xs"
  shows "\<exists>w'. forest_run xs w = Some w' \<and> (\<forall>b. f_budget w' = Some b \<longrightarrow> b_bytes b = sum_list (map resident_bytes (f_caches w')))"
proof -
  have "\<exists>w'. forest_run xs w = Some w' \<and> metered w'"
    using assms
  proof (induction xs arbitrary: w)
    case (Cons x xs)
    then obtain w1 where "forest_step x w = Some w1" "metered w1"
      "length (f_caches w1) = (case x of ONew _ _ _ _ \<Rightarrow> Suc (length (f_caches w)) | _ \<Rightarrow> length (f_caches w))"
      using forest_step_meter [of w x] by auto
    then show ?case using Cons by simp
  qed simp
  then show ?thesis by (auto simp: owing_def resident_total_def)
qed

theorem forest_meter_exact_witness:
  "\<exists>w'. forest_run [OPut 0 \<lparr>co_Node = ''a'', co_From = 0, co_To = 3\<rparr> [(1, 0), (2, 0), (3, 0)] True,
       ORange 0 [\<lparr>ref_Node = ''b'', ref_Base = 0\<rparr>] 0 4, OTrimIdle 0, OClose 0] small_forest = Some w' \<and>
     (\<forall>b. f_budget w' = Some b \<longrightarrow> b_bytes b = sum_list (map resident_bytes (f_caches w')))"
  using forest_meter_exact [OF small_forest_facts(1), of "[OPut 0 \<lparr>co_Node = ''a'', co_From = 0, co_To = 3\<rparr> [(1, 0), (2, 0), (3, 0)] True,
       ORange 0 [\<lparr>ref_Node = ''b'', ref_Base = 0\<rparr>] 0 4, OTrimIdle 0, OClose 0]"] small_forest_facts(6)
  by (simp add: runChunk_def)

section \<open>The budget\<close>

text \<open>Caches whose evictable runs all have bytes.\<close>

definition cache_solid :: "'u cache \<Rightarrow> bool" where
  "cache_solid c \<longleftrightarrow> cache_wf c \<and> (\<forall>i \<in> set (run_ids c). evictable c i \<longrightarrow> 0 < r_bytes (c_store c ! i))"

lemma evict_solid:
  assumes "cache_solid c" "cache_coldest c = Some e" "evictColdest c = (f, c')"
  shows "cache_solid c' \<and> 0 < f"
proof -
  have wf: "cache_wf c" using assms(1) by (simp add: cache_solid_def)
  have wf': "cache_wf c'" using cache_owner.evict_ok [OF wf assms(2,3)] by simp
  obtain i where i: "i \<in> set (run_ids c)" "evictable c i" "f = r_bytes (c_store c ! i)"
    "c' = (upd_run i (\<lambda>r. r\<lparr>r_units := [], r_resident := False\<rparr>) c)\<lparr>c_hooked := c_hooked c @ [r_coord (c_store c ! i)]\<rparr>"
    using evictColdest_upd [OF wf assms(2,3)] by metis
  have "0 < r_bytes (c_store c' ! j)" if "j \<in> set (run_ids c')" "evictable c' j" for j
  proof (cases "j = i")
    case True
    then show ?thesis using that(2) i(4) run_ids_bound [OF wf i(1)] by (simp add: evictable_def upd_run_def)
  next
    case False
    then have "c_store c' ! j = c_store c ! j" using i(4) by (simp add: upd_run_def)
    then show ?thesis using assms(1) that i(4) by (simp add: cache_solid_def evictable_def)
  qed
  then show ?thesis using wf' assms(1) i(1-3) by (simp add: cache_solid_def)
qed

interpretation solid_owner: solid_evicting cache_coldest evictColdest heat_of resident_bytes cache_solid
proof
  fix c c' :: "'a cache" and e f
  show "cache_coldest c = (if heat_of c = {#} then None else Some (Min (set_mset (heat_of c))))" by (rule cache_coldest_heat)
  assume a: "cache_solid c" "cache_coldest c = Some e" "evictColdest c = (f, c')"
  then have wf: "cache_wf c" by (simp add: cache_solid_def)
  show "heat_of c' = heat_of c - {#e#}" by (rule cache_owner.evict_heat [OF wf a(2,3)])
  show "resident_bytes c' = resident_bytes c - f" by (rule cache_owner.evict_resident [OF wf a(2,3)])
  show "cache_solid c' \<and> 0 \<le> f" "0 < f" using evict_solid [OF a] by auto
qed

lemma owner_coldest_None: "owner_coldest cache_coldest cs i = None \<Longrightarrow> i < length cs \<Longrightarrow> heat_of (cs ! i) = {#}"
  by (auto simp: owner_coldest_def cache_coldest_heat split: if_splits)

lemma two_runs_solid: "0 < x \<Longrightarrow> 0 < y \<Longrightarrow> list_all cache_solid (f_caches (two_runs x y))"
  by (auto simp: two_runs_def cache_solid_def cache_wf_def run_ids_def node_runs_def small_cache_def)

lemma two_runs_heat: "heat_of (f_caches (two_runs x y) ! 0) = {#1, 2#}"
  by (simp add: two_runs_def heat_of_def run_ids_def node_runs_def evictable_def effEpoch_def small_cache_def)

lemma two_runs_fields: "f_budget (two_runs x y) = Some \<lparr>b_limit = 2, b_bytes = x + y, b_epoch = 2, b_owners = [0], b_evictions = 0\<rparr>"
    "length (f_caches (two_runs x y)) = 1"
  by (simp_all add: two_runs_def)

lemma two_runs_evict:
  obtains c where "evictColdest (f_caches (two_runs x y) ! 0) = (x, c)" "heat_of c = {#2#}"
    "pick_victim cache_coldest (f_caches (two_runs x y)) [0] None = Some (0, 1)"
  using that by (simp add: two_runs_def evictColdest_def run_ids_def node_runs_def effEpoch_def small_cache_def heat_of_def evictable_def
      cache_coldest_def owner_coldest_def)

text \<open>C25: A charge returns with the meter within the limit, or with nothing left that could be evicted, when every
  evictable run has bytes.\<close>

theorem forest_budget_fits:
  assumes "list_all cache_solid (f_caches w)" "f_budget w = Some b" "0 < b_limit b"
  shows "\<exists>w' b'. cache_charge delta w = Some w' \<and> f_budget w' = Some b' \<and>
    (b_bytes b' \<le> b_limit b \<or> (\<forall>i \<in> set (b_owners b). i < length (f_caches w) \<longrightarrow> heat_of (f_caches w' ! i) = {#}))"
proof -
  let ?b = "b\<lparr>b_bytes := b_bytes b + delta\<rparr>"
  obtain b' cs' where c: "charge_loop cache_coldest evictColdest (b_limit b) ?b (f_caches w) = Some (b', cs')" "length cs' = length (f_caches w)"
    using solid_owner.charge_loop_returns [OF assms(1), of "b_limit b" ?b] by blast
  have "cache_charge delta w = Some (w\<lparr>f_budget := Some b', f_caches := cs'\<rparr>)"
    using assms(2,3) c(1) by (simp add: cache_charge_def charge_def Let_def)
  moreover have "b_bytes b' \<le> b_limit b \<or> (\<forall>i\<in>set (b_owners b). owner_coldest cache_coldest cs' i = None)"
    using solid_owner.charge_loop_fits [OF assms(1) c(1)] by simp
  ultimately show ?thesis using c(2) owner_coldest_None [of cs'] by auto
qed

theorem forest_budget_fits_witness:
  "\<exists>w' b'. cache_charge 0 (two_runs 2 2) = Some w' \<and> f_budget w' = Some b' \<and>
     (b_bytes b' \<le> 2 \<or> (\<forall>i \<in> {0}. heat_of (f_caches w' ! i) = {#}))"
  using forest_budget_fits [OF two_runs_solid two_runs_fields(1), of 2 2 0] by (simp add: two_runs_fields)

text \<open>C26: Eviction takes the coldest first, across all caches: a run that was evicted was no more recent than any
  evictable run that stays in a cache of the budget.\<close>

theorem forest_evicts_coldest:
  assumes "list_all cache_wf (f_caches w)" "f_budget w = Some b" "cache_charge delta w = Some w'"
    "i < length (f_caches w)" "j < length (f_caches w)" "j \<in> set (b_owners b)"
    "d \<in># heat_of (f_caches w ! i) - heat_of (f_caches w' ! i)" "e \<in># heat_of (f_caches w' ! j)"
  shows "d \<le> e"
proof (cases "b_limit b \<le> 0")
  case True
  then have "f_caches w' = f_caches w" using assms(2,3) by (auto simp: cache_charge_def charge_def Let_def)
  then show ?thesis using assms(7) by simp
next
  case False
  then obtain b' where "charge_loop cache_coldest evictColdest (b_limit b) (b\<lparr>b_bytes := b_bytes b + delta\<rparr>) (f_caches w) = Some (b', f_caches w')"
    using assms(2,3) by (auto simp: cache_charge_def charge_def Let_def)
  from cache_owner.charge_loop_coldest_first [OF assms(1) this] show ?thesis
    using assms(4-8) unfolding cache_owner.coldest_first_def by simp
qed

theorem forest_evicts_coldest_witness:
  "\<exists>w'. cache_charge 0 (two_runs 2 2) = Some w' \<and> 1 \<in># heat_of (f_caches (two_runs 2 2) ! 0) - heat_of (f_caches w' ! 0) \<and>
     2 \<in># heat_of (f_caches w' ! 0) \<and> (1 :: int) \<le> 2"
proof -
  obtain c where c: "evictColdest (f_caches (two_runs 2 2) ! 0) = (2, c)" "heat_of c = {#2#}"
    "pick_victim cache_coldest (f_caches (two_runs 2 2)) [0] None = Some (0, 1)" by (rule two_runs_evict)
  obtain w' where w': "cache_charge 0 (two_runs 2 2) = Some w'" "heat_of (f_caches w' ! 0) = {#2#}"
    using c two_runs_fields [of 2 2] by (simp add: cache_charge_def charge_def Let_def charge_loop.simps)
  have wf: "list_all cache_wf (f_caches (two_runs 2 2))" using two_runs_solid [of 2 2] by (auto simp: list_all_iff cache_solid_def)
  have "(1 :: int) \<le> 2"
    using forest_evicts_coldest [OF wf two_runs_fields(1) w'(1), of 0 0 1 2] two_runs_heat [of 2 2] w'(2) by (simp add: two_runs_fields)
  then show ?thesis using w' two_runs_heat [of 2 2] by simp
qed





end
