(* ===== verification/Go_Strings.thy ===== *)
theory Go_Strings
  imports Figwal_Prelude
begin

text \<open>
  The functions of the standard library's \<^verbatim>\<open>strings\<close> package the program uses. A string is a list
  of characters, one per byte.
\<close>

definition text_of :: "bytes \<Rightarrow> string" where
  "text_of b = map (\<lambda>x. char_of (unat x)) b"

lemma text_of_bytes_of [simp]: "text_of (bytes_of s) = s"
proof -
  have "of_char c < (256 :: nat)" for c :: char by simp
  then have "unat (word_of_nat (of_char c) :: byte) = of_char c" for c :: char
    by (simp add: unsigned_of_nat take_bit_eq_mod)
  then show ?thesis by (simp add: text_of_def bytes_of_def o_def)
qed

definition HasPrefix :: "string \<Rightarrow> string \<Rightarrow> bool" where
  "HasPrefix s p \<longleftrightarrow> prefix p s"

definition HasSuffix :: "string \<Rightarrow> string \<Rightarrow> bool" where
  "HasSuffix s p \<longleftrightarrow> suffix p s"

definition TrimSuffix :: "string \<Rightarrow> string \<Rightarrow> string" where
  "TrimSuffix s p = (if suffix p s then take (length s - length p) s else s)"

definition ContainsAny :: "string \<Rightarrow> string \<Rightarrow> bool" where
  "ContainsAny s cs \<longleftrightarrow> list_ex (\<lambda>c. c \<in> set cs) s"

text \<open>\<^verbatim>\<open>strings.Cut\<close> at the first occurrence of a character.\<close>

definition Cut :: "string \<Rightarrow> char \<Rightarrow> (string \<times> string) option" where
  "Cut s c = (if c \<in> set s then Some (takeWhile (\<lambda>x. x \<noteq> c) s, tl (dropWhile (\<lambda>x. x \<noteq> c) s)) else None)"

text \<open>\<^verbatim>\<open>strings.Split\<close> at a character: always at least one part.\<close>

fun Split :: "string \<Rightarrow> char \<Rightarrow> string list" where
  "Split [] c = [[]]"
| "Split (x # s) c = (if x = c then [] # Split s c else (case Split s c of p # ps \<Rightarrow> (x # p) # ps | [] \<Rightarrow> [[x]]))"

text \<open>
  \<^verbatim>\<open>strings.TrimSpace\<close>: the white space of Unicode, each code point by its encoding in UTF-8.
\<close>

definition spaces :: "string list" where
  "spaces = [[CHR 9], [CHR 10], [CHR 11], [CHR 12], [CHR 13], [CHR 32],
     [CHR 0xC2, CHR 0x85], [CHR 0xC2, CHR 0xA0], [CHR 0xE1, CHR 0x9A, CHR 0x80],
     [CHR 0xE2, CHR 0x80, CHR 0x80], [CHR 0xE2, CHR 0x80, CHR 0x81], [CHR 0xE2, CHR 0x80, CHR 0x82],
     [CHR 0xE2, CHR 0x80, CHR 0x83], [CHR 0xE2, CHR 0x80, CHR 0x84], [CHR 0xE2, CHR 0x80, CHR 0x85],
     [CHR 0xE2, CHR 0x80, CHR 0x86], [CHR 0xE2, CHR 0x80, CHR 0x87], [CHR 0xE2, CHR 0x80, CHR 0x88],
     [CHR 0xE2, CHR 0x80, CHR 0x89], [CHR 0xE2, CHR 0x80, CHR 0x8A], [CHR 0xE2, CHR 0x80, CHR 0xA8],
     [CHR 0xE2, CHR 0x80, CHR 0xA9], [CHR 0xE2, CHR 0x80, CHR 0xAF], [CHR 0xE2, CHR 0x81, CHR 0x9F],
     [CHR 0xE3, CHR 0x80, CHR 0x80]]"

lemma spaces_nonempty: "e \<in> set spaces \<Longrightarrow> 0 < length e"
  by (auto simp: spaces_def)

function trim_with :: "string list \<Rightarrow> string \<Rightarrow> string" where
  "trim_with es s = (case find (\<lambda>e. 0 < length e \<and> prefix e s) es of
     None \<Rightarrow> s | Some e \<Rightarrow> trim_with es (drop (length e) s))"
  by pat_completeness auto
termination
proof (relation "measure (\<lambda>(es, s). length s)", goal_cases)
  case (2 es s e)
  then have "0 < length e" "prefix e s" by (auto simp: find_Some_iff)
  then show ?case by (auto simp: prefix_def)
qed simp

declare trim_with.simps [simp del]

definition TrimSpace :: "string \<Rightarrow> string" where
  "TrimSpace s = rev (trim_with (map rev spaces) (rev (trim_with spaces s)))"

text \<open>Printable ASCII text is not touched.\<close>

definition plain :: "char \<Rightarrow> bool" where
  "plain c \<longleftrightarrow> 33 \<le> (of_char c :: nat) \<and> (of_char c :: nat) < 127"

lemma trim_with_id: "(\<And>e. e \<in> set es \<Longrightarrow> e \<noteq> [] \<Longrightarrow> \<not> prefix e s) \<Longrightarrow> trim_with es s = s"
proof -
  assume h: "\<And>e. e \<in> set es \<Longrightarrow> e \<noteq> [] \<Longrightarrow> \<not> prefix e s"
  have "find (\<lambda>e. 0 < length e \<and> prefix e s) es = None"
    using h by (auto simp: find_None_iff)
  then show ?thesis by (simp add: trim_with.simps)
qed

lemma spaces_not_plain: "e \<in> set spaces \<Longrightarrow> \<not> plain (hd e) \<and> \<not> plain (last e)"
  by (auto simp: spaces_def plain_def)

lemma TrimSpace_plain:
  assumes "s \<noteq> []" "plain (hd s)" "plain (last s)"
  shows "TrimSpace s = s"
proof -
  have "trim_with spaces s = s"
  proof (rule trim_with_id)
    fix e assume e: "e \<in> set spaces" "e \<noteq> []"
    have "\<not> plain (hd e)" using e(1) by (rule spaces_not_plain [THEN conjunct1])
    then show "\<not> prefix e s" using assms e(2) by (auto simp: prefix_def)
  qed
  moreover have "trim_with (map rev spaces) (rev s) = rev s"
  proof (rule trim_with_id)
    fix e assume e: "e \<in> set (map rev spaces)" "e \<noteq> []"
    show "\<not> prefix e (rev s)"
    proof
      assume "prefix e (rev s)"
      then have "hd e = last s" using e(2) assms(1) by (auto simp: prefix_def hd_append hd_rev [symmetric])
      moreover have "\<not> plain (hd e)" using e spaces_not_plain by (auto simp: hd_rev)
      ultimately show False using assms(3) by simp
    qed
  qed
  ultimately show ?thesis by (simp add: TrimSpace_def)
qed

lemma Split_none: "c \<notin> set s \<Longrightarrow> Split s c = [s]"
  by (induction s) auto

lemma Cut_first: "c \<notin> set k \<Longrightarrow> Cut (k @ c # v) c = Some (k, v)"
  by (induction k) (auto simp: Cut_def)

lemma TrimSuffix_append [simp]: "TrimSuffix (s @ e) e = s"
  by (auto simp: TrimSuffix_def suffix_def)

lemma HasSuffix_append [simp]: "HasSuffix (s @ e) e"
  by (auto simp: HasSuffix_def suffix_def)

end
