(* ===== verification/Vfs.thy ===== *)
theory Vfs
  imports Figwal_Prelude
begin

text \<open>
  The part of Go's \<^verbatim>\<open>os\<close> and \<^verbatim>\<open>path/filepath\<close> packages the program uses. A path is the
  list of its components, so \<^verbatim>\<open>filepath.Join(dir, name)\<close> is \<open>dir @ [name]\<close>,
  \<^verbatim>\<open>filepath.Dir\<close> is \<open>butlast\<close> and \<^verbatim>\<open>filepath.Base\<close> is \<open>last\<close>. The file system is an
  association list from paths to files and directories; the root directory always exists. An
  open file is known by its path: the program closes every file it renames. Calls fail for the
  logical reasons of the platform (a missing entry, an existing one, a directory where a file is
  wanted); a failing device is not modelled here, and \<^verbatim>\<open>fsync\<close> has no effect on what later
  calls return. The state also carries the process-wide limit of the payload cache.
\<close>

type_synonym path = "string list"

datatype inode = File bytes | Dir

record sys =
  files :: "(path \<times> inode) list"
  cacheLimit :: int

section \<open>Looking up and storing entries\<close>

definition stat :: "sys \<Rightarrow> path \<Rightarrow> inode option" where
  "stat w p = (if p = [] then Some Dir else map_of (files w) p)"

definition put :: "path \<Rightarrow> inode \<Rightarrow> sys \<Rightarrow> sys" where
  "put p n w = w\<lparr>files := AList.update p n (files w)\<rparr>"

definition del :: "path \<Rightarrow> sys \<Rightarrow> sys" where
  "del p w = w\<lparr>files := AList.delete p (files w)\<rparr>"

lemma stat_root [simp]: "stat w [] = Some Dir"
  by (simp add: stat_def)

lemma stat_put: "stat (put p n w) q = (if q = p \<and> p \<noteq> [] then Some n else stat w q)"
  by (auto simp: stat_def put_def update_conv')

lemma stat_put_same [simp]: "p \<noteq> [] \<Longrightarrow> stat (put p n w) p = Some n"
  by (simp add: stat_put)

lemma stat_put_other [simp]: "q \<noteq> p \<Longrightarrow> stat (put p n w) q = stat w q"
  by (simp add: stat_put)

lemma stat_del: "stat (del p w) q = (if q = p \<and> p \<noteq> [] then None else stat w q)"
  by (auto simp: stat_def del_def delete_conv')

lemma cacheLimit_put [simp]: "cacheLimit (put p n w) = cacheLimit w"
  by (simp add: put_def)

lemma cacheLimit_del [simp]: "cacheLimit (del p w) = cacheLimit w"
  by (simp add: del_def)

section \<open>Reading\<close>

text \<open>\<^verbatim>\<open>os.ReadFile\<close>, and the contents of an open file.\<close>

definition os_ReadFile :: "sys \<Rightarrow> path \<Rightarrow> err + bytes" where
  "os_ReadFile w p = (case stat w p of
     None \<Rightarrow> Inl ErrNotExist | Some Dir \<Rightarrow> Inl ErrIsDir | Some (File b) \<Rightarrow> Inr b)"

text \<open>
  \<^verbatim>\<open>ReaderAt.ReadAt\<close> into a buffer of the given length: fewer bytes than asked for come with
  \<^verbatim>\<open>io.EOF\<close>, which every caller in the program treats as an error.
\<close>

definition readAt :: "bytes \<Rightarrow> int \<Rightarrow> int \<Rightarrow> err + bytes" where
  "readAt b len off =
     (if off < 0 then Inl (ErrMsg ''negative offset'')
      else if len \<le> 0 then Inr []
      else if off + len \<le> int (length b) then Inr (take (nat len) (drop (nat off) b))
      else Inl ErrEOF)"

text \<open>\<^verbatim>\<open>os.ReadDir\<close>: the entries of a directory in name order, each with whether it is a directory.\<close>

definition dir_names :: "sys \<Rightarrow> path \<Rightarrow> string list" where
  "dir_names w d =
     sort (remdups (map last (filter (\<lambda>q. q \<noteq> [] \<and> butlast q = d) (map fst (files w)))))"

definition os_ReadDir :: "sys \<Rightarrow> path \<Rightarrow> err + (string \<times> bool) list" where
  "os_ReadDir w d = (case stat w d of
     None \<Rightarrow> Inl ErrNotExist
   | Some (File _) \<Rightarrow> Inl ErrNotDir
   | Some Dir \<Rightarrow> Inr (map (\<lambda>n. (n, stat w (d @ [n]) = Some Dir)) (dir_names w d)))"

definition pathExists :: "sys \<Rightarrow> path \<Rightarrow> bool" where
  "pathExists w p \<longleftrightarrow> stat w p \<noteq> None"

lemma set_dir_names: "set (dir_names w d) = {n. stat w (d @ [n]) \<noteq> None}"
proof -
  have "n \<in> last ` {q \<in> fst ` set (files w). q \<noteq> [] \<and> butlast q = d} \<longleftrightarrow>
      d @ [n] \<in> fst ` set (files w)" for n
    by (force simp: image_iff)
  then show ?thesis
    by (auto simp: dir_names_def stat_def map_of_eq_None_iff image_image)
qed

lemma distinct_dir_names [simp]: "distinct (dir_names w d)"
  by (simp add: dir_names_def)

lemma sorted_dir_names [simp]: "sorted (dir_names w d)"
  by (simp add: dir_names_def)

text \<open>Only which names a directory has matters for its listing.\<close>

lemma dir_names_cong:
  "(\<And>n. stat w (d @ [n]) = None \<longleftrightarrow> stat w' (d @ [n]) = None) \<Longrightarrow> dir_names w d = dir_names w' d"
  by (rule sorted_distinct_set_unique) (simp_all add: set_dir_names)

section \<open>Changing files and directories\<close>

text \<open>\<^verbatim>\<open>os.OpenFile\<close> with \<^verbatim>\<open>O_CREATE|O_EXCL\<close>: the file must be new and its directory must exist.\<close>

definition os_CreateExcl :: "sys \<Rightarrow> path \<Rightarrow> (err + unit) \<times> sys" where
  "os_CreateExcl w p =
     (if stat w p \<noteq> None then (Inl ErrExist, w)
      else if stat w (butlast p) \<noteq> Some Dir then (Inl ErrNotExist, w)
      else (Inr (), put p (File []) w))"

text \<open>\<^verbatim>\<open>os.WriteFile\<close>: create or replace the whole contents.\<close>

definition os_WriteFile :: "sys \<Rightarrow> path \<Rightarrow> bytes \<Rightarrow> (err + unit) \<times> sys" where
  "os_WriteFile w p b =
     (if stat w p = Some Dir then (Inl ErrIsDir, w)
      else if stat w (butlast p) \<noteq> Some Dir then (Inl ErrNotExist, w)
      else (Inr (), put p (File b) w))"

text \<open>\<^verbatim>\<open>File.WriteAt\<close>: a gap before the offset is filled with zero bytes.\<close>

definition write_at :: "bytes \<Rightarrow> nat \<Rightarrow> bytes \<Rightarrow> bytes" where
  "write_at b off d = take off b @ replicate (off - length b) 0 @ d @ drop (off + length d) b"

definition file_WriteAt :: "sys \<Rightarrow> path \<Rightarrow> bytes \<Rightarrow> nat \<Rightarrow> (err + unit) \<times> sys" where
  "file_WriteAt w p d off = (case os_ReadFile w p of
     Inl e \<Rightarrow> (Inl e, w)
   | Inr b \<Rightarrow> (Inr (), put p (File (write_at b off d)) w))"

definition file_Truncate :: "sys \<Rightarrow> path \<Rightarrow> nat \<Rightarrow> (err + unit) \<times> sys" where
  "file_Truncate w p n = (case os_ReadFile w p of
     Inl e \<Rightarrow> (Inl e, w)
   | Inr b \<Rightarrow> (Inr (), put p (File (take n b @ replicate (n - length b) 0)) w))"

lemma write_at_end [simp]: "write_at b (length b) d = b @ d"
  by (simp add: write_at_def)

text \<open>\<^verbatim>\<open>os.MkdirAll\<close>: every missing ancestor is made; a plain file on the way is an error.\<close>

fun mkdir_steps :: "sys \<Rightarrow> path \<Rightarrow> path \<Rightarrow> (err + unit) \<times> sys" where
  "mkdir_steps w pre [] = (Inr (), w)"
| "mkdir_steps w pre (c # cs) = (case stat w (pre @ [c]) of
     Some (File _) \<Rightarrow> (Inl ErrNotDir, w)
   | Some Dir \<Rightarrow> mkdir_steps w (pre @ [c]) cs
   | None \<Rightarrow> mkdir_steps (put (pre @ [c]) Dir w) (pre @ [c]) cs)"

definition os_MkdirAll :: "sys \<Rightarrow> path \<Rightarrow> (err + unit) \<times> sys" where
  "os_MkdirAll w p = mkdir_steps w [] p"

text \<open>\<^verbatim>\<open>os.Remove\<close> takes a file or an empty directory; \<^verbatim>\<open>os.RemoveAll\<close> a whole subtree, and succeeds on nothing.\<close>

definition os_Remove :: "sys \<Rightarrow> path \<Rightarrow> (err + unit) \<times> sys" where
  "os_Remove w p = (case stat w p of
     None \<Rightarrow> (Inl ErrNotExist, w)
   | Some (File _) \<Rightarrow> (Inr (), del p w)
   | Some Dir \<Rightarrow> if p = [] \<or> dir_names w p \<noteq> [] then (Inl ErrNotEmpty, w) else (Inr (), del p w))"

definition os_RemoveAll :: "sys \<Rightarrow> path \<Rightarrow> (err + unit) \<times> sys" where
  "os_RemoveAll w p = (Inr (), w\<lparr>files := filter (\<lambda>(q, _). \<not> prefix p q) (files w)\<rparr>)"

text \<open>
  \<^verbatim>\<open>os.Rename\<close>: a plain file replaces a plain file at the target; a target that is a directory
  is refused, as Go does; a directory moves with everything below it.
\<close>

definition rebase :: "path \<Rightarrow> path \<Rightarrow> path \<Rightarrow> path" where
  "rebase src dst q = (if prefix src q then dst @ drop (length src) q else q)"

definition os_Rename :: "sys \<Rightarrow> path \<Rightarrow> path \<Rightarrow> (err + unit) \<times> sys" where
  "os_Rename w src dst = (case stat w src of
     None \<Rightarrow> (Inl ErrNotExist, w)
   | Some n \<Rightarrow>
       if stat w (butlast dst) \<noteq> Some Dir then (Inl ErrNotExist, w)
       else if stat w dst = Some Dir then (Inl ErrExist, w)
       else case n of
         File b \<Rightarrow> (Inr (), put dst (File b) (del src w))
       | Dir \<Rightarrow>
           if stat w dst \<noteq> None then (Inl ErrNotDir, w)
           else if prefix src dst then (Inl (ErrMsg ''invalid argument''), w)
           else (Inr (), w\<lparr>files := map (\<lambda>(q, m). (rebase src dst q, m)) (files w)\<rparr>))"

lemma os_ReadFile_put [simp]:
  "os_ReadFile (put p n w) q =
     (if q = p \<and> p \<noteq> [] then (case n of Dir \<Rightarrow> Inl ErrIsDir | File b \<Rightarrow> Inr b) else os_ReadFile w q)"
  by (auto simp: os_ReadFile_def stat_put)

lemma os_ReadFile_Inr: "os_ReadFile w p = Inr b \<longleftrightarrow> stat w p = Some (File b)"
  by (auto simp: os_ReadFile_def split: option.splits inode.splits)

lemma stat_RemoveAll:
  "p \<noteq> [] \<Longrightarrow> stat (snd (os_RemoveAll w p)) q = (if prefix p q then None else stat w q)"
proof -
  assume p: "p \<noteq> []"
  have "map_of (filter (\<lambda>(q, _). \<not> prefix p q) xs) q = (if prefix p q then None else map_of xs q)"
    for xs :: "(path \<times> inode) list"
    by (induction xs) auto
  with p show ?thesis by (auto simp: os_RemoveAll_def stat_def)
qed

text \<open>Where the directory is there already, \<^verbatim>\<open>MkdirAll\<close> does nothing.\<close>

definition dirs_above :: "sys \<Rightarrow> path \<Rightarrow> bool" where
  "dirs_above w p \<longleftrightarrow> (\<forall>q. prefix q p \<longrightarrow> stat w q = Some Dir)"

lemma mkdir_steps_noop:
  "(\<And>q. prefix q cs \<Longrightarrow> stat w (pre @ q) = Some Dir) \<Longrightarrow> mkdir_steps w pre cs = (Inr (), w)"
proof (induction cs arbitrary: pre)
  case Nil
  then show ?case by simp
next
  case (Cons c cs)
  have "stat w (pre @ [c]) = Some Dir" using Cons.prems [of "[c]"] by simp
  moreover have "mkdir_steps w (pre @ [c]) cs = (Inr (), w)"
  proof (rule Cons.IH)
    fix q assume "prefix q cs"
    then show "stat w ((pre @ [c]) @ q) = Some Dir" using Cons.prems [of "c # q"] by simp
  qed
  ultimately show ?case by simp
qed

lemma os_MkdirAll_noop: "dirs_above w p \<Longrightarrow> os_MkdirAll w p = (Inr (), w)"
  by (simp add: os_MkdirAll_def dirs_above_def mkdir_steps_noop)

end
