(* ===== verification/Xwal_Names.thy ===== *)
theory Xwal_Names
  imports Go_Strings Vfs
begin

text \<open>
  Names of the \<^verbatim>\<open>xwal\<close> layer: the encoding of a node key as a directory name and back
  (\<^verbatim>\<open>xwal/fsname.go\<close>), the number in a minted id (\<^verbatim>\<open>numSuffix\<close> of \<^verbatim>\<open>xwal/trunks.go\<close>), and the
  atomic replacement of a small file (\<^verbatim>\<open>writeSyncedFile\<close> of \<^verbatim>\<open>xwal/xwal.go\<close>). Whether the platform
  needs the encoding is the argument \<open>enc\<close>, the variable \<^verbatim>\<open>fsEncode\<close> of the source.
\<close>

section \<open>Node keys as directory names\<close>

definition fsReserved :: string where
  "fsReserved = ''<>:'' @ [CHR 34] @ ''|?*%''"

definition hex_upper :: "nat \<Rightarrow> char" where
  "hex_upper n = ''0123456789ABCDEF'' ! n"

definition fs_byte :: "char \<Rightarrow> string" where
  "fs_byte c =
     (if c \<in> set fsReserved then [CHR ''%'', hex_upper (of_char c div 16), hex_upper (of_char c mod 16)] else [c])"

definition fsName :: "bool \<Rightarrow> string \<Rightarrow> string" where
  "fsName enc key =
     (if \<not> enc \<or> \<not> ContainsAny key fsReserved then key else concat (map fs_byte key))"

definition fsNames :: "bool \<Rightarrow> string list \<Rightarrow> string list" where
  "fsNames enc keys = map (fsName enc) keys"

definition unhex :: "char \<Rightarrow> int" where
  "unhex c =
     (let n = (of_char c :: int) in
      if 48 \<le> n \<and> n \<le> 57 then n - 48
      else if 65 \<le> n \<and> n \<le> 70 then n - 65 + 10
      else -1)"

text \<open>The loop of \<^verbatim>\<open>keyName\<close>: an escape needs its two digits inside the name; anything else is itself.\<close>

fun unescape :: "string \<Rightarrow> string" where
  "unescape [] = []"
| "unescape (c # s) = (case s of
     a # b # r \<Rightarrow>
       if c = CHR ''%'' \<and> 0 \<le> unhex a \<and> 0 \<le> unhex b
       then char_of (16 * unhex a + unhex b) # unescape r
       else c # unescape s
   | _ \<Rightarrow> c # unescape s)"

definition keyName :: "bool \<Rightarrow> string \<Rightarrow> string" where
  "keyName enc name = (if \<not> enc \<or> CHR ''%'' \<notin> set name then name else unescape name)"

lemma unescape_plain: "c \<noteq> CHR ''%'' \<Longrightarrow> unescape (c # s) = c # unescape s"
  by (simp split: list.split)

lemma fs_byte_reserved:
  assumes "c \<in> set fsReserved"
  shows "\<exists>a b. fs_byte c = [CHR ''%'', a, b] \<and> 0 \<le> unhex a \<and> 0 \<le> unhex b \<and>
    char_of (16 * unhex a + unhex b) = c \<and> {a, b} \<inter> set fsReserved = {}"
  using assms by (auto simp: fsReserved_def fs_byte_def hex_upper_def unhex_def char_of_def)

lemma unescape_fs_byte: "unescape (fs_byte c @ s) = c # unescape s"
proof (cases "c \<in> set fsReserved")
  case True
  then show ?thesis using fs_byte_reserved [OF True] by auto
next
  case False
  then have "c \<noteq> CHR ''%''" by (auto simp: fsReserved_def)
  with False show ?thesis by (simp add: fs_byte_def unescape_plain del: unescape.simps)
qed

lemma unescape_encoded: "unescape (concat (map fs_byte key)) = key"
proof (induction key)
  case (Cons c key)
  then show ?case using unescape_fs_byte [of c "concat (map fs_byte key)"] by simp
qed simp

lemma encoded_has_percent:
  assumes "ContainsAny key fsReserved"
  shows "CHR ''%'' \<in> set (concat (map fs_byte key))"
proof -
  obtain c where "c \<in> set key" "c \<in> set fsReserved"
    using assms by (auto simp: ContainsAny_def list_ex_iff)
  then show ?thesis using fs_byte_reserved [of c] by force
qed

lemma keyName_fsName [simp]: "keyName enc (fsName enc key) = key"
proof -
  have "CHR ''%'' \<notin> set key" if "\<not> ContainsAny key fsReserved"
    using that by (auto simp: ContainsAny_def list_ex_iff fsReserved_def)
  then show ?thesis
    using encoded_has_percent [of key] by (simp add: fsName_def keyName_def unescape_encoded del: unescape.simps)
qed

lemma fsName_inj [simp]: "fsName enc a = fsName enc b \<longleftrightarrow> a = b"
  using keyName_fsName [of enc a] keyName_fsName [of enc b] by metis

lemma fsName_chars: "set (fsName True key) \<inter> (set fsReserved - {CHR ''%''}) = {}"
proof -
  have one: "set (fs_byte c) \<inter> (set fsReserved - {CHR ''%''}) = {}" for c
  proof (cases "c \<in> set fsReserved")
    case True
    then obtain a b where "fs_byte c = [CHR ''%'', a, b]" "{a, b} \<inter> set fsReserved = {}"
      using fs_byte_reserved by blast
    then show ?thesis by auto
  qed (simp add: fs_byte_def)
  show ?thesis
  proof (cases "ContainsAny key fsReserved")
    case True
    then show ?thesis using one by (auto simp: fsName_def)
  next
    case False
    then show ?thesis by (auto simp: fsName_def ContainsAny_def list_ex_iff)
  qed
qed

text \<open>C33: A node key survives the trip through a directory name. On either platform the key read back
  from the name a key was given is that key, a lineage of keys comes back element by element, two
  keys never share a directory, and on the platform that encodes, the name holds no reserved
  character except the escape itself; where it does not encode, the name is the key.\<close>

theorem fsname_roundtrip:
  "keyName enc (fsName enc key) = key \<and>
   map (keyName enc) (fsNames enc keys) = keys \<and>
   (fsName enc key = fsName enc key2 \<longleftrightarrow> key = key2) \<and>
   fsName False key = key \<and>
   set (fsName True key) \<inter> (set fsReserved - {CHR ''%''}) = {}"
proof -
  have "map (keyName enc) (fsNames enc keys) = keys" by (simp add: fsNames_def comp_def)
  then show ?thesis using fsName_chars by (simp add: fsName_def [of False])
qed

section \<open>The number of a minted id\<close>

text \<open>\<^verbatim>\<open>int\<close> is 64 bits wide and wraps around.\<close>

definition i64_wrap :: "int \<Rightarrow> int" where
  "i64_wrap n = (n + 2 ^ 63) mod 2 ^ 64 - 2 ^ 63"

abbreviation i64_max :: int where
  "i64_max \<equiv> 9223372036854775807"

text \<open>
  \<^verbatim>\<open>strconv.Itoa\<close> and \<^verbatim>\<open>strconv.Atoi\<close>: one optional sign, digits, and a value that fits.
\<close>

definition Itoa :: "int \<Rightarrow> string" where
  "Itoa n = (if n < 0 then CHR ''-'' # dec (nat (- n)) else dec (nat n))"

definition Atoi_digits :: "bool \<Rightarrow> string \<Rightarrow> err + int" where
  "Atoi_digits neg s =
     (if s = [] \<or> \<not> list_all is_digit s then Inl ErrSyntax
      else let n = (if neg then - int (dec_val s) else int (dec_val s)) in
        if - (2 ^ 63) \<le> n \<and> n \<le> i64_max then Inr n else Inl ErrRange)"

definition Atoi :: "string \<Rightarrow> err + int" where
  "Atoi s = (case s of
     [] \<Rightarrow> Inl ErrSyntax
   | c # r \<Rightarrow> if c = CHR ''-'' then Atoi_digits True r
              else if c = CHR ''+'' then Atoi_digits False r
              else Atoi_digits False s)"

definition numSuffix :: "string \<Rightarrow> char \<Rightarrow> int" where
  "numSuffix s pre =
     (if length s < 2 \<or> hd s \<noteq> pre then -1
      else case Atoi (tl s) of Inl _ \<Rightarrow> -1 | Inr n \<Rightarrow> n)"

lemma dec_hd: "is_digit (hd (dec n))"
  using dec_digits [of n] by (cases "dec n") auto

lemma Atoi_dec:
  assumes "int n \<le> i64_max"
  shows "Atoi (dec n) = Inr (int n)"
proof -
  obtain c r where cr: "dec n = c # r" using dec_nonempty [of n] by (cases "dec n") auto
  then have "is_digit c" using dec_hd [of n] by simp
  then have "c \<noteq> CHR ''-''" "c \<noteq> CHR ''+''" by (auto simp: is_digit_def)
  moreover have "Atoi_digits False (dec n) = Inr (int n)"
    using assms by (simp add: Atoi_digits_def dec_digits)
  ultimately show ?thesis unfolding cr by (simp add: Atoi_def)
qed

text \<open>The number of an id is the one it was minted with.\<close>

lemma numSuffix_minted:
  assumes "0 \<le> k" "k \<le> i64_max"
  shows "numSuffix (c # Itoa k) c = k"
proof -
  have "Atoi (Itoa k) = Inr k" using assms Atoi_dec [of "nat k"] by (simp add: Itoa_def)
  moreover have "Itoa k \<noteq> []" using assms by (simp add: Itoa_def)
  ultimately show ?thesis by (simp add: numSuffix_def)
qed

lemma i64_wrap_id: "- (2 ^ 63) \<le> n \<Longrightarrow> n \<le> i64_max \<Longrightarrow> i64_wrap n = n"
  by (simp add: i64_wrap_def)

section \<open>Replacing a small file\<close>

text \<open>
  \<^verbatim>\<open>os.CreateTemp\<close>: the first of the random names drawn that is free. The draws are an argument;
  when all of them are taken the call fails.
\<close>

definition os_CreateTemp :: "string list \<Rightarrow> sys \<Rightarrow> path \<Rightarrow> string \<Rightarrow> (err + path) \<times> sys" where
  "os_CreateTemp draws w dir pre =
     (case find (\<lambda>r. stat w (dir @ [pre @ r]) = None) draws of
        None \<Rightarrow> (Inl ErrExist, w)
      | Some r \<Rightarrow> (case os_CreateExcl w (dir @ [pre @ r]) of
            (Inl e, w1) \<Rightarrow> (Inl e, w1)
          | (Inr _, w1) \<Rightarrow> (Inr (dir @ [pre @ r]), w1)))"

text \<open>
  \<^verbatim>\<open>writeSyncedFile\<close>: the body goes to a fresh file beside the target, which a rename replaces; a
  failed write or rename removes the fresh file.
\<close>

definition writeSyncedFile :: "string list \<Rightarrow> sys \<Rightarrow> path \<Rightarrow> bytes \<Rightarrow> (err + unit) \<times> sys" where
  "writeSyncedFile draws w p body =
     (case os_CreateTemp draws w (butlast p) (CHR ''.'' # last p @ ''-'') of
        (Inl e, w1) \<Rightarrow> (Inl e, w1)
      | (Inr tmp, w1) \<Rightarrow> (case file_WriteAt w1 tmp body 0 of
            (Inl e, w2) \<Rightarrow> (Inl e, snd (os_Remove w2 tmp))
          | (Inr _, w2) \<Rightarrow> (case os_Rename w2 tmp p of
                (Inl e, w3) \<Rightarrow> (Inl e, snd (os_Remove w3 tmp))
              | (Inr _, w3) \<Rightarrow> (Inr (), w3))))"

text \<open>A draw that is free is enough for the replacement to succeed, and nothing else changes.\<close>

definition temp_free :: "string list \<Rightarrow> sys \<Rightarrow> path \<Rightarrow> bool" where
  "temp_free draws w p \<longleftrightarrow> list_ex (\<lambda>r. stat w (butlast p @ [CHR ''.'' # last p @ ''-'' @ r]) = None) draws"

lemma os_CreateTemp_ok:
  assumes "find (\<lambda>r. stat w (dir @ [pre @ r]) = None) draws = Some r" "stat w dir = Some Dir"
  shows "stat w (dir @ [pre @ r]) = None"
    "os_CreateTemp draws w dir pre = (Inr (dir @ [pre @ r]), put (dir @ [pre @ r]) (File []) w)"
proof -
  show "stat w (dir @ [pre @ r]) = None" using assms(1) by (auto simp: find_Some_iff)
  then show "os_CreateTemp draws w dir pre = (Inr (dir @ [pre @ r]), put (dir @ [pre @ r]) (File []) w)"
    using assms by (simp add: os_CreateTemp_def os_CreateExcl_def)
qed

lemma writeSyncedFile_ok:
  assumes p: "p \<noteq> []" and dir: "stat w (butlast p) = Some Dir" and "stat w p \<noteq> Some Dir"
    and draws: "temp_free draws w p"
  shows "\<exists>w'. writeSyncedFile draws w p body = (Inr (), w') \<and> stat w' = (stat w)(p \<mapsto> File body)"
proof -
  let ?pre = "CHR ''.'' # last p @ ''-''"
  obtain r where r: "find (\<lambda>r. stat w (butlast p @ [?pre @ r]) = None) draws = Some r"
    using draws by (cases "find (\<lambda>r. stat w (butlast p @ [?pre @ r]) = None) draws")
      (auto simp: find_None_iff temp_free_def list_ex_iff)
  then have new: "stat w (butlast p @ [?pre @ r]) = None" by (auto simp: find_Some_iff)
  define tmp where "tmp = butlast p @ [?pre @ r]"
  have pbl: "p = butlast p @ [last p]" using p by simp
  have "length (last tmp) > length (last p)" by (simp add: tmp_def)
  then have ne: "tmp \<noteq> p" "p \<noteq> tmp" by auto
  have tmp: "tmp \<noteq> []" "butlast tmp = butlast p" "stat w tmp = None" using new by (simp_all add: tmp_def)
  have ct: "os_CreateTemp draws w (butlast p) ?pre = (Inr tmp, put tmp (File []) w)"
    unfolding tmp_def using r dir by (rule os_CreateTemp_ok)
  have bl: "butlast p \<noteq> tmp"
    using dir tmp(3) by auto
  have wr: "file_WriteAt (put tmp (File []) w) tmp body 0 = (Inr (), put tmp (File body) (put tmp (File []) w))"
    using tmp(1) by (simp add: file_WriteAt_def write_at_def)
  define w2 where "w2 = put tmp (File body) (put tmp (File []) w)"
  have s2: "stat w2 = (stat w)(tmp \<mapsto> File body)" using tmp(1) by (auto simp: w2_def stat_put)
  have rn: "os_Rename w2 tmp p = (Inr (), put p (File body) (del tmp w2))"
    using assms(2,3) ne bl by (simp add: os_Rename_def s2)
  have "stat (put p (File body) (del tmp w2)) = (stat w)(p \<mapsto> File body)"
    using p ne tmp by (auto simp: stat_put stat_del s2)
  then show ?thesis using ct wr rn by (simp add: writeSyncedFile_def w2_def [symmetric])
qed

text \<open>A target that is a directory is refused and leaves no debris.\<close>

lemma writeSyncedFile_dir:
  assumes p: "p \<noteq> []" and dir: "stat w (butlast p) = Some Dir" and target: "stat w p = Some Dir"
  shows "\<exists>w' e. writeSyncedFile draws w p body = (Inl e, w') \<and> stat w' = stat w"
proof -
  let ?pre = "CHR ''.'' # last p @ ''-''"
  show ?thesis
  proof (cases "find (\<lambda>r. stat w (butlast p @ [?pre @ r]) = None) draws")
    case None
    then show ?thesis by (simp add: writeSyncedFile_def os_CreateTemp_def)
  next
    case (Some r)
    define tmp where "tmp = butlast p @ [?pre @ r]"
    have tmp: "tmp \<noteq> []" "butlast tmp = butlast p" "stat w tmp = None"
      using Some by (auto simp: tmp_def find_Some_iff)
    define w2 where "w2 = put tmp (File body) (put tmp (File []) w)"
    have s2: "stat w2 = (stat w)(tmp \<mapsto> File body)" using tmp(1) by (auto simp: w2_def stat_put)
    have ct: "os_CreateTemp draws w (butlast p) ?pre = (Inr tmp, put tmp (File []) w)"
      unfolding tmp_def using Some dir by (rule os_CreateTemp_ok)
    have wr: "file_WriteAt (put tmp (File []) w) tmp body 0 = (Inr (), w2)"
      using tmp(1) by (simp add: file_WriteAt_def write_at_def w2_def)
    have "tmp \<noteq> p" "butlast p \<noteq> tmp" using target tmp(3) dir by auto
    then have rn: "os_Rename w2 tmp p = (Inl ErrExist, w2)"
      using dir target by (simp add: os_Rename_def s2)
    have rm: "os_Remove w2 tmp = (Inr (), del tmp w2)" by (simp add: os_Remove_def s2)
    have "stat (del tmp w2) = stat w" using tmp by (auto simp: stat_del s2)
    then show ?thesis using ct wr rn rm by (simp add: writeSyncedFile_def)
  qed
qed

end
