(* ===== verification/Node_Index.thy ===== *)
theory Node_Index
  imports Xwal_Names "HOL-Library.AList"
begin

text \<open>
  The node and trunk index of the \<^verbatim>\<open>xwal\<close> layer (\<^verbatim>\<open>xwal/index.go\<close>, \<^verbatim>\<open>xwal/nodeinfo.go\<close>): which nodes there
  are, what each was forked from, where the live head of each trunk is, and the counters ids are
  minted from. The markers on disk are the ground truth; the index is rebuilt from them when a
  store is opened and patched in place when a node is spawned. A Go map is an association list with
  distinct keys, updated by \<^const>\<open>AList.update\<close>; what depends on the order Go iterates a map in is sorted by the
  code before it is returned.
\<close>

section \<open>Nodes and markers\<close>

record nodeInfo =
  ni_Trunk :: string
  ni_IsRoot :: bool
  ni_From :: string
  ni_Kind :: string

definition stumpName :: "string \<Rightarrow> nodeInfo option \<Rightarrow> string" where
  "stumpName key n = (case n of
     Some i \<Rightarrow> if ni_Kind i = ''loadout'' then key else '''' | None \<Rightarrow> '''')"

record nodeMarker =
  nm_from :: string
  nm_kind :: string
  nm_trunk :: string

abbreviation no_marker :: nodeMarker where
  "no_marker \<equiv> \<lparr>nm_from = '''', nm_kind = '''', nm_trunk = ''''\<rparr>"

definition nodeMarkerName :: string where
  "nodeMarkerName = ''.node''"

definition marker_body :: "nodeMarker \<Rightarrow> string" where
  "marker_body n = ''from='' @ nm_from n @ [CHR 10] @ ''kind='' @ nm_kind n @ [CHR 10] @
     ''trunk='' @ nm_trunk n @ [CHR 10]"

definition writeNodeMarker :: "string list \<Rightarrow> sys \<Rightarrow> path \<Rightarrow> nodeMarker \<Rightarrow> (err + unit) \<times> sys" where
  "writeNodeMarker draws w dir n =
     writeSyncedFile draws w (dir @ [nodeMarkerName]) (bytes_of (marker_body n))"

definition marker_line :: "nodeMarker \<Rightarrow> string \<Rightarrow> nodeMarker" where
  "marker_line n line = (case Cut (TrimSpace line) (CHR ''='') of
     None \<Rightarrow> n
   | Some (k, v) \<Rightarrow>
       if k = ''from'' then n\<lparr>nm_from := v\<rparr>
       else if k = ''kind'' then n\<lparr>nm_kind := v\<rparr>
       else if k = ''trunk'' then n\<lparr>nm_trunk := v\<rparr>
       else n)"

definition readNodeMarker :: "sys \<Rightarrow> path \<Rightarrow> nodeMarker \<times> bool" where
  "readNodeMarker w dir = (case os_ReadFile w (dir @ [nodeMarkerName]) of
     Inl _ \<Rightarrow> (no_marker, False)
   | Inr b \<Rightarrow> (foldl marker_line no_marker (Split (text_of b) (CHR 10)), True))"

section \<open>The index\<close>

record index =
  ix_nodes :: "(string \<times> nodeInfo) list"
  ix_heads :: "(string \<times> string) list"
  nodeSeq :: int
  trunkSeq :: int
  ix_version :: nat
  ix_rebuilds :: nat
  mintID :: "(string \<Rightarrow> string) option"

definition newIndex :: "(string \<Rightarrow> string) option \<Rightarrow> index" where
  "newIndex mint = \<lparr>ix_nodes = [], ix_heads = [], nodeSeq = 0, trunkSeq = 0, ix_version = 0,
     ix_rebuilds = 0, mintID = mint\<rparr>"

definition ix_Node :: "index \<Rightarrow> string \<Rightarrow> nodeInfo option" where
  "ix_Node x key = map_of (ix_nodes x) key"

definition ix_Head :: "index \<Rightarrow> string \<Rightarrow> string option" where
  "ix_Head x trunk = map_of (ix_heads x) trunk"

definition ix_All :: "index \<Rightarrow> (string \<times> nodeInfo) list" where
  "ix_All x = ix_nodes x"

text \<open>Reading a missing key of a Go map of strings gives the empty string.\<close>

definition LiveTrunks :: "index \<Rightarrow> string list" where
  "LiveTrunks x = (case mintID x of
     Some _ \<Rightarrow> sort (map fst (ix_heads x))
   | None \<Rightarrow> filter (\<lambda>t. ix_Head x t \<noteq> None \<and> ix_Head x t \<noteq> Some '''')
       (map (\<lambda>i. ''t'' @ Itoa (int i)) [0 ..< nat (trunkSeq x)]))"

definition ix_Version :: "index \<Rightarrow> nat" where
  "ix_Version x = ix_version x"

definition last_segment :: "string \<Rightarrow> string" where
  "last_segment key = rev (takeWhile (\<lambda>c. c \<noteq> CHR ''/'') (rev key))"

definition bumpSeqsLocked :: "string \<Rightarrow> string \<Rightarrow> index \<Rightarrow> index" where
  "bumpSeqsLocked key trunkID x =
     (let x1 = (if key \<noteq> '''' \<and> nodeSeq x < i64_wrap (numSuffix (last_segment key) (CHR ''n'') + 1)
                then x\<lparr>nodeSeq := i64_wrap (numSuffix (last_segment key) (CHR ''n'') + 1)\<rparr> else x)
      in if trunkSeq x1 < i64_wrap (numSuffix trunkID (CHR ''t'') + 1)
         then x1\<lparr>trunkSeq := i64_wrap (numSuffix trunkID (CHR ''t'') + 1)\<rparr> else x1)"

definition SpawnFlat :: "string \<Rightarrow> string \<Rightarrow> string \<Rightarrow> string \<Rightarrow> index \<Rightarrow> index" where
  "SpawnFlat parent child trunk kind x =
     (let x1 = x\<lparr>ix_nodes := AList.update child \<lparr>ni_Trunk = trunk, ni_IsRoot = False, ni_From = parent, ni_Kind = kind\<rparr> (ix_nodes x)\<rparr>;
          x2 = (if trunk \<noteq> '''' then x1\<lparr>ix_heads := AList.update trunk child (ix_heads x1)\<rparr> else x1);
          x3 = bumpSeqsLocked child trunk x2
      in x3\<lparr>ix_version := u64_add (ix_version x3) 1\<rparr>)"

definition ChildrenOf :: "index \<Rightarrow> string \<Rightarrow> string list" where
  "ChildrenOf x key = sort (map fst (filter (\<lambda>(k, n). ni_From n = key) (ix_nodes x)))"

text \<open>\<^verbatim>\<open>append(out[n.From], k)\<close> over the nodes, then every list of the result sorted.\<close>

definition child_add :: "(string \<times> string list) list \<Rightarrow> string \<times> nodeInfo \<Rightarrow> (string \<times> string list) list" where
  "child_add acc kn = (case kn of (k, n) \<Rightarrow>
     AList.update (ni_From n) ((case map_of acc (ni_From n) of None \<Rightarrow> [] | Some v \<Rightarrow> v) @ [k]) acc)"

definition ChildIndex :: "index \<Rightarrow> (string \<times> string list) list" where
  "ChildIndex x = map (\<lambda>(f, v). (f, sort v)) (foldl child_add [] (ix_nodes x))"

definition ix_Len :: "index \<Rightarrow> nat" where
  "ix_Len x = length (ix_nodes x)"

definition ParentOf :: "index \<Rightarrow> string \<Rightarrow> string" where
  "ParentOf x node = (case ix_Node x node of Some n \<Rightarrow> ni_From n | None \<Rightarrow> '''')"

definition MintNode :: "index \<Rightarrow> string \<times> index" where
  "MintNode x = (''n'' @ Itoa (nodeSeq x), x\<lparr>nodeSeq := i64_wrap (nodeSeq x + 1)\<rparr>)"

definition MintTrunk :: "string \<Rightarrow> index \<Rightarrow> string \<times> index" where
  "MintTrunk kind x = (case mintID x of
     Some mint \<Rightarrow> (mint kind, x)
   | None \<Rightarrow> (''t'' @ Itoa (trunkSeq x), x\<lparr>trunkSeq := i64_wrap (trunkSeq x + 1)\<rparr>))"

definition addLocked :: "sys \<Rightarrow> path \<Rightarrow> string \<Rightarrow> bool \<Rightarrow> index \<Rightarrow> (err + unit) \<times> index" where
  "addLocked w dir key isRoot x =
     (let (n0, ok) = readNodeMarker w dir in
      if \<not> ok \<and> \<not> isRoot then (Inr (), x)
      else
        let n = (if isRoot then n0\<lparr>nm_kind := ''null''\<rparr> else n0);
            x1 = x\<lparr>ix_nodes := AList.update key \<lparr>ni_Trunk = nm_trunk n, ni_IsRoot = isRoot,
                   ni_From = nm_from n, ni_Kind = nm_kind n\<rparr> (ix_nodes x)\<rparr>;
            x2 = bumpSeqsLocked key (nm_trunk n) x1
        in if nm_trunk n = '''' then (Inr (), x2)
           else case ix_Head x2 (nm_trunk n) of
             Some _ \<Rightarrow> (Inl (ErrMsg ''multiple live heads''), x2)
           | None \<Rightarrow> (Inr (), x2\<lparr>ix_heads := AList.update (nm_trunk n) key (ix_heads x2)\<rparr>))"

fun add_entries :: "bool \<Rightarrow> sys \<Rightarrow> path \<Rightarrow> (string \<times> bool) list \<Rightarrow> index \<Rightarrow> (err + unit) \<times> index" where
  "add_entries enc w mainDir [] x = (Inr (), x)"
| "add_entries enc w mainDir ((name, isDir) # es) x =
     (if \<not> isDir \<or> HasPrefix name ''.'' then add_entries enc w mainDir es x
      else sbind (addLocked w (mainDir @ [name]) (keyName enc name) False x)
        (\<lambda>_ x1. add_entries enc w mainDir es x1))"

definition ix_reset :: "index \<Rightarrow> index" where
  "ix_reset x = x\<lparr>ix_rebuilds := u64_add (ix_rebuilds x) 1, ix_nodes := [], ix_heads := [],
     nodeSeq := 0, trunkSeq := 0\<rparr>"

definition RebuildFrom :: "bool \<Rightarrow> sys \<Rightarrow> path \<Rightarrow> index \<Rightarrow> (err + unit) \<times> index" where
  "RebuildFrom enc w mainDir x =
     sbind (addLocked w mainDir '''' True (ix_reset x)) (\<lambda>_ x1.
     sbind (lift_res (os_ReadDir w mainDir) x1) (\<lambda>ents x1.
     sbind (add_entries enc w mainDir ents x1) (\<lambda>_ x2.
     (Inr (), x2\<lparr>ix_version := u64_add (ix_version x2) 1\<rparr>))))"

section \<open>Markers round-trip\<close>

text \<open>
  A value keeps its identity in a marker when it holds no line break and does not end in white
  space: a marker line is trimmed as a whole before it is cut at the first equals sign.
\<close>

definition marker_text :: "string \<Rightarrow> bool" where
  "marker_text v \<longleftrightarrow> CHR 10 \<notin> set v \<and> list_all (\<lambda>e. \<not> suffix e v) spaces"

lemma spaces_no_equals: "e \<in> set spaces \<Longrightarrow> CHR ''='' \<notin> set e \<and> e \<noteq> []"
  by (auto simp: spaces_def)

lemma space_suffix:
  assumes "e \<in> set spaces" "suffix e (k @ CHR ''='' # v)"
  shows "suffix e v"
proof (rule ccontr)
  assume no: "\<not> suffix e v"
  have "suffix e ((k @ [CHR ''='']) @ v)" using assms(2) by simp
  then obtain e' where e': "e = e' @ v" "suffix e' (k @ [CHR ''=''])"
    using no unfolding suffix_append by blast
  then have "e' \<noteq> []" using no by auto
  then have "CHR ''='' \<in> set e'" using e'(2) by (auto simp: suffix_def append_eq_append_conv2 Cons_eq_append_conv)
  then show False using spaces_no_equals [OF assms(1)] e'(1) by auto
qed

lemma TrimSpace_line:
  assumes v: "marker_text v" and k: "k \<noteq> []" "plain (hd k)"
  shows "TrimSpace (k @ CHR ''='' # v) = k @ CHR ''='' # v"
proof -
  have "trim_with spaces (k @ CHR ''='' # v) = k @ CHR ''='' # v"
  proof (rule trim_with_id)
    fix e assume e: "e \<in> set spaces" "e \<noteq> []"
    then have "\<not> plain (hd e)" using spaces_not_plain by blast
    then show "\<not> prefix e (k @ CHR ''='' # v)" using k e(2) by (cases k; cases e) auto
  qed
  moreover have "trim_with (map rev spaces) (rev (k @ CHR ''='' # v)) = rev (k @ CHR ''='' # v)"
  proof (rule trim_with_id)
    fix e assume e: "e \<in> set (map rev spaces)" "e \<noteq> []"
    then obtain e' where e': "e = rev e'" "e' \<in> set spaces" by auto
    have "\<not> suffix e' v" using v e'(2) by (auto simp: marker_text_def list_all_iff)
    then have "\<not> suffix e' (k @ CHR ''='' # v)" using space_suffix [OF e'(2)] by blast
    then show "\<not> prefix e (rev (k @ CHR ''='' # v))" unfolding e'(1) suffix_to_prefix [symmetric] .
  qed
  ultimately show ?thesis by (simp add: TrimSpace_def)
qed

lemma marker_line_key:
  assumes "marker_text v" "k \<noteq> []" "plain (hd k)" "CHR ''='' \<notin> set k"
  shows "Cut (TrimSpace (k @ CHR ''='' # v)) (CHR ''='') = Some (k, v)"
  using assms by (simp add: TrimSpace_line Cut_first)

lemma Split_line: "c \<notin> set a \<Longrightarrow> Split (a @ c # s) c = a # Split s c"
  by (induction a) auto

lemma marker_fold:
  assumes "marker_text (nm_from n)" "marker_text (nm_kind n)" "marker_text (nm_trunk n)"
  shows "foldl marker_line no_marker (Split (marker_body n) (CHR 10)) = n"
proof -
  let ?l = "\<lambda>k v. k @ CHR ''='' # (v :: string)"
  have "Split (marker_body n) (CHR 10) =
      [?l ''from'' (nm_from n), ?l ''kind'' (nm_kind n), ?l ''trunk'' (nm_trunk n), '''']"
  proof -
    have nl: "CHR 10 \<notin> set (?l ''from'' (nm_from n))" "CHR 10 \<notin> set (?l ''kind'' (nm_kind n))"
      "CHR 10 \<notin> set (?l ''trunk'' (nm_trunk n))" using assms by (auto simp: marker_text_def)
    have "marker_body n = ?l ''from'' (nm_from n) @ CHR 10 # ?l ''kind'' (nm_kind n) @ CHR 10 #
        ?l ''trunk'' (nm_trunk n) @ CHR 10 # ''''" by (simp add: marker_body_def)
    then show ?thesis using nl by (simp add: Split_line)
  qed
  moreover have "marker_line m (?l ''from'' (nm_from n)) = m\<lparr>nm_from := nm_from n\<rparr>"
    "marker_line m (?l ''kind'' (nm_kind n)) = m\<lparr>nm_kind := nm_kind n\<rparr>"
    "marker_line m (?l ''trunk'' (nm_trunk n)) = m\<lparr>nm_trunk := nm_trunk n\<rparr>" for m
    using marker_line_key [OF assms(1), of "''from''"] marker_line_key [OF assms(2), of "''kind''"]
      marker_line_key [OF assms(3), of "''trunk''"]
    by (simp_all add: marker_line_def plain_def)
  moreover have "marker_line m '''' = m" for m
    by (simp add: marker_line_def TrimSpace_def trim_with_id spaces_def Cut_def)
  ultimately show ?thesis by simp
qed

lemma readNodeMarker_written:
  assumes "marker_text (nm_from n)" "marker_text (nm_kind n)" "marker_text (nm_trunk n)"
    and "stat w (dir @ [nodeMarkerName]) = Some (File (bytes_of (marker_body n)))"
  shows "readNodeMarker w dir = (n, True)"
  using assms by (simp add: readNodeMarker_def os_ReadFile_def marker_fold del: bytes_of_simps)

text \<open>C31: A node marker is committed whole. Writing a node's marker into its directory succeeds, and
  reading it back gives the same lineage, kind and trunk, for all values without a line break or
  trailing white space; nothing else in the file system changes, the temporary file included.\<close>

theorem node_marker_roundtrip:
  assumes "marker_text (nm_from n)" "marker_text (nm_kind n)" "marker_text (nm_trunk n)"
    and "stat w dir = Some Dir" "stat w (dir @ [nodeMarkerName]) \<noteq> Some Dir"
    and "temp_free draws w (dir @ [nodeMarkerName])"
  shows "\<exists>w'. writeNodeMarker draws w dir n = (Inr (), w') \<and> readNodeMarker w' dir = (n, True) \<and>
    (\<forall>q. q = dir @ [nodeMarkerName] \<or> stat w' q = stat w q)"
proof -
  obtain w' where "writeNodeMarker draws w dir n = (Inr (), w')"
    and st: "stat w' = (stat w)(dir @ [nodeMarkerName] \<mapsto> File (bytes_of (marker_body n)))"
    using writeSyncedFile_ok [of "dir @ [nodeMarkerName]" w draws "bytes_of (marker_body n)"] assms
    by (auto simp: writeNodeMarker_def simp del: bytes_of_simps)
  moreover have "readNodeMarker w' dir = (n, True)"
    by (rule readNodeMarker_written) (simp_all add: assms st)
  ultimately show ?thesis by (auto simp: st)
qed

theorem node_marker_roundtrip_witness:
  "\<exists>w'. writeNodeMarker [''7''] \<lparr>files = [([''main''], Dir)], cacheLimit = 0\<rparr> [''main'']
       \<lparr>nm_from = ''n0'', nm_kind = ''conversation'', nm_trunk = ''t1''\<rparr> = (Inr (), w') \<and>
     readNodeMarker w' [''main''] = (\<lparr>nm_from = ''n0'', nm_kind = ''conversation'', nm_trunk = ''t1''\<rparr>, True)"
  using node_marker_roundtrip [of "\<lparr>nm_from = ''n0'', nm_kind = ''conversation'', nm_trunk = ''t1''\<rparr>"
      "\<lparr>files = [([''main''], Dir)], cacheLimit = 0\<rparr>" "[''main'']" "[''7'']"]
  by (auto simp: marker_text_def spaces_def suffix_def stat_def temp_free_def nodeMarkerName_def
      append_eq_Cons_conv Cons_eq_append_conv)

section \<open>What the counters and the maps keep\<close>

definition node_number :: "string \<Rightarrow> int" where
  "node_number key = i64_wrap (numSuffix (last_segment key) (CHR ''n'') + 1)"

definition trunk_number :: "string \<Rightarrow> int" where
  "trunk_number t = i64_wrap (numSuffix t (CHR ''t'') + 1)"

text \<open>
  Every node's number is below the counter, every trunk's too, and every head is a node of the
  index that carries that trunk.
\<close>

definition index_ok :: "index \<Rightarrow> bool" where
  "index_ok x \<longleftrightarrow>
     (\<forall>k n. map_of (ix_nodes x) k = Some n \<longrightarrow>
        (k \<noteq> '''' \<longrightarrow> node_number k \<le> nodeSeq x) \<and> trunk_number (ni_Trunk n) \<le> trunkSeq x) \<and>
     (\<forall>t k. map_of (ix_heads x) t = Some k \<longrightarrow>
        t \<noteq> '''' \<and> (\<exists>n. map_of (ix_nodes x) k = Some n \<and> ni_Trunk n = t)) \<and>
     0 \<le> nodeSeq x \<and> 0 \<le> trunkSeq x \<and>
     distinct (map fst (ix_nodes x)) \<and> distinct (map fst (ix_heads x))"

lemma bumpSeqs_eq:
  "bumpSeqsLocked key t x =
     x\<lparr>nodeSeq := (if key = '''' then nodeSeq x else max (nodeSeq x) (node_number key)),
       trunkSeq := max (trunkSeq x) (trunk_number t)\<rparr>"
  by (simp add: bumpSeqsLocked_def node_number_def trunk_number_def max_def)

lemma i64_wrap_range: "- (2 ^ 63) \<le> i64_wrap n" "i64_wrap n \<le> i64_max"
  by (simp_all add: i64_wrap_def)

definition with_node :: "string \<Rightarrow> nodeInfo \<Rightarrow> index \<Rightarrow> index" where
  "with_node key n x = bumpSeqsLocked key (ni_Trunk n) (x\<lparr>ix_nodes := AList.update key n (ix_nodes x)\<rparr>)"

definition with_head :: "string \<Rightarrow> string \<Rightarrow> index \<Rightarrow> index" where
  "with_head t key x = (if t = '''' then x else x\<lparr>ix_heads := AList.update t key (ix_heads x)\<rparr>)"

lemma with_node_simps [simp]:
  "map_of (ix_nodes (with_node key n x)) = (map_of (ix_nodes x))(key \<mapsto> n)"
  "ix_heads (with_node key n x) = ix_heads x"
  "nodeSeq (with_node key n x) = (if key = '''' then nodeSeq x else max (nodeSeq x) (node_number key))"
  "trunkSeq (with_node key n x) = max (trunkSeq x) (trunk_number (ni_Trunk n))"
  "map fst (ix_nodes (with_node key n x)) = map fst (AList.update key n (ix_nodes x))"
  by (simp_all add: with_node_def bumpSeqs_eq update_conv')

lemma with_head_simps [simp]:
  "ix_nodes (with_head t key x) = ix_nodes x" "nodeSeq (with_head t key x) = nodeSeq x"
  "trunkSeq (with_head t key x) = trunkSeq x"
  "map_of (ix_heads (with_head t key x)) = (if t = '''' then map_of (ix_heads x) else (map_of (ix_heads x))(t \<mapsto> key))"
  by (simp_all add: with_head_def update_conv')

text \<open>A node that is new, and the head it becomes, keep the invariant.\<close>

lemma index_ok_node:
  assumes ok: "index_ok x" and new: "map_of (ix_nodes x) key = None"
  shows "index_ok (with_node key n x)"
proof -
  have "distinct (map fst (AList.update key n (ix_nodes x)))"
    using ok by (simp add: index_ok_def distinct_update)
  moreover have "\<exists>n'. ((map_of (ix_nodes x))(key \<mapsto> n)) k = Some n' \<and> ni_Trunk n' = t"
    if "map_of (ix_heads x) t = Some k" for t k
    using ok that new unfolding index_ok_def by (cases "k = key") fastforce+
  ultimately show ?thesis using ok unfolding index_ok_def
    by (auto simp: le_max_iff_disj)
qed

lemma index_ok_head:
  assumes ok: "index_ok x" and n: "map_of (ix_nodes x) key = Some n" "ni_Trunk n = t"
  shows "index_ok (with_head t key x)"
proof (cases "t = ''''")
  case False
  have "distinct (map fst (AList.update t key (ix_heads x)))"
    using ok by (simp add: index_ok_def distinct_update)
  moreover have "t' \<noteq> '''' \<and> (\<exists>n. map_of (ix_nodes x) k = Some n \<and> ni_Trunk n = t')"
    if "((map_of (ix_heads x))(t \<mapsto> key)) t' = Some k" for t' k
    using ok that n False unfolding index_ok_def by (cases "t' = t") (auto simp del: map_of_eq_Some_iff)
  ultimately show ?thesis using ok False unfolding index_ok_def
    by (simp add: with_head_def update_conv' del: map_of_eq_Some_iff)
qed (use ok in \<open>simp add: with_head_def\<close>)

lemma SpawnFlat_eq:
  "SpawnFlat parent child trunk kind x =
     (let y = with_head trunk child (with_node child \<lparr>ni_Trunk = trunk, ni_IsRoot = False, ni_From = parent, ni_Kind = kind\<rparr> x)
      in y\<lparr>ix_version := u64_add (ix_version y) 1\<rparr>)"
  by (simp add: SpawnFlat_def with_head_def with_node_def bumpSeqs_eq Let_def)

lemma index_ok_version [simp]: "index_ok (x\<lparr>ix_version := v\<rparr>) = index_ok x"
  by (simp add: index_ok_def)

lemma index_ok_spawn:
  assumes "index_ok x" "map_of (ix_nodes x) child = None"
  shows "index_ok (SpawnFlat parent child trunk kind x)"
  using index_ok_head [OF index_ok_node [OF assms]] by (simp add: SpawnFlat_eq Let_def)

lemma addLocked_eq:
  "addLocked w dir key isRoot x =
     (let (n0, ok) = readNodeMarker w dir;
          n = \<lparr>ni_Trunk = nm_trunk n0, ni_IsRoot = isRoot, ni_From = nm_from n0,
               ni_Kind = (if isRoot then ''null'' else nm_kind n0)\<rparr>
      in if \<not> ok \<and> \<not> isRoot then (Inr (), x)
         else if nm_trunk n0 \<noteq> '''' \<and> map_of (ix_heads x) (nm_trunk n0) \<noteq> None
         then (Inl (ErrMsg ''multiple live heads''), with_node key n x)
         else (Inr (), with_head (nm_trunk n0) key (with_node key n x)))"
  by (auto simp: addLocked_def with_node_def with_head_def ix_Head_def bumpSeqs_eq Let_def
      split: prod.splits option.splits)

lemma index_ok_addLocked:
  assumes "index_ok x" "map_of (ix_nodes x) key = None" "addLocked w dir key isRoot x = (r, x')"
  shows "index_ok x'" "dom (map_of (ix_nodes x')) \<subseteq> insert key (dom (map_of (ix_nodes x)))"
proof -
  note node = index_ok_node [OF assms(1,2)]
  obtain n0 ok where m: "readNodeMarker w dir = (n0, ok)" by force
  define n where "n = \<lparr>ni_Trunk = nm_trunk n0, ni_IsRoot = isRoot, ni_From = nm_from n0,
    ni_Kind = (if isRoot then ''null'' else nm_kind n0)\<rparr>"
  have "x' = x \<or> x' = with_node key n x \<or> x' = with_head (nm_trunk n0) key (with_node key n x)"
    using assms(3) by (auto simp: addLocked_eq m n_def Let_def split: if_splits)
  moreover have "index_ok (with_head (nm_trunk n0) key (with_node key n x))"
    by (rule index_ok_head [OF node]) (simp, simp add: n_def)
  ultimately show "index_ok x'" using assms(1) node by metis
  show "dom (map_of (ix_nodes x')) \<subseteq> insert key (dom (map_of (ix_nodes x)))"
    using \<open>x' = x \<or> _\<close> by (auto simp del: map_of_eq_Some_iff)
qed

lemma index_ok_add_entries:
  assumes "index_ok x" "distinct (map (keyName enc \<circ> fst) es)"
    and "\<And>e. e \<in> set es \<Longrightarrow> map_of (ix_nodes x) (keyName enc (fst e)) = None"
    and "add_entries enc w d es x = (r, x')"
  shows "index_ok x'"
  using assms
proof (induction es arbitrary: x)
  case (Cons e es)
  obtain name isDir where e: "e = (name, isDir)" by force
  show ?case
  proof (cases "\<not> isDir \<or> HasPrefix name ''.''")
    case True
    then show ?thesis using Cons e by simp
  next
    case False
    obtain r1 x1 where a: "addLocked w (d @ [name]) (keyName enc name) False x = (r1, x1)" by force
    have x1: "index_ok x1" "dom (map_of (ix_nodes x1)) \<subseteq> insert (keyName enc name) (dom (map_of (ix_nodes x)))"
      using index_ok_addLocked [OF Cons.prems(1) _ a] Cons.prems(3) [of e] e by simp_all
    show ?thesis
    proof (cases r1)
      case (Inr u)
      have "map_of (ix_nodes x1) (keyName enc (fst e')) = None" if "e' \<in> set es" for e'
      proof -
        have "keyName enc (fst e') \<noteq> keyName enc name" using Cons.prems(2) that e by (auto simp: image_iff)
        then show ?thesis using x1(2) Cons.prems(3) [of e'] that by (auto simp del: map_of_eq_Some_iff)
      qed
      then show ?thesis using Cons.IH [OF x1(1)] Cons.prems(2,4) False a Inr e by simp
    qed (use Cons.prems(4) False a e x1(1) in auto)
  qed
qed simp

text \<open>
  The names of the main directory are what the program gives its nodes: encodings of keys. Off the
  platform that encodes, every name is.
\<close>

definition proper_names :: "bool \<Rightarrow> sys \<Rightarrow> path \<Rightarrow> bool" where
  "proper_names enc w d \<longleftrightarrow> list_all (\<lambda>n. n \<noteq> '''' \<and> fsName enc (keyName enc n) = n) (dir_names w d)"

lemma proper_keys:
  assumes "proper_names enc w d" "os_ReadDir w d = Inr es"
  shows "distinct (map (keyName enc \<circ> fst) es)" "\<And>e. e \<in> set es \<Longrightarrow> keyName enc (fst e) \<noteq> ''''"
proof -
  have es: "map fst es = dir_names w d"
    using assms(2) by (auto simp: os_ReadDir_def comp_def split: option.splits inode.splits)
  have "inj_on (keyName enc) (set (dir_names w d))"
    using assms(1) by (intro inj_on_inverseI [where g = "fsName enc"]) (simp add: proper_names_def list_all_iff)
  moreover have "map (keyName enc \<circ> fst) es = map (keyName enc) (dir_names w d)" by (simp add: es [symmetric])
  ultimately show "distinct (map (keyName enc \<circ> fst) es)" by (simp add: distinct_map)
  fix e assume "e \<in> set es"
  then have e: "fst e \<in> set (dir_names w d)" unfolding es [symmetric] by simp
  show "keyName enc (fst e) \<noteq> ''''"
  proof
    assume "keyName enc (fst e) = ''''"
    moreover have "fsName enc '''' = ''''" by (simp add: fsName_def ContainsAny_def)
    ultimately show False using assms(1) e by (auto simp: proper_names_def list_all_iff)
  qed
qed

lemma index_ok_RebuildFrom:
  assumes "proper_names enc w d" "RebuildFrom enc w d x0 = (r, x')"
  shows "index_ok x'"
proof -
  let ?x = "ix_reset x0"
  have x: "index_ok ?x" "ix_nodes ?x = []" by (simp_all add: ix_reset_def index_ok_def)
  obtain r1 x1 where a: "addLocked w d '''' True ?x = (r1, x1)" by force
  have x1: "index_ok x1" "dom (map_of (ix_nodes x1)) \<subseteq> {''''}"
    using index_ok_addLocked [OF x(1) _ a] x(2) by simp_all
  show ?thesis
  proof (cases r1)
    case (Inl e)
    then show ?thesis using assms(2) a x1 by (simp add: RebuildFrom_def)
  next
    case r1: (Inr u)
    show ?thesis
    proof (cases "os_ReadDir w d")
      case (Inl e)
      then show ?thesis using assms(2) a r1 x1 by (simp add: RebuildFrom_def)
    next
      case (Inr es)
      obtain r2 x2 where b: "add_entries enc w d es x1 = (r2, x2)" by force
      have "map_of (ix_nodes x1) (keyName enc (fst e)) = None" if "e \<in> set es" for e
        using x1(2) proper_keys(2) [OF assms(1) Inr that] by (auto simp del: map_of_eq_Some_iff)
      then have "index_ok x2"
        using index_ok_add_entries [OF x1(1) proper_keys(1) [OF assms(1) Inr] _ b] by blast
      then show ?thesis
        using assms(2) a r1 Inr b by (cases r2) (auto simp: RebuildFrom_def)
    qed
  qed
qed

section \<open>Minting\<close>

lemma last_segment_minted: "CHR ''/'' \<notin> set s \<Longrightarrow> last_segment s = s"
proof -
  assume "CHR ''/'' \<notin> set s"
  then have "takeWhile (\<lambda>c. c \<noteq> CHR ''/'') (rev s) = rev s" by (subst takeWhile_eq_all_conv) auto
  then show ?thesis unfolding last_segment_def by (simp only: rev_rev_ident)
qed

lemma Itoa_no_slash: "CHR ''/'' \<notin> set (Itoa k)"
proof -
  have "CHR ''/'' \<notin> set (dec m)" for m
    using dec_digits [of m] by (auto simp: list_all_iff is_digit_def)
  then show ?thesis by (simp add: Itoa_def)
qed

lemma node_number_minted: "0 \<le> k \<Longrightarrow> k < i64_max \<Longrightarrow> node_number (''n'' @ Itoa k) = k + 1"
  by (simp add: node_number_def last_segment_minted Itoa_no_slash numSuffix_minted i64_wrap_id)

lemma trunk_number_minted: "0 \<le> k \<Longrightarrow> k < i64_max \<Longrightarrow> trunk_number (''t'' @ Itoa k) = k + 1"
  by (simp add: trunk_number_def numSuffix_minted i64_wrap_id)

lemma index_ok_seqs:
  assumes "index_ok x" "nodeSeq x \<le> a" "trunkSeq x \<le> b"
  shows "index_ok (x\<lparr>nodeSeq := a, trunkSeq := b\<rparr>)"
proof -
  have "(k \<noteq> '''' \<longrightarrow> node_number k \<le> a) \<and> trunk_number (ni_Trunk n) \<le> b"
    if "map_of (ix_nodes x) k = Some n" for k n
  proof -
    have "(k \<noteq> '''' \<longrightarrow> node_number k \<le> nodeSeq x) \<and> trunk_number (ni_Trunk n) \<le> trunkSeq x"
      using assms(1) that unfolding index_ok_def by blast
    then show ?thesis using assms(2,3) by auto
  qed
  then show ?thesis using assms unfolding index_ok_def by (simp del: map_of_eq_Some_iff)
qed

lemma index_ok_MintNode:
  assumes "index_ok x" "nodeSeq x < i64_max"
  shows "index_ok (snd (MintNode x))"
proof -
  have "0 \<le> nodeSeq x" using assms(1) by (simp add: index_ok_def)
  then show ?thesis
    using index_ok_seqs [OF assms(1), of "nodeSeq x + 1" "trunkSeq x"] assms(2)
    by (simp add: MintNode_def i64_wrap_id)
qed

lemma index_ok_MintTrunk:
  assumes "index_ok x" "trunkSeq x < i64_max"
  shows "index_ok (snd (MintTrunk kind x))"
proof -
  have "0 \<le> trunkSeq x" using assms(1) by (simp add: index_ok_def)
  then show ?thesis
    using index_ok_seqs [OF assms(1), of "nodeSeq x" "trunkSeq x + 1"] assms
    by (cases "mintID x") (simp_all add: MintTrunk_def i64_wrap_id)
qed

text \<open>
  What the store does with its index: rebuild it from any disk, with success or not, mint ids, and
  record a node it has not got. The counters are assumed not to run through all 64-bit integers.
\<close>

inductive index_step :: "bool \<Rightarrow> index \<Rightarrow> index \<Rightarrow> bool" for enc where
  rebuild: "proper_names enc w d \<Longrightarrow> RebuildFrom enc w d x = (r, x') \<Longrightarrow> index_step enc x x'"
| mint_node: "nodeSeq x < i64_max \<Longrightarrow> index_step enc x (snd (MintNode x))"
| mint_trunk: "trunkSeq x < i64_max \<Longrightarrow> index_step enc x (snd (MintTrunk kind x))"
| spawn: "ix_Node x child = None \<Longrightarrow> index_step enc x (SpawnFlat parent child trunk kind x)"

lemma index_step_ok: "index_step enc x y \<Longrightarrow> index_ok x \<Longrightarrow> index_ok y"
  by (induction rule: index_step.induct)
    (simp_all add: index_ok_RebuildFrom index_ok_MintNode index_ok_MintTrunk index_ok_spawn ix_Node_def)

lemma index_steps_ok: "(index_step enc)\<^sup>*\<^sup>* x y \<Longrightarrow> index_ok x \<Longrightarrow> index_ok y"
  by (induction rule: rtranclp_induct) (auto intro: index_step_ok)

lemma index_ok_new: "index_ok (newIndex mint)"
  by (simp add: index_ok_def newIndex_def)

lemma mintID_with [simp]: "mintID (with_node key n x) = mintID x" "mintID (with_head t key x) = mintID x"
  by (simp_all add: with_node_def with_head_def bumpSeqs_eq)

lemma mintID_addLocked: "mintID (snd (addLocked w dir key isRoot x)) = mintID x"
  by (auto simp: addLocked_eq Let_def split: prod.splits)

lemma mintID_add_entries: "mintID (snd (add_entries enc w d es x)) = mintID x"
proof (induction es arbitrary: x)
  case (Cons e es)
  obtain name isDir where e: "e = (name, isDir)" by force
  obtain r x1 where a: "addLocked w (d @ [name]) (keyName enc name) False x = (r, x1)" by force
  then have "mintID x1 = mintID x" using mintID_addLocked [of w "d @ [name]" "keyName enc name" False x] by simp
  then show ?case using Cons a e by (cases r) auto
qed simp

lemma mintID_RebuildFrom: "mintID (snd (RebuildFrom enc w d x)) = mintID x"
proof -
  obtain r x1 where a: "addLocked w d '''' True (ix_reset x) = (r, x1)" by force
  have x1: "mintID x1 = mintID x"
    using mintID_addLocked [of w d "''''" True "ix_reset x"] a by (simp add: ix_reset_def)
  have "mintID (snd (add_entries enc w d es x1)) = mintID x" for es
    using mintID_add_entries [of enc w d es x1] x1 by simp
  then show ?thesis using a x1
    by (auto simp: RebuildFrom_def sbind_def lift_res_def split: sum.splits)
qed

lemma mintID_steps: "(index_step enc)\<^sup>*\<^sup>* x y \<Longrightarrow> mintID y = mintID x"
proof (induction rule: rtranclp_induct)
  case (step y z)
  from step(2) have "mintID z = mintID y"
  proof (cases rule: index_step.cases)
    case (rebuild w d r)
    then show ?thesis using mintID_RebuildFrom [of enc w d y] by simp
  qed (auto simp: MintNode_def MintTrunk_def SpawnFlat_eq Let_def split: option.splits)
  with step show ?case by simp
qed simp

text \<open>C30: Minted ids are new. In every index the store can reach from the empty one by rebuilding,
  minting and spawning, the next node id is no node of the index and the next sequential trunk id
  neither has a head nor is carried by any node; a second id minted right after differs from the
  first. So a restart never reissues the id of a node or trunk that has a marker.\<close>

theorem minted_ids_fresh:
  assumes "(index_step enc)\<^sup>*\<^sup>* (newIndex None) x" "nodeSeq x < i64_max - 1" "trunkSeq x < i64_max - 1"
  shows "ix_Node x (fst (MintNode x)) = None \<and>
    ix_Head x (fst (MintTrunk kind x)) = None \<and>
    (\<forall>k n. ix_Node x k = Some n \<longrightarrow> ni_Trunk n \<noteq> fst (MintTrunk kind x)) \<and>
    fst (MintNode (snd (MintNode x))) \<noteq> fst (MintNode x) \<and>
    fst (MintTrunk kind (snd (MintTrunk kind x))) \<noteq> fst (MintTrunk kind x)"
proof -
  have ok: "index_ok x" using index_steps_ok [OF assms(1) index_ok_new] .
  have mint: "mintID x = None" using mintID_steps [OF assms(1)] by (simp add: newIndex_def)
  have pos: "0 \<le> nodeSeq x" "0 \<le> trunkSeq x" using ok by (simp_all add: index_ok_def)
  note number = node_number_minted [OF pos(1)] trunk_number_minted [OF pos(2)]
    node_number_minted [of "nodeSeq x + 1"] trunk_number_minted [of "trunkSeq x + 1"]
  have mn: "fst (MintNode x) = ''n'' @ Itoa (nodeSeq x)" "fst (MintTrunk kind x) = ''t'' @ Itoa (trunkSeq x)"
    by (simp_all add: MintNode_def MintTrunk_def mint)
  have mn2: "fst (MintNode (snd (MintNode x))) = ''n'' @ Itoa (nodeSeq x + 1)"
    "fst (MintTrunk kind (snd (MintTrunk kind x))) = ''t'' @ Itoa (trunkSeq x + 1)"
    using pos assms(2,3) by (simp_all add: MintNode_def MintTrunk_def mint i64_wrap_id)
  have bound: "node_number k \<le> nodeSeq x \<or> k = ''''" "trunk_number (ni_Trunk n) \<le> trunkSeq x"
    if "map_of (ix_nodes x) k = Some n" for k n
    using ok that unfolding index_ok_def by blast+
  have "map_of (ix_nodes x) (''n'' @ Itoa (nodeSeq x)) = None"
  proof (rule ccontr)
    assume "map_of (ix_nodes x) (''n'' @ Itoa (nodeSeq x)) \<noteq> None"
    then obtain n where "map_of (ix_nodes x) (''n'' @ Itoa (nodeSeq x)) = Some n" by blast
    from bound(1) [OF this] show False using number(1) assms(2) by simp
  qed
  moreover have carried: "ni_Trunk n \<noteq> ''t'' @ Itoa (trunkSeq x)" if "map_of (ix_nodes x) k = Some n" for k n
    using bound(2) [OF that] number(2) assms(3) by auto
  moreover have "map_of (ix_heads x) (''t'' @ Itoa (trunkSeq x)) = None"
  proof (rule ccontr)
    assume "map_of (ix_heads x) (''t'' @ Itoa (trunkSeq x)) \<noteq> None"
    then obtain k where "map_of (ix_heads x) (''t'' @ Itoa (trunkSeq x)) = Some k" by blast
    then obtain n where "map_of (ix_nodes x) k = Some n" "ni_Trunk n = ''t'' @ Itoa (trunkSeq x)"
      using ok unfolding index_ok_def by blast
    with carried show False by blast
  qed
  moreover have "''n'' @ Itoa (nodeSeq x + 1) \<noteq> ''n'' @ Itoa (nodeSeq x)"
    "''t'' @ Itoa (trunkSeq x + 1) \<noteq> ''t'' @ Itoa (trunkSeq x)"
    using number pos assms(2,3) by auto
  ultimately show ?thesis unfolding mn mn2 ix_Node_def ix_Head_def by blast
qed

definition spawned_index :: index where
  "spawned_index = SpawnFlat '''' ''n7'' ''t3'' ''conversation'' (newIndex None)"

theorem minted_ids_fresh_witness:
  "ix_Node spawned_index (fst (MintNode spawned_index)) = None \<and> fst (MintNode spawned_index) = ''n8'' \<and>
   ix_Head spawned_index (fst (MintTrunk '''' spawned_index)) = None \<and> fst (MintTrunk '''' spawned_index) = ''t4''"
proof -
  have "index_step True (newIndex None) spawned_index"
    unfolding spawned_index_def by (rule index_step.spawn) (simp add: ix_Node_def newIndex_def)
  then have "(index_step True)\<^sup>*\<^sup>* (newIndex None) spawned_index" by blast
  moreover have "nodeSeq spawned_index = 8" "trunkSeq spawned_index = 4" "mintID spawned_index = None"
    by code_simp+
  moreover have "Itoa 8 = ''8''" "Itoa 4 = ''4''" by code_simp+
  ultimately show ?thesis
    using minted_ids_fresh [of True spawned_index "''''"] by (simp add: MintNode_def MintTrunk_def)
qed

section \<open>Children\<close>

lemma map_of_child_add:
  "map_of (child_add acc (k, n)) f =
     (if f = ni_From n then Some ((case map_of acc f of None \<Rightarrow> [] | Some v \<Rightarrow> v) @ [k]) else map_of acc f)"
  by (simp add: child_add_def update_conv')

lemma map_of_child_fold:
  "map_of (foldl child_add acc ns) f =
     (let new = map fst (filter (\<lambda>(k, n). ni_From n = f) ns) in
      case map_of acc f of
        None \<Rightarrow> if new = [] then None else Some new
      | Some v \<Rightarrow> Some (v @ new))"
proof (induction ns arbitrary: acc)
  case Nil
  then show ?case by (simp split: option.splits)
next
  case (Cons kn ns)
  obtain k n where kn: "kn = (k, n)" by force
  show ?case
    unfolding kn foldl_Cons Cons.IH map_of_child_add
    by (auto simp: Let_def split: option.splits)
qed

text \<open>C32: The adjacency table agrees with the query it replaces. Looking a node up in the table of all
  children, built in one pass, gives exactly the sorted list the per-node query returns, and a node
  without children has no row.\<close>

theorem child_index_exact:
  "map_of (ChildIndex x) key = (if ChildrenOf x key = [] then None else Some (ChildrenOf x key))"
proof -
  have "map_of (map (\<lambda>(f, v). (f, sort v)) al) key = map_option sort (map_of al key)"
    for al :: "(string \<times> string list) list"
    by (induction al) auto
  moreover have "sort v = [] \<longleftrightarrow> v = []" for v :: "string list"
    by (metis length_0_conv length_sort)
  ultimately show ?thesis
    unfolding ChildIndex_def ChildrenOf_def by (simp add: map_of_child_fold Let_def)
qed

section \<open>The patched index is the rebuilt one\<close>

text \<open>
  Two indexes describe the same forest when they have the same nodes and heads; the counters of
  the one in memory may be ahead, by ids that were minted and never written.
\<close>

definition same_forest :: "index \<Rightarrow> index \<Rightarrow> bool" where
  "same_forest x y \<longleftrightarrow> map_of (ix_nodes x) = map_of (ix_nodes y) \<and> map_of (ix_heads x) = map_of (ix_heads y) \<and>
     nodeSeq x = nodeSeq y \<and> trunkSeq x = trunkSeq y"

definition behind :: "index \<Rightarrow> index \<Rightarrow> bool" where
  "behind x y \<longleftrightarrow> map_of (ix_nodes x) = map_of (ix_nodes y) \<and> map_of (ix_heads x) = map_of (ix_heads y) \<and>
     nodeSeq x \<le> nodeSeq y \<and> trunkSeq x \<le> trunkSeq y"

definition patch :: "string \<Rightarrow> nodeInfo \<Rightarrow> index \<Rightarrow> index" where
  "patch child n x = with_head (ni_Trunk n) child (with_node child n x)"

lemma patch_simps [simp]:
  "map_of (ix_nodes (patch child n x)) = (map_of (ix_nodes x))(child \<mapsto> n)"
  "map_of (ix_heads (patch child n x)) =
     (if ni_Trunk n = '''' then map_of (ix_heads x) else (map_of (ix_heads x))(ni_Trunk n \<mapsto> child))"
  "nodeSeq (patch child n x) = (if child = '''' then nodeSeq x else max (nodeSeq x) (node_number child))"
  "trunkSeq (patch child n x) = max (trunkSeq x) (trunk_number (ni_Trunk n))"
  by (simp_all add: patch_def)

text \<open>A node is added before or after the new child with the same outcome.\<close>

lemma add_patch:
  assumes add: "addLocked w dir key isRoot x = (Inr (), x')" and y: "same_forest y (patch child n x)"
    and new: "child \<notin> dom (map_of (ix_nodes x'))" "ni_Trunk n = '''' \<or> ni_Trunk n \<notin> dom (map_of (ix_heads x'))"
  shows "\<exists>y'. addLocked w dir key isRoot y = (Inr (), y') \<and> same_forest y' (patch child n x')"
proof -
  obtain m ok where m: "readNodeMarker w dir = (m, ok)" by force
  define i where "i = \<lparr>ni_Trunk = nm_trunk m, ni_IsRoot = isRoot, ni_From = nm_from m,
    ni_Kind = (if isRoot then ''null'' else nm_kind m)\<rparr>"
  show ?thesis
  proof (cases "\<not> ok \<and> \<not> isRoot")
    case True
    then show ?thesis using add y by (auto simp: addLocked_eq m)
  next
    case False
    then have x': "x' = with_head (nm_trunk m) key (with_node key i x)"
      and free: "nm_trunk m = '''' \<or> map_of (ix_heads x) (nm_trunk m) = None"
      using add by (auto simp: addLocked_eq m i_def Let_def split: if_splits)
    have other: "key \<noteq> child" "nm_trunk m = '''' \<or> ni_Trunk n = '''' \<or> nm_trunk m \<noteq> ni_Trunk n"
      using new by (auto simp: x' split: if_splits)
    have "nm_trunk m = '''' \<or> map_of (ix_heads y) (nm_trunk m) = None"
      using y free other by (auto simp: same_forest_def simp del: map_of_eq_Some_iff)
    then have "addLocked w dir key isRoot y = (Inr (), with_head (nm_trunk m) key (with_node key i y))"
      using False by (auto simp: addLocked_eq m i_def Let_def)
    moreover have "same_forest (with_head (nm_trunk m) key (with_node key i y)) (patch child n x')"
      using y other unfolding x' same_forest_def
      by (auto simp: i_def fun_upd_twist max.left_commute max.commute max.assoc)
    ultimately show ?thesis by blast
  qed
qed

lemma addLocked_grows:
  assumes "addLocked w dir key isRoot x = (r, x')"
  shows "dom (map_of (ix_nodes x)) \<subseteq> dom (map_of (ix_nodes x'))"
    "dom (map_of (ix_heads x)) \<subseteq> dom (map_of (ix_heads x'))"
  using assms by (auto simp: addLocked_eq Let_def split: prod.splits if_splits simp del: map_of_eq_Some_iff)

lemma add_entries_grows:
  assumes "add_entries enc w d es x = (r, x')"
  shows "dom (map_of (ix_nodes x)) \<subseteq> dom (map_of (ix_nodes x')) \<and>
    dom (map_of (ix_heads x)) \<subseteq> dom (map_of (ix_heads x'))"
  using assms
proof (induction es arbitrary: x)
  case (Cons e es)
  obtain name isDir where e: "e = (name, isDir)" by force
  obtain r1 x1 where a: "addLocked w (d @ [name]) (keyName enc name) False x = (r1, x1)" by force
  note g = addLocked_grows [OF a]
  show ?case
  proof (cases "\<not> isDir \<or> HasPrefix name ''.''")
    case True
    then show ?thesis using Cons e by simp
  next
    case False
    then show ?thesis using Cons.IH [of x1] Cons.prems a e g by (cases r1) (simp, simp, blast)
  qed
qed simp

lemma add_entries_patch:
  assumes "add_entries enc w d es x = (Inr (), x')" "same_forest y (patch child n x)"
    and "child \<notin> dom (map_of (ix_nodes x'))" "ni_Trunk n = '''' \<or> ni_Trunk n \<notin> dom (map_of (ix_heads x'))"
  shows "\<exists>y'. add_entries enc w d es y = (Inr (), y') \<and> same_forest y' (patch child n x')"
  using assms
proof (induction es arbitrary: x y)
  case (Cons e es)
  obtain name isDir where e: "e = (name, isDir)" by force
  show ?case
  proof (cases "\<not> isDir \<or> HasPrefix name ''.''")
    case True
    then show ?thesis using Cons e by simp
  next
    case False
    then obtain x1 where a: "addLocked w (d @ [name]) (keyName enc name) False x = (Inr (), x1)"
      and b: "add_entries enc w d es x1 = (Inr (), x')"
      using Cons.prems(1) e by (auto simp: sbind_eq_Inr)
    have "child \<notin> dom (map_of (ix_nodes x1))" "ni_Trunk n = '''' \<or> ni_Trunk n \<notin> dom (map_of (ix_heads x1))"
      using add_entries_grows [OF b] Cons.prems(3,4) by blast+
    then obtain y1 where y1: "addLocked w (d @ [name]) (keyName enc name) False y = (Inr (), y1)"
        "same_forest y1 (patch child n x1)"
      using add_patch [OF a Cons.prems(2)] by blast
    then show ?thesis using Cons.IH [OF b y1(2) Cons.prems(3,4)] False e by simp
  qed
qed simp

lemma add_entries_append:
  "add_entries enc w d (es @ fs) x = sbind (add_entries enc w d es x) (\<lambda>_. add_entries enc w d fs)"
proof (induction es arbitrary: x)
  case (Cons e es)
  obtain name isDir where e: "e = (name, isDir)" by force
  obtain r1 x1 where "addLocked w (d @ [name]) (keyName enc name) False x = (r1, x1)" by force
  then show ?case using Cons e by (cases r1) simp_all
qed simp

text \<open>A directory without a marker leaves no trace.\<close>

lemma add_entries_unmarked:
  assumes "\<not> snd (readNodeMarker w (d @ [nm]))"
  shows "add_entries enc w d (filter (\<lambda>e. fst e \<noteq> nm) es) x = add_entries enc w d es x"
proof (induction es arbitrary: x)
  case (Cons e es)
  obtain name isDir where e: "e = (name, isDir)" by force
  have "addLocked w (d @ [nm]) key False x = (Inr (), x)" for key
    using assms by (simp add: addLocked_def case_prod_beta Let_def)
  then show ?case using Cons e by (simp add: sbind_def split: sum.splits)
qed simp

lemma add_entries_cong:
  assumes "\<And>e. e \<in> set es \<Longrightarrow> readNodeMarker w (d @ [fst e]) = readNodeMarker w' (d @ [fst e])"
  shows "add_entries enc w d es x = add_entries enc w' d es x"
  using assms
proof (induction es arbitrary: x)
  case (Cons e es)
  obtain name isDir where e: "e = (name, isDir)" by force
  have "addLocked w (d @ [name]) key False x = addLocked w' (d @ [name]) key False x" for key
    using Cons.prems [of e] by (simp add: addLocked_def e)
  then show ?case using Cons e by (simp add: sbind_def split: sum.splits)
qed simp

lemma names_with_child:
  assumes "\<And>q. \<not> prefix (d @ [nm]) q \<Longrightarrow> stat w' q = stat w q" "stat w' (d @ [nm]) = Some Dir"
  shows "\<exists>as bs. dir_names w' d = as @ nm # bs \<and> as @ bs = filter (\<lambda>n. n \<noteq> nm) (dir_names w d)"
proof -
  have other: "stat w' (d @ [n]) = stat w (d @ [n])" if "n \<noteq> nm" for n
    using assms(1) [of "d @ [n]"] that by simp
  have "nm \<in> set (dir_names w' d)" using assms(2) by (simp add: set_dir_names)
  then obtain as bs where ab: "dir_names w' d = as @ nm # bs" by (meson split_list)
  have dist: "distinct (as @ nm # bs)" and srt: "sorted (as @ nm # bs)"
    using distinct_dir_names [of w' d] sorted_dir_names [of w' d] unfolding ab by blast+
  have "as @ bs = filter (\<lambda>n. n \<noteq> nm) (dir_names w d)"
  proof (rule sorted_distinct_set_unique)
    show "sorted (as @ bs)" using srt by (auto simp: sorted_append)
    show "distinct (as @ bs)" using dist by auto
    show "set (as @ bs) = set (filter (\<lambda>n. n \<noteq> nm) (dir_names w d))"
    proof -
      have "set (as @ bs) = set (dir_names w' d) - {nm}" using dist by (auto simp: ab)
      then show ?thesis using other by (auto simp: set_dir_names)
    qed
  qed (simp_all add: sorted_filter [where f = id, simplified])
  with ab show ?thesis by blast
qed

lemma marker_elsewhere:
  assumes "\<And>q. \<not> prefix (d @ [nm]) q \<Longrightarrow> stat w' q = stat w q"
  shows "n \<noteq> nm \<Longrightarrow> readNodeMarker w' (d @ [n]) = readNodeMarker w (d @ [n])"
    "nm \<noteq> nodeMarkerName \<Longrightarrow> readNodeMarker w' d = readNodeMarker w d"
  using assms [of "d @ [n, nodeMarkerName]"] assms [of "d @ [nodeMarkerName]"]
  by (simp_all add: readNodeMarker_def os_ReadFile_def)

lemma rebuild_with_child:
  assumes reb: "RebuildFrom enc w d x = (Inr (), x0)"
    and frame: "\<And>q. \<not> prefix (d @ [nm]) q \<Longrightarrow> stat w' q = stat w q" and dir: "stat w' (d @ [nm]) = Some Dir"
    and nm: "nm = fsName enc child" "\<not> HasPrefix nm ''.''"
    and unmarked: "\<not> snd (readNodeMarker w (d @ [nm]))"
    and marked: "readNodeMarker w' (d @ [nm]) = (\<lparr>nm_from = parent, nm_kind = kind, nm_trunk = trunk\<rparr>, True)"
    and new: "ix_Node x0 child = None" "trunk = '''' \<or> ix_Head x0 trunk = None"
  shows "\<exists>y. RebuildFrom enc w' d x = (Inr (), y) \<and>
    same_forest y (patch child \<lparr>ni_Trunk = trunk, ni_IsRoot = False, ni_From = parent, ni_Kind = kind\<rparr> x0)"
proof -
  let ?n = "\<lparr>ni_Trunk = trunk, ni_IsRoot = False, ni_From = parent, ni_Kind = kind\<rparr>"
  let ?ent = "\<lambda>w n. (n, stat w (d @ [n]) = Some Dir)"
  obtain x1 es x2 where x1: "addLocked w d '''' True (ix_reset x) = (Inr (), x1)"
    and es: "os_ReadDir w d = Inr es" and x2: "add_entries enc w d es x1 = (Inr (), x2)"
    and x0: "x0 = x2\<lparr>ix_version := u64_add (ix_version x2) 1\<rparr>"
    using reb by (auto simp: RebuildFrom_def sbind_eq_Inr lift_res_def)
  obtain as bs where ab: "dir_names w' d = as @ nm # bs" "as @ bs = filter (\<lambda>n. n \<noteq> nm) (dir_names w d)"
    using names_with_child [OF frame dir] by blast
  have ne: "n \<noteq> nm" if "n \<in> set (as @ bs)" for n using that unfolding ab(2) by simp
  have dirs: "stat w d = Some Dir" using es by (auto simp: os_ReadDir_def split: option.splits inode.splits)
  then have esw: "es = map (?ent w) (dir_names w d)" using es by (simp add: os_ReadDir_def)
  have "\<not> prefix (d @ [nm]) d" by (auto dest: prefix_length_le)
  then have es': "os_ReadDir w' d = Inr (map (?ent w') as @ (nm, True) # map (?ent w') bs)"
    using dirs dir by (simp add: os_ReadDir_def frame ab(1))
  have same: "?ent w' n = ?ent w n" "readNodeMarker w' (d @ [n]) = readNodeMarker w (d @ [n])"
    if "n \<in> set (as @ bs)" for n
    using frame [of "d @ [n]"] ne [OF that] marker_elsewhere(1) [OF frame] by auto
  have step: "add_entries enc w' d (map (?ent w') ns) z = add_entries enc w d (map (?ent w) ns) z"
    if "set ns \<subseteq> set (as @ bs)" for ns z
  proof -
    have "map (?ent w') ns = map (?ent w) ns" using same(1) that by (intro map_cong) auto
    moreover have "add_entries enc w' d (map (?ent w) ns) z = add_entries enc w d (map (?ent w) ns) z"
      using same(2) that by (intro add_entries_cong) auto
    ultimately show ?thesis by (simp only:)
  qed
  have "map (?ent w) (as @ bs) = filter (\<lambda>e. fst e \<noteq> nm) es"
    unfolding ab(2) esw by (simp add: filter_map comp_def)
  then have "add_entries enc w d (map (?ent w) as @ map (?ent w) bs) x1 = (Inr (), x2)"
    using add_entries_unmarked [OF unmarked, of enc es x1] x2 by simp
  then obtain xa where xa: "add_entries enc w d (map (?ent w) as) x1 = (Inr (), xa)"
    and xb: "add_entries enc w d (map (?ent w) bs) xa = (Inr (), x2)"
    by (auto simp: add_entries_append sbind_eq_Inr)
  have new2: "child \<notin> dom (map_of (ix_nodes x2))" "ni_Trunk ?n = '''' \<or> ni_Trunk ?n \<notin> dom (map_of (ix_heads x2))"
    using new by (auto simp: x0 ix_Node_def ix_Head_def simp del: map_of_eq_Some_iff)
  have "trunk = '''' \<or> map_of (ix_heads xa) trunk = None"
    using add_entries_grows [OF xb] new2(2) by auto
  then have "addLocked w' (d @ [nm]) child False xa = (Inr (), patch child ?n xa)"
    by (auto simp: addLocked_eq marked patch_def Let_def)
  moreover have "same_forest (patch child ?n xa) (patch child ?n xa)" by (simp add: same_forest_def)
  from add_entries_patch [OF xb this new2] obtain y where
    y: "add_entries enc w d (map (?ent w) bs) (patch child ?n xa) = (Inr (), y)" "same_forest y (patch child ?n x2)"
    by blast
  moreover have "keyName enc nm = child" using nm(1) by simp
  ultimately have "add_entries enc w' d (map (?ent w') as @ (nm, True) # map (?ent w') bs) x1 = (Inr (), y)"
    using xa nm(2) by (simp add: add_entries_append step)
  moreover have "nm \<noteq> nodeMarkerName" using nm(2) by (auto simp: nodeMarkerName_def HasPrefix_def)
  then have "addLocked w' d '''' True (ix_reset x) = (Inr (), x1)"
    using x1 marker_elsewhere(2) [OF frame] by (simp add: addLocked_def)
  ultimately have "RebuildFrom enc w' d x = (Inr (), y\<lparr>ix_version := u64_add (ix_version y) 1\<rparr>)"
    by (simp add: RebuildFrom_def es')
  then show ?thesis using y(2) by (auto simp: same_forest_def x0)
qed

text \<open>C29: Patching the index is rebuilding it. When the index in memory agrees with the markers on
  disk, and a child of a free key and a free trunk gets its directory and its marker, the walk over
  all markers succeeds and yields the same nodes and the same heads as recording the child in
  memory did, and counters no further than those in memory. An unfinished directory of that name,
  left by a crash before its marker was written, makes no difference.\<close>

theorem spawn_matches_rebuild:
  assumes "RebuildFrom enc w d x = (Inr (), x0)" "behind x0 x"
    and "\<forall>q. \<not> prefix (d @ [fsName enc child]) q \<longrightarrow> stat w1 q = stat w q"
    and "stat w1 (d @ [fsName enc child]) = Some Dir"
    and "stat w1 (d @ [fsName enc child, nodeMarkerName]) = None"
    and "temp_free draws w1 (d @ [fsName enc child, nodeMarkerName])"
    and "\<not> HasPrefix (fsName enc child) ''.''"
    and "\<not> snd (readNodeMarker w (d @ [fsName enc child]))"
    and "ix_Node x child = None" "trunk = '''' \<or> ix_Head x trunk = None"
    and "marker_text parent" "marker_text kind" "marker_text trunk"
    and "writeNodeMarker draws w1 (d @ [fsName enc child])
           \<lparr>nm_from = parent, nm_kind = kind, nm_trunk = trunk\<rparr> = (r, w2)"
  shows "r = Inr () \<and> (\<exists>x2. RebuildFrom enc w2 d x = (Inr (), x2) \<and>
    behind x2 (SpawnFlat parent child trunk kind x))"
proof -
  let ?nm = "fsName enc child" and ?m = "\<lparr>nm_from = parent, nm_kind = kind, nm_trunk = trunk\<rparr>"
  have "\<exists>w'. writeSyncedFile draws w1 (d @ [?nm, nodeMarkerName]) (bytes_of (marker_body ?m)) = (Inr (), w') \<and>
      stat w' = (stat w1)(d @ [?nm, nodeMarkerName] \<mapsto> File (bytes_of (marker_body ?m)))"
    using assms(4-6) by (intro writeSyncedFile_ok) (simp_all add: butlast_append)
  then have r: "r = Inr ()"
    and st: "stat w2 = (stat w1)(d @ [?nm, nodeMarkerName] \<mapsto> File (bytes_of (marker_body ?m)))"
    using assms(14) by (auto simp: writeNodeMarker_def simp del: bytes_of_simps)
  have frame: "stat w2 q = stat w q" if "\<not> prefix (d @ [?nm]) q" for q
    using that assms(3) by (auto simp: st)
  have dir: "stat w2 (d @ [?nm]) = Some Dir" using assms(4) by (simp add: st)
  have marked: "readNodeMarker w2 (d @ [?nm]) = (?m, True)"
    by (rule readNodeMarker_written) (use assms(11-13) in \<open>simp_all add: st\<close>)
  have new: "ix_Node x0 child = None" "trunk = '''' \<or> ix_Head x0 trunk = None"
    using assms(2,9,10) by (simp_all add: behind_def ix_Node_def ix_Head_def)
  from rebuild_with_child [OF assms(1) frame dir refl assms(7,8) marked new]
  show ?thesis using assms(2) r
    by (fastforce simp: same_forest_def behind_def SpawnFlat_eq patch_def Let_def max.coboundedI1)
qed

definition main_only :: sys where
  "main_only = \<lparr>files = [([''main''], Dir), ([''main'', ''n0''], Dir)], cacheLimit = 0\<rparr>"

definition root_index :: "nat \<Rightarrow> index" where
  "root_index k = \<lparr>ix_nodes = [('''', \<lparr>ni_Trunk = '''', ni_IsRoot = True, ni_From = '''', ni_Kind = ''null''\<rparr>)],
     ix_heads = [], nodeSeq = 0, trunkSeq = 0, ix_version = k, ix_rebuilds = k, mintID = None\<rparr>"

lemma main_only_rebuild:
  "RebuildFrom True main_only [''main''] (root_index 1) = (Inr (), root_index 2)"
proof -
  have names: "dir_names main_only [''main''] = [''n0'']" by code_simp
  have st: "stat main_only [''main''] = Some Dir" "stat main_only [''main'', ''n0''] = Some Dir"
    "stat main_only [''main'', ''.node''] = None" "stat main_only [''main'', ''n0'', ''.node''] = None"
    by (simp_all add: main_only_def stat_def)
  have num: "numSuffix '''' (CHR ''t'') = -1" by code_simp
  show ?thesis
    by (simp add: RebuildFrom_def addLocked_def readNodeMarker_def os_ReadFile_def os_ReadDir_def names st
        nodeMarkerName_def HasPrefix_def bumpSeqsLocked_def num i64_wrap_def ix_reset_def root_index_def
        lift_res_def u64_add_def)
qed

theorem spawn_matches_rebuild_witness:
  "\<exists>w2 x2. writeNodeMarker [''1''] main_only [''main'', ''n0''] \<lparr>nm_from = '''', nm_kind = ''loadout'', nm_trunk = ''t0''\<rparr> = (Inr (), w2) \<and>
     RebuildFrom True w2 [''main''] (root_index 1) = (Inr (), x2) \<and>
     behind x2 (SpawnFlat '''' ''n0'' ''t0'' ''loadout'' (root_index 1))"
proof -
  have nm: "fsName True ''n0'' = ''n0''" by code_simp
  have st: "stat main_only [''main'', ''n0''] = Some Dir" "stat main_only [''main'', ''n0'', ''.node''] = None"
    "stat main_only [''main'', ''n0'', ''..node-1''] = None"
    by (simp_all add: main_only_def stat_def)
  have clean: "marker_text ''''" "marker_text ''loadout''" "marker_text ''t0''" by code_simp+
  obtain r w2 where w: "writeNodeMarker [''1''] main_only [''main'', ''n0'']
      \<lparr>nm_from = '''', nm_kind = ''loadout'', nm_trunk = ''t0''\<rparr> = (r, w2)" by force
  show ?thesis
    using spawn_matches_rebuild [OF main_only_rebuild, of "''n0''" main_only "[''1'']" "''t0''" "''''" "''loadout''" r w2]
      w clean st
    by (simp add: nm behind_def root_index_def nodeMarkerName_def temp_free_def HasPrefix_def readNodeMarker_def
        os_ReadFile_def ix_Node_def ix_Head_def)
qed

end
