(* ===== verification/Codec.thy ===== *)
theory Codec
  imports Vfs
begin

text \<open>
  The \<^verbatim>\<open>SegmentCodec\<close> interface of \<^verbatim>\<open>segment/codec.go\<close> as a record of its methods, the length-prefixed
  \<^verbatim>\<open>BinaryCodec\<close>, and the contract a codec owes the segment layer as the locale
  \<open>lawful_codec\<close>: what it frames it reads back, a scan finds the frames laid one after the
  other, and a scan of a torn frame finds nothing. The contract is discharged for the binary
  codec by the interpretation \<open>binary\<close>.
\<close>

unbundle bit_operations_syntax

section \<open>The interface\<close>

text \<open>
  \<open>c_ScanFrames\<close> lists the offset and the length of every frame the method's callback is called
  with, in order. The callback only sees these pairs, and the reader behind it is a plain file,
  so calling it during the scan or after it is the same.
\<close>

record codec =
  c_Frame :: "nat \<Rightarrow> bytes \<Rightarrow> err + bytes"
  c_ReadFrame :: "bytes \<Rightarrow> int \<Rightarrow> int \<Rightarrow> err + bytes \<times> int"
  c_ScanFrames :: "bytes \<Rightarrow> (nat \<times> nat) list"
  c_Hash :: "bytes \<Rightarrow> err + string"
  c_FileExt :: string
  c_Name :: string

section \<open>The binary codec\<close>

abbreviation headerSize :: nat where
  "headerSize \<equiv> 8"

text \<open>\<^verbatim>\<open>binary.LittleEndian\<close> on 32 bits: \<^verbatim>\<open>uint32(n)\<close> keeps the low 32 bits.\<close>

definition PutUint32 :: "nat \<Rightarrow> bytes" where
  "PutUint32 n = [word_of_nat (n mod 256), word_of_nat (n div 256 mod 256),
     word_of_nat (n div 65536 mod 256), word_of_nat (n div 16777216 mod 256)]"

definition Uint32 :: "bytes \<Rightarrow> nat" where
  "Uint32 b = unat (b ! 0) + 256 * unat (b ! 1) + 65536 * unat (b ! 2) + 16777216 * unat (b ! 3)"

lemma length_PutUint32 [simp]: "length (PutUint32 n) = 4"
  by (simp add: PutUint32_def)

lemma Uint32_PutUint32:
  assumes "n < 4294967296"
  shows "Uint32 (PutUint32 n @ r) = n"
proof -
  define a b d where "a = n div 256" and "b = a div 256" and "d = b div 256"
  have n: "n = n mod 256 + 256 * a" and a: "a = a mod 256 + 256 * b" and b: "b = b mod 256 + 256 * d"
    by (simp_all add: a_def b_def d_def)
  have "n div 65536 = b" "n div 16777216 = d" "d < 256"
    using assms by (simp_all add: a_def b_def d_def div_mult2_eq [symmetric] less_mult_imp_div_less)
  then have "Uint32 (PutUint32 n @ r) = n mod 256 + 256 * (a mod 256) + 65536 * (b mod 256) + 16777216 * d"
    by (simp add: Uint32_def PutUint32_def unsigned_of_nat take_bit_eq_mod a_def)
  also have "\<dots> = n" using n a b by linarith
  finally show ?thesis .
qed

lemma Uint32_take4: "4 \<le> length b \<Longrightarrow> Uint32 (take 4 b) = Uint32 b"
  by (simp add: Uint32_def)

text \<open>\<^verbatim>\<open>crc32.ChecksumIEEE\<close>: the reflected polynomial \<open>0xEDB88320\<close>, one bit at a time.\<close>

definition crc_bit :: "32 word \<Rightarrow> 32 word" where
  "crc_bit c = (if c AND 1 = 1 then drop_bit 1 c XOR 0xEDB88320 else drop_bit 1 c)"

definition crc_byte :: "32 word \<Rightarrow> byte \<Rightarrow> 32 word" where
  "crc_byte c b = crc_bit (crc_bit (crc_bit (crc_bit (crc_bit (crc_bit (crc_bit (crc_bit
     (c XOR ucast b))))))))"

definition ChecksumIEEE :: "bytes \<Rightarrow> nat" where
  "ChecksumIEEE b = unat (foldl crc_byte 0xFFFFFFFF b XOR 0xFFFFFFFF)"

lemma ChecksumIEEE_less: "ChecksumIEEE b < 4294967296"
proof -
  have "unat (foldl crc_byte 0xFFFFFFFF b XOR 0xFFFFFFFF) < 2 ^ LENGTH(32)"
    by (rule unsigned_less)
  then show ?thesis by (simp add: ChecksumIEEE_def)
qed

text \<open>\<^verbatim>\<open>fmt.Sprintf("%08x", n)\<close>.\<close>

definition hex_char :: "nat \<Rightarrow> char" where
  "hex_char d = (if d < 10 then char_of (48 + d) else char_of (87 + d))"

fun hex_digits :: "nat \<Rightarrow> nat \<Rightarrow> string" where
  "hex_digits 0 n = []"
| "hex_digits (Suc k) n = hex_digits k (n div 16) @ [hex_char (n mod 16)]"

definition BinaryCodec_Hash :: "bytes \<Rightarrow> err + string" where
  "BinaryCodec_Hash payload = Inr (hex_digits 8 (ChecksumIEEE payload))"

definition BinaryCodec_Frame :: "nat \<Rightarrow> bytes \<Rightarrow> err + bytes" where
  "BinaryCodec_Frame idx payload =
     Inr (PutUint32 (length payload) @ PutUint32 (ChecksumIEEE payload) @ payload)"

definition BinaryCodec_ReadFrame :: "bytes \<Rightarrow> int \<Rightarrow> int \<Rightarrow> err + bytes \<times> int" where
  "BinaryCodec_ReadFrame r off nextOff =
     (if nextOff > off then
        let len = nextOff - off in
        if len < int headerSize then Inl ErrCorrupt
        else rbind (readAt r len off) (\<lambda>buf.
          let n = Uint32 (take 4 buf) in
          if int n + int headerSize \<noteq> len then Inl ErrCorrupt
          else Inr (drop headerSize buf, len))
      else
        rbind (readAt r (int headerSize) off) (\<lambda>hdr.
          let n = Uint32 (take 4 hdr) in
          rbind (if n > 0 then readAt r (int n) (off + int headerSize) else Inr []) (\<lambda>payload.
            Inr (payload, int headerSize + int n))))"

text \<open>
  The scan stops without an error at a short header, a short payload, a checksum that does not
  match, and at the end of the file.
\<close>

function bin_scan :: "nat \<Rightarrow> bytes \<Rightarrow> (nat \<times> nat) list" where
  "bin_scan off r =
     (if length r < headerSize then []
      else let n = Uint32 (take 4 r); rest = drop headerSize r in
        if length rest < n then []
        else if ChecksumIEEE (take n rest) \<noteq> Uint32 (take 4 (drop 4 r)) then []
        else (off, headerSize + n) # bin_scan (off + (headerSize + n)) (drop n rest))"
  by pat_completeness auto
termination
  by (relation "measure (\<lambda>(off, r). length r)") auto

declare bin_scan.simps [simp del]

definition BinaryCodec_ScanFrames :: "bytes \<Rightarrow> (nat \<times> nat) list" where
  "BinaryCodec_ScanFrames r = bin_scan 0 r"

definition BinaryCodec :: codec where
  "BinaryCodec = \<lparr>c_Frame = BinaryCodec_Frame, c_ReadFrame = BinaryCodec_ReadFrame,
     c_ScanFrames = BinaryCodec_ScanFrames, c_Hash = BinaryCodec_Hash,
     c_FileExt = ''.seg'', c_Name = ''binary''\<rparr>"

lemmas BinaryCodec_simps =
  BinaryCodec_def codec.select_convs

section \<open>The contract of a codec\<close>

text \<open>
  \<open>stable p\<close> says that the codec keeps the payload \<open>p\<close> byte for byte, and \<open>is_frame f p\<close> that
  \<open>f\<close> is a frame that holds it.
\<close>

locale lawful_codec =
  fixes c :: codec
    and stable :: "bytes \<Rightarrow> bool"
    and is_frame :: "bytes \<Rightarrow> bytes \<Rightarrow> bool"
  assumes frame_stable: "stable p \<Longrightarrow> \<exists>f. c_Frame c idx p = Inr f \<and> is_frame f p"
    and frame_is_frame: "stable p \<Longrightarrow> c_Frame c idx p = Inr f \<Longrightarrow> is_frame f p"
    and is_frame_stable: "is_frame f p \<Longrightarrow> stable p"
    and is_frame_nonempty: "is_frame f p \<Longrightarrow> f \<noteq> []"
    and read_frame: "is_frame f p \<Longrightarrow>
      c_ReadFrame c (pre @ f @ post) (int (length pre)) (int (length pre + length f)) =
        Inr (p, int (length f))"
    and scan_Nil: "c_ScanFrames c [] = []"
    and scan_Cons: "is_frame f p \<Longrightarrow> c_ScanFrames c (f @ rest) =
      (0, length f) # map (\<lambda>(off, n). (off + length f, n)) (c_ScanFrames c rest)"
    and scan_torn: "is_frame f p \<Longrightarrow> strict_prefix g f \<Longrightarrow> c_ScanFrames c g = []"
begin

text \<open>A run of frames and the payloads they hold: \<open>list_all2 is_frame fs ps\<close>.\<close>

lemma frames_snoc:
  "list_all2 is_frame fs ps \<Longrightarrow> is_frame f p \<Longrightarrow> list_all2 is_frame (fs @ [f]) (ps @ [p])"
  by (simp add: list_all2_appendI)

lemma frames_nth: "list_all2 is_frame fs ps \<Longrightarrow> i < length ps \<Longrightarrow> is_frame (fs ! i) (ps ! i)"
  by (simp add: list_all2_conv_all_nth)

lemma frames_stable: "list_all2 is_frame fs ps \<Longrightarrow> p \<in> set ps \<Longrightarrow> stable p"
  by (metis frames_nth in_set_conv_nth is_frame_stable)

text \<open>A scan of frames followed by bytes that hold none lists exactly the frames.\<close>

lemma scan_frames:
  assumes "list_all2 is_frame fs ps" "c_ScanFrames c tail = []"
  shows "c_ScanFrames c (concat fs @ tail) = spans (map length fs)"
  using assms(1)
proof (induction fs arbitrary: ps)
  case Nil
  with assms(2) show ?case by (simp add: spans_def)
next
  case (Cons f fs)
  then obtain p ps' where "is_frame f p" and "list_all2 is_frame fs ps'"
    by (auto simp: list_all2_Cons1)
  with Cons.IH scan_Cons show ?case by (simp add: spans_Cons)
qed

text \<open>
  After a crash that kept only the first \<open>n\<close> bytes of a run of frames, the scan finds exactly
  the frames that are whole in them.
\<close>

lemma scan_crash:
  assumes "list_all2 is_frame fs ps"
  shows "c_ScanFrames c (take n (concat fs)) = spans (map length (take (whole n (map length fs)) fs))"
  using assms
proof (induction fs arbitrary: ps n)
  case Nil
  then show ?case by (simp add: spans_def scan_Nil)
next
  case (Cons f fs)
  then obtain p ps' where f: "is_frame f p" and fs: "list_all2 is_frame fs ps'"
    by (auto simp: list_all2_Cons1)
  show ?case
  proof (cases "length f \<le> n")
    case True
    then have "take n (concat (f # fs)) = f @ take (n - length f) (concat fs)" by simp
    with True f Cons.IH [OF fs] show ?thesis by (simp add: scan_Cons spans_Cons)
  next
    case False
    then have "take n (concat (f # fs)) = take n f" and "strict_prefix (take n f) f"
      by (auto simp: strict_prefix_def take_is_prefix)
    with False f scan_torn show ?thesis by (simp add: spans_def)
  qed
qed

text \<open>Reading the \<open>i\<close>-th frame of a file by its offset.\<close>

lemma read_nth:
  assumes "list_all2 is_frame fs ps" "i < length ps"
  shows "c_ReadFrame c (pre @ concat fs @ tail)
      (int (length pre + sum_list (take i (map length fs))))
      (int (length pre + sum_list (take (Suc i) (map length fs)))) =
    Inr (ps ! i, int (length (fs ! i)))"
proof -
  let ?pre = "pre @ concat (take i fs)" and ?post = "concat (drop (Suc i) fs) @ tail"
  have i: "i < length fs" using assms list_all2_lengthD by fastforce
  have whole_file: "pre @ concat fs @ tail = ?pre @ fs ! i @ ?post"
    by (subst concat_split_nth [OF i]) simp
  have "length ?pre = length pre + sum_list (take i (map length fs))"
    by (simp add: length_concat_take take_map)
  moreover from this have "length ?pre + length (fs ! i) =
      length pre + sum_list (take (Suc i) (map length fs))"
    using i by (simp add: take_Suc_conv_app_nth)
  ultimately show ?thesis
    using read_frame [OF frames_nth [OF assms], of ?pre ?post] by (simp only: whole_file)
qed

end

section \<open>The binary codec keeps the contract\<close>

text \<open>The length field has 32 bits, so a payload of four gigabytes or more is not framed faithfully.\<close>

definition bin_stable :: "bytes \<Rightarrow> bool" where
  "bin_stable p \<longleftrightarrow> length p < 4294967296"

definition bin_frame :: "bytes \<Rightarrow> bytes \<Rightarrow> bool" where
  "bin_frame f p \<longleftrightarrow> bin_stable p \<and> BinaryCodec_Frame 0 p = Inr f"

lemma bin_frame_eq:
  "bin_frame f p \<longleftrightarrow> bin_stable p \<and> f = PutUint32 (length p) @ PutUint32 (ChecksumIEEE p) @ p"
  by (auto simp: bin_frame_def BinaryCodec_Frame_def)

lemma bin_frame_length: "bin_frame f p \<Longrightarrow> length f = headerSize + length p"
  by (simp add: bin_frame_eq)

lemma bin_frame_header:
  assumes "bin_frame f p"
  shows "Uint32 (take 4 (f @ r)) = length p"
    "Uint32 (take 4 (drop 4 (f @ r))) = ChecksumIEEE p" "drop headerSize (f @ r) = p @ r"
  using assms
  by (simp_all add: bin_frame_eq bin_stable_def ChecksumIEEE_less
      Uint32_PutUint32 [where r = "[]", simplified])

lemma bin_read_frame:
  assumes "bin_frame f p"
  shows "BinaryCodec_ReadFrame (pre @ f @ post) (int (length pre)) (int (length pre + length f)) =
    Inr (p, int (length f))"
  using bin_frame_header [OF assms, of "[]"] bin_frame_length [OF assms]
  by (simp add: BinaryCodec_ReadFrame_def readAt_def)

lemma bin_scan_shift:
  "bin_scan (off + k) r = map (\<lambda>(o', n). (o' + k, n)) (bin_scan off r)"
proof (induction off r rule: bin_scan.induct)
  case (1 off r)
  let ?n = "Uint32 (take 4 r)"
  have "off + k + (headerSize + ?n) = off + (headerSize + ?n) + k" by simp
  then show ?case
    using 1 by (subst (1 2) bin_scan.simps) (auto simp: Let_def ac_simps)
qed

lemma bin_scan_Cons:
  assumes "bin_frame f p"
  shows "bin_scan 0 (f @ rest) = (0, length f) # map (\<lambda>(off, n). (off + length f, n)) (bin_scan 0 rest)"
proof -
  note h = bin_frame_header [OF assms, of rest] bin_frame_length [OF assms]
  have "bin_scan 0 (f @ rest) = (0, headerSize + length p) # bin_scan (headerSize + length p) rest"
    using h by (simp add: bin_scan.simps [of 0 "f @ rest"] Let_def)
  with h bin_scan_shift [of 0 "headerSize + length p" rest] show ?thesis by simp
qed

lemma bin_scan_torn:
  assumes "bin_frame f p" "strict_prefix g f"
  shows "bin_scan 0 g = []"
proof (cases "length g < headerSize")
  case True
  then show ?thesis by (simp add: bin_scan.simps)
next
  case False
  from assms(2) obtain r where f: "f = g @ r" "r \<noteq> []" by (auto simp: strict_prefix_def prefix_def)
  have "take 4 f = take 4 g" using False f(1) by simp
  then have "Uint32 (take 4 g) = length p"
    using bin_frame_header(1) [OF assms(1), of "[]"] by simp
  moreover have "length g < headerSize + length p"
    using f bin_frame_length [OF assms(1)] by (cases r) simp_all
  ultimately show ?thesis using False by (simp add: bin_scan.simps Let_def)
qed

interpretation binary: lawful_codec BinaryCodec bin_stable bin_frame
proof
  show "c_ScanFrames BinaryCodec [] = []"
    by (simp add: BinaryCodec_simps BinaryCodec_ScanFrames_def bin_scan.simps)
next
  fix f p rest assume "bin_frame f p"
  then show "c_ScanFrames BinaryCodec (f @ rest) =
      (0, length f) # map (\<lambda>(off, n). (off + length f, n)) (c_ScanFrames BinaryCodec rest)"
    by (simp add: BinaryCodec_simps BinaryCodec_ScanFrames_def bin_scan_Cons)
next
  fix f p g assume "bin_frame f p" "strict_prefix g f"
  then show "c_ScanFrames BinaryCodec g = []"
    by (simp add: BinaryCodec_simps BinaryCodec_ScanFrames_def bin_scan_torn)
next
  fix f p pre post assume "bin_frame f p"
  then show "c_ReadFrame BinaryCodec (pre @ f @ post) (int (length pre)) (int (length pre + length f)) =
      Inr (p, int (length f))"
    by (simp only: BinaryCodec_simps bin_read_frame)
qed (auto simp: BinaryCodec_simps BinaryCodec_Frame_def bin_frame_eq PutUint32_def)

end
