(* ===== verification/Segment.thy ===== *)
theory Segment
  imports Codec
begin

text \<open>
  One append-only file of frames: \<^verbatim>\<open>segment/segment.go\<close> and the segment's side of the payload
  cache in \<^verbatim>\<open>segment/cache.go\<close>. The state is the record \<open>segment\<close>; opening recovers it from
  the file, appending writes one frame at the end, and a read goes through the payload block or
  to the file. \<open>seg_rep\<close> says which header and which payloads a segment holds, and the lemmas
  that every operation keeps it and returns the right payload are proved for any codec that keeps
  the contract of the locale \<open>lawful_codec\<close>.
\<close>

section \<open>State\<close>

record block =
  payloads :: "bytes list"
  b_bytes :: nat

text \<open>
  The file handle is the path. \<open>block\<close> is the atomic pointer to the resident payloads,
  \<^verbatim>\<open>nil\<close> being \<open>None\<close>. The recency stamp \<^verbatim>\<open>usedAt\<close> only orders evictions and is left out:
  an eviction may happen at any time here.
\<close>

record segment =
  s_path :: path
  s_codec :: codec
  baseIndex :: nat
  size :: nat
  maxSize :: int
  count :: nat
  offsets :: "nat list"
  readOnly :: bool
  hasHeader :: bool
  s_header :: bytes
  s_block :: "block option"

section \<open>The payload cache\<close>

definition sliceHeaderBytes :: nat where
  "sliceHeaderBytes = 24"

definition defaultCacheBudget :: int where
  "defaultCacheBudget = 33554432"

text \<open>A negative budget is ignored. The blocks that a lower limit evicts go by \<open>seg_Evicted\<close>.\<close>

definition SetCacheBudget :: "int \<Rightarrow> sys \<Rightarrow> sys" where
  "SetCacheBudget n w = (if n < 0 then w else w\<lparr>cacheLimit := n\<rparr>)"

definition CacheBudget :: "sys \<Rightarrow> int" where
  "CacheBudget w = cacheLimit w"

text \<open>The \<^verbatim>\<open>Evicted\<close> hook of the shared cache clears the block pointer.\<close>

definition seg_Evicted :: "segment \<Rightarrow> segment" where
  "seg_Evicted s = s\<lparr>s_block := None\<rparr>"

definition seg_DropCache :: "segment \<Rightarrow> segment" where
  "seg_DropCache s = s\<lparr>s_block := None\<rparr>"

text \<open>The frame of record \<open>i\<close> ends where the next one begins, or at the end of the segment.\<close>

definition seg_readFrameOf :: "sys \<Rightarrow> segment \<Rightarrow> nat \<Rightarrow> err + bytes" where
  "seg_readFrameOf w s i =
     (let off = offsets s ! i;
          nextOff = (if i + 1 < length (offsets s) then offsets s ! (i + 1) else size s) in
      rbind (os_ReadFile w (s_path s)) (\<lambda>b.
        rbind (c_ReadFrame (s_codec s) b (int off) (int nextOff)) (\<lambda>(payload, _). Inr payload)))"

definition seg_readAllPayloads :: "sys \<Rightarrow> segment \<Rightarrow> err + block" where
  "seg_readAllPayloads w s =
     rbind (traverse (seg_readFrameOf w s) [0..<count s]) (\<lambda>ps.
       Inr \<lparr>payloads = ps, b_bytes = sum_list (map (\<lambda>p. length p + sliceHeaderBytes) ps)\<rparr>)"

definition seg_cachedPayloads :: "sys \<Rightarrow> segment \<Rightarrow> block option \<times> segment" where
  "seg_cachedPayloads w s = (case s_block s of
     Some b \<Rightarrow> (Some b, s)
   | None \<Rightarrow>
       if CacheBudget w \<le> 0 then (None, s)
       else case seg_readAllPayloads w s of
         Inl _ \<Rightarrow> (None, s)
       | Inr b \<Rightarrow> (Some b, s\<lparr>s_block := Some b\<rparr>))"

definition seg_extendBlock :: "bytes \<Rightarrow> segment \<Rightarrow> segment" where
  "seg_extendBlock payload s = (case s_block s of
     None \<Rightarrow> s
   | Some old \<Rightarrow> s\<lparr>s_block := Some \<lparr>payloads = payloads old @ [payload],
        b_bytes = b_bytes old + length payload + sliceHeaderBytes\<rparr>\<rparr>)"

section \<open>Opening and recovery\<close>

definition seg_new :: "path \<Rightarrow> codec \<Rightarrow> nat \<Rightarrow> int \<Rightarrow> bool \<Rightarrow> bool \<Rightarrow> segment" where
  "seg_new p c base mx ro hdr = \<lparr>s_path = p, s_codec = c, baseIndex = base, size = 0, maxSize = mx,
     count = 0, offsets = [], readOnly = ro, hasHeader = hdr, s_header = [], s_block = None\<rparr>"

definition seg_Create :: "sys \<Rightarrow> path \<Rightarrow> codec \<Rightarrow> nat \<Rightarrow> int \<Rightarrow> (err + segment) \<times> sys" where
  "seg_Create w p c base mx =
     sbind (os_CreateExcl w p) (\<lambda>_ w. (Inr (seg_new p c base mx False False), w))"

text \<open>
  The callback of the scan: the first frame of a headered segment is the header, every other
  frame is a record. The state is the segment, \<^verbatim>\<open>off\<close>, \<^verbatim>\<open>first\<close> and \<^verbatim>\<open>headerEnd\<close>.
\<close>

definition recover_step ::
  "segment \<times> nat \<times> bool \<times> nat \<Rightarrow> nat \<times> nat \<Rightarrow> segment \<times> nat \<times> bool \<times> nat" where
  "recover_step = (\<lambda>(s, off, first, headerEnd) (frameOff, frameLen).
     if hasHeader s \<and> first then (s, frameOff + frameLen, False, frameOff + frameLen)
     else (s\<lparr>offsets := offsets s @ [frameOff], count := u64_add (count s) 1\<rparr>,
           frameOff + frameLen, False, headerEnd))"

definition seg_recover :: "sys \<Rightarrow> segment \<Rightarrow> (err + segment) \<times> sys" where
  "seg_recover w s0 = (case os_ReadFile w (s_path s0) of
     Inl e \<Rightarrow> (Inl e, w)
   | Inr b \<Rightarrow>
       let (s1, off, first, headerEnd) =
             foldl recover_step (s0, 0, True, 0) (c_ScanFrames (s_codec s0) b);
           s2 = s1\<lparr>size := off\<rparr> in
       sbind (if hasHeader s2 \<and> headerEnd > 0
              then lift_res (rbind (c_ReadFrame (s_codec s2) b 0 (int headerEnd))
                     (\<lambda>(payload, _). Inr (s2\<lparr>s_header := payload\<rparr>))) w
              else (Inr s2, w)) (\<lambda>s3 w.
       if length b > off \<and> \<not> readOnly s3
       then sbind (file_Truncate w (s_path s3) off) (\<lambda>_ w. (Inr s3, w))
       else (Inr s3, w)))"

definition seg_openRW :: "sys \<Rightarrow> path \<Rightarrow> codec \<Rightarrow> nat \<Rightarrow> int \<Rightarrow> bool \<Rightarrow> (err + segment) \<times> sys" where
  "seg_openRW w p c base mx hdr =
     sbind (lift_res (os_ReadFile w p) w) (\<lambda>_ w. seg_recover w (seg_new p c base mx False hdr))"

definition seg_openRO :: "sys \<Rightarrow> path \<Rightarrow> codec \<Rightarrow> nat \<Rightarrow> bool \<Rightarrow> (err + segment) \<times> sys" where
  "seg_openRO w p c base hdr =
     sbind (lift_res (os_ReadFile w p) w) (\<lambda>_ w. seg_recover w (seg_new p c base 0 True hdr))"

section \<open>Appending and reading\<close>

definition seg_Append :: "sys \<Rightarrow> segment \<Rightarrow> bytes \<Rightarrow> (err + nat \<times> segment) \<times> sys" where
  "seg_Append w s payload =
     (if readOnly s then (Inl ErrSegReadOnly, w)
      else sbind (lift_res (c_Frame (s_codec s) (u64_add (baseIndex s) (count s)) payload) w)
        (\<lambda>frame w.
         if maxSize s > 0 \<and> int (size s) + int (length frame) > maxSize s then (Inl ErrFull, w)
         else let offset = size s in
           sbind (file_WriteAt w (s_path s) frame offset) (\<lambda>_ w.
             (Inr (offset, seg_extendBlock payload
                (s\<lparr>size := size s + length frame, offsets := offsets s @ [offset],
                   count := u64_add (count s) 1\<rparr>)), w))))"

definition seg_WriteHeader :: "sys \<Rightarrow> segment \<Rightarrow> bytes \<Rightarrow> (err + segment) \<times> sys" where
  "seg_WriteHeader w s payload =
     (if readOnly s then (Inl ErrSegReadOnly, w)
      else if size s \<noteq> 0 \<or> count s \<noteq> 0 then (Inl (ErrMsg ''WriteHeader: segment not empty''), w)
      else sbind (lift_res (c_Frame (s_codec s) 0 payload) w) (\<lambda>frame w.
        sbind (file_WriteAt w (s_path s) frame 0) (\<lambda>_ w.
          (Inr (s\<lparr>size := length frame, hasHeader := True, s_header := payload\<rparr>), w))))"

fun nextOffset_from :: "nat list \<Rightarrow> nat \<Rightarrow> nat \<Rightarrow> int" where
  "nextOffset_from [] sz off = -1"
| "nextOffset_from (o' # os) sz off =
     (if o' \<noteq> off then nextOffset_from os sz off
      else case os of [] \<Rightarrow> int sz | o2 # _ \<Rightarrow> int o2)"

definition seg_nextOffsetAfter :: "segment \<Rightarrow> nat \<Rightarrow> int" where
  "seg_nextOffsetAfter s off = nextOffset_from (offsets s) (size s) off"

definition seg_ReadAt :: "sys \<Rightarrow> segment \<Rightarrow> nat \<Rightarrow> err + bytes" where
  "seg_ReadAt w s offset =
     rbind (os_ReadFile w (s_path s)) (\<lambda>b.
       rbind (c_ReadFrame (s_codec s) b (int offset) (seg_nextOffsetAfter s offset))
         (\<lambda>(payload, _). Inr payload))"

definition seg_ReadIndex :: "sys \<Rightarrow> segment \<Rightarrow> nat \<Rightarrow> (err + bytes) \<times> segment" where
  "seg_ReadIndex w s i =
     (if i \<ge> count s then (Inl ErrOutOfRange, s)
      else case seg_cachedPayloads w s of
        (Some b, s') \<Rightarrow>
          if i < length (payloads b) then (Inr (payloads b ! i), s') else (seg_readFrameOf w s' i, s')
      | (None, s') \<Rightarrow> (seg_readFrameOf w s' i, s'))"

definition seg_LastIndex :: "segment \<Rightarrow> nat" where
  "seg_LastIndex s = u64_sub (u64_add (baseIndex s) (count s)) 1"

definition seg_Close :: "segment \<Rightarrow> segment" where
  "seg_Close s = seg_DropCache s"

section \<open>What a segment holds\<close>

text \<open>
  \<open>seg_rep c F w s hs ps\<close>: the file of the segment \<open>s\<close> holds the header payload in \<open>hs\<close> (at most one)
  and then the record payloads \<open>ps\<close>, framed by the codec \<open>c\<close> whose frames \<open>F\<close> recognises, and the
  index in memory is the one of these frames. Only a read-only segment may have a torn tail behind them. A
  resident block holds exactly the records.
\<close>

definition block_ok :: "bytes list \<Rightarrow> block option \<Rightarrow> bool" where
  "block_ok ps b \<longleftrightarrow> (case b of None \<Rightarrow> True
     | Some b \<Rightarrow> payloads b = ps \<and> b_bytes b = sum_list (map (\<lambda>p. length p + sliceHeaderBytes) ps))"

definition seg_rep ::
  "codec \<Rightarrow> (bytes \<Rightarrow> bytes \<Rightarrow> bool) \<Rightarrow> sys \<Rightarrow> segment \<Rightarrow> bytes list \<Rightarrow> bytes list \<Rightarrow> bool" where
  "seg_rep c F w s hs ps \<longleftrightarrow> s_codec s = c \<and> (\<exists>fs tail.
     stat w (s_path s) = Some (File (concat fs @ tail)) \<and> list_all2 F fs (hs @ ps) \<and>
     (\<not> readOnly s \<longrightarrow> tail = []) \<and> size s = length (concat fs) \<and>
     offsets s = drop (length hs) (starts 0 (map length fs))) \<and>
     length hs \<le> 1 \<and> s_header s = concat hs \<and>
     (hasHeader s \<longleftrightarrow> hs \<noteq> [] \<or> ps = [] \<and> hasHeader s) \<and>
     count s = length ps \<and> baseIndex s + length ps < u64_lim \<and> block_ok ps (s_block s)"

text \<open>A file that holds exactly the frames of the payloads, and one cut off after \<open>n\<close> bytes of them.\<close>

definition file_rep :: "(bytes \<Rightarrow> bytes \<Rightarrow> bool) \<Rightarrow> sys \<Rightarrow> path \<Rightarrow> bytes list \<Rightarrow> bool" where
  "file_rep F w p ps \<longleftrightarrow> (\<exists>fs. stat w p = Some (File (concat fs)) \<and> list_all2 F fs ps)"

lemma block_ok_None [simp]: "block_ok ps None"
  by (simp add: block_ok_def)

lemma seg_repD:
  assumes "seg_rep c F w s hs ps"
  shows "s_codec s = c" "count s = length ps" "baseIndex s + length ps < u64_lim"
    "s_header s = concat hs" "hs \<noteq> [] \<Longrightarrow> hasHeader s" "length hs \<le> 1" "block_ok ps (s_block s)"
  using assms by (auto simp: seg_rep_def)

lemma seg_rep_file: "seg_rep c F w s hs ps \<Longrightarrow> \<not> readOnly s \<Longrightarrow> file_rep F w (s_path s) (hs @ ps)"
  by (auto simp: seg_rep_def file_rep_def)

lemma seg_rep_size:
  "seg_rep c F w s hs ps \<Longrightarrow> \<not> readOnly s \<Longrightarrow>
   \<exists>b. stat w (s_path s) = Some (File b) \<and> length b = size s"
  by (auto simp: seg_rep_def)

text \<open>Only the segment's own file matters to it, and its block may go at any time.\<close>

lemma seg_rep_cong:
  "stat w' (s_path s) = stat w (s_path s) \<Longrightarrow> seg_rep c F w' s hs ps = seg_rep c F w s hs ps"
  by (simp add: seg_rep_def)

lemma seg_rep_Evicted: "seg_rep c F w s hs ps \<Longrightarrow> seg_rep c F w (seg_Evicted s) hs ps"
  by (simp add: seg_rep_def seg_Evicted_def)

lemma seg_rep_block:
  "seg_rep c F w s hs ps \<Longrightarrow> block_ok ps b \<Longrightarrow> seg_rep c F w (s\<lparr>s_block := b\<rparr>) hs ps"
  by (simp add: seg_rep_def)

lemma seg_LastIndex_rep:
  assumes "seg_rep c F w s hs ps" "ps \<noteq> []"
  shows "seg_LastIndex s = baseIndex s + length ps - 1"
  using seg_repD(2,3) [OF assms(1)] assms(2)
  by (cases ps) (simp_all add: seg_LastIndex_def u64_simps)

text \<open>The segment that indexes the frames \<open>fs\<close> of a header \<open>hs\<close> and records \<open>ps\<close>.\<close>

definition seg_indexed ::
  "path \<Rightarrow> codec \<Rightarrow> nat \<Rightarrow> int \<Rightarrow> bool \<Rightarrow> bool \<Rightarrow> bytes list \<Rightarrow> bytes list \<Rightarrow> bytes list \<Rightarrow> segment" where
  "seg_indexed p c base mx ro hdr fs hs ps = \<lparr>s_path = p, s_codec = c, baseIndex = base,
     size = length (concat fs), maxSize = mx, count = length ps,
     offsets = drop (length hs) (starts 0 (map length fs)), readOnly = ro, hasHeader = hdr,
     s_header = concat hs, s_block = None\<rparr>"

lemma seg_rep_indexed:
  assumes "stat w p = Some (File (concat fs @ tail))" "list_all2 F fs (hs @ ps)"
    "\<not> ro \<longrightarrow> tail = []" "length hs \<le> 1" "base + length ps < u64_lim"
    "hdr \<longleftrightarrow> hs \<noteq> [] \<or> ps = [] \<and> hdr"
  shows "seg_rep c F w (seg_indexed p c base mx ro hdr fs hs ps) hs ps"
  using assms by (auto simp: seg_rep_def seg_indexed_def)

lemma seg_indexed_simps [simp]:
  "s_path (seg_indexed p c base mx ro hdr fs hs ps) = p"
  "baseIndex (seg_indexed p c base mx ro hdr fs hs ps) = base"
  "maxSize (seg_indexed p c base mx ro hdr fs hs ps) = mx"
  "readOnly (seg_indexed p c base mx ro hdr fs hs ps) = ro"
  "hasHeader (seg_indexed p c base mx ro hdr fs hs ps) = hdr"
  "count (seg_indexed p c base mx ro hdr fs hs ps) = length ps"
  "s_header (seg_indexed p c base mx ro hdr fs hs ps) = concat hs"
  by (simp_all add: seg_indexed_def)

section \<open>The recovery scan\<close>

lemma recover_step_record:
  "\<not> (hasHeader s \<and> first) \<Longrightarrow> count s + 1 < u64_lim \<Longrightarrow>
   recover_step (s, k, first, h) (off, n) =
     (s\<lparr>offsets := offsets s @ [off], count := count s + 1\<rparr>, off + n, False, h)"
  by (auto simp: recover_step_def u64_simps)

lemma recover_records:
  assumes "\<not> (hasHeader s \<and> first)" "count s + length ns < u64_lim" "first \<longrightarrow> k = 0"
  shows "foldl recover_step (s, k, first, h) (zip (starts k ns) ns) =
    (s\<lparr>offsets := offsets s @ starts k ns, count := count s + length ns\<rparr>,
     k + sum_list ns, first \<and> ns = [], h)"
  using assms
proof (induction ns arbitrary: s k first)
  case Nil
  then show ?case by simp
next
  case (Cons n ns)
  then show ?case by (simp add: recover_step_record add.assoc)
qed

lemma recover_scan:
  assumes "length ns < u64_lim" "count s = 0" "offsets s = []"
  shows "foldl recover_step (s, 0, True, 0) (spans ns) =
    (let k = (if hasHeader s \<and> ns \<noteq> [] then 1 else 0) in
     (s\<lparr>offsets := drop k (starts 0 ns), count := length ns - k\<rparr>, sum_list ns, ns = [],
      if k = 0 then 0 else hd ns))"
proof (cases "hasHeader s \<and> ns \<noteq> []")
  case True
  then obtain n ms where "ns = n # ms" by (cases ns) auto
  with True assms recover_records [of s False ms n n] show ?thesis
    by (simp add: spans_def recover_step_def)
next
  case False
  with assms recover_records [of s True ns 0 0] show ?thesis
    by (cases "ns = []") (auto simp: spans_def)
qed

section \<open>Segments over a lawful codec\<close>

context lawful_codec
begin

lemma seg_readFrameOf_rep:
  assumes "seg_rep c is_frame w s hs ps" "i < length ps"
  shows "seg_readFrameOf w s i = Inr (ps ! i)"
proof -
  from assms(1) obtain fs tail where f:
    "stat w (s_path s) = Some (File (concat fs @ tail))" "list_all2 is_frame fs (hs @ ps)"
    "size s = length (concat fs)" "offsets s = drop (length hs) (starts 0 (map length fs))"
    by (auto simp: seg_rep_def)
  have len: "length fs = length hs + length ps" using f(2) list_all2_lengthD by fastforce
  have off: "offsets s ! i = sum_list (take (length hs + i) (map length fs))"
    using assms(2) len by (simp add: f(4) nth_starts)
  have "(if i + 1 < length (offsets s) then offsets s ! (i + 1) else size s) =
      sum_list (take (Suc (length hs + i)) (map length fs))"
    using assms(2) len by (auto simp: f(3,4) nth_starts length_concat not_less)
  then show ?thesis
    using read_nth [OF f(2), of "length hs + i" "[]" tail] assms(2) off f(1) seg_repD(1) [OF assms(1)]
    by (simp add: seg_readFrameOf_def os_ReadFile_def nth_append)
qed

lemma seg_readAllPayloads_rep:
  assumes "seg_rep c is_frame w s hs ps"
  shows "\<exists>b. seg_readAllPayloads w s = Inr b \<and> payloads b = ps \<and> block_ok ps (Some b)"
proof -
  have "traverse (seg_readFrameOf w s) [0..<count s] = Inr (map ((!) ps) [0..<count s])"
    using seg_readFrameOf_rep [OF assms] seg_repD(2) [OF assms] by (intro traverse_all_Inr) auto
  then show ?thesis
    using seg_repD(2) [OF assms] by (simp add: seg_readAllPayloads_def block_ok_def map_nth)
qed

text \<open>The cache, when there is one, holds the records; loading it keeps the segment as it is.\<close>

lemma seg_cachedPayloads_rep:
  assumes "seg_rep c is_frame w s hs ps" "seg_cachedPayloads w s = (b, s')"
  shows "seg_rep c is_frame w s' hs ps" "b = None \<or> payloads (the b) = ps"
    "\<exists>b'. s' = s\<lparr>s_block := b'\<rparr>"
proof -
  obtain b0 where b0: "seg_readAllPayloads w s = Inr b0" "payloads b0 = ps" "block_ok ps (Some b0)"
    using seg_readAllPayloads_rep [OF assms(1)] by auto
  have cases: "(b, s') = (s_block s, s) \<or> (b, s') = (None, s) \<or> (b, s') = (Some b0, s\<lparr>s_block := Some b0\<rparr>)"
    using assms(2) b0(1) by (auto simp: seg_cachedPayloads_def split: option.splits if_splits)
  moreover have "s_block s = None \<or> payloads (the (s_block s)) = ps"
    using seg_repD(7) [OF assms(1)] by (auto simp: block_ok_def split: option.splits)
  ultimately show "seg_rep c is_frame w s' hs ps" "b = None \<or> payloads (the b) = ps"
    using assms(1) b0(2,3) seg_rep_block by auto
  show "\<exists>b'. s' = s\<lparr>s_block := b'\<rparr>"
    using cases by (auto intro: exI [of _ "s_block s"])
qed

text \<open>A read returns the record at its index, whatever the cache holds and does.\<close>

lemma seg_ReadIndex_rep:
  assumes "seg_rep c is_frame w s hs ps" "i < length ps"
  shows "\<exists>b. seg_ReadIndex w s i = (Inr (ps ! i), s\<lparr>s_block := b\<rparr>) \<and>
    seg_rep c is_frame w (s\<lparr>s_block := b\<rparr>) hs ps"
proof -
  obtain b s' where b: "seg_cachedPayloads w s = (b, s')" by fastforce
  note r = seg_cachedPayloads_rep [OF assms(1) b]
  from r(3) obtain b' where b': "s' = s\<lparr>s_block := b'\<rparr>" by auto
  have "seg_readFrameOf w s' i = Inr (ps ! i)" using seg_readFrameOf_rep [OF r(1) assms(2)] .
  then have "seg_ReadIndex w s i = (Inr (ps ! i), s')"
    using assms(2) b r(2) seg_repD(2) [OF assms(1)] by (auto simp: seg_ReadIndex_def split: option.split)
  then show ?thesis using r(1) b' by blast
qed

lemma seg_ReadIndex_out_of_range:
  "seg_rep c is_frame w s hs ps \<Longrightarrow> length ps \<le> i \<Longrightarrow> seg_ReadIndex w s i = (Inl ErrOutOfRange, s)"
  using seg_repD(2) by (fastforce simp: seg_ReadIndex_def)

text \<open>A fresh segment holds nothing.\<close>

lemma seg_Create_rep:
  assumes "stat w p = None" "stat w (butlast p) = Some Dir" "base < u64_lim"
  shows "seg_Create w p c base mx = (Inr (seg_new p c base mx False False), put p (File []) w)"
    "seg_rep c is_frame (put p (File []) w) (seg_new p c base mx False False) [] []"
proof -
  have "p \<noteq> []" using assms(1) by auto
  then show "seg_rep c is_frame (put p (File []) w) (seg_new p c base mx False False) [] []"
    using assms by (auto simp: seg_rep_def seg_new_def)
qed (use assms in \<open>simp add: seg_Create_def os_CreateExcl_def\<close>)

text \<open>
  The frame an append writes, and that the append is then one write at the end of the file: the
  record is added, every other file is as it was.
\<close>

lemma seg_Append_full:
  assumes "\<not> readOnly s" "c_Frame c (u64_add (baseIndex s) (count s)) p = Inr f" "s_codec s = c"
    "maxSize s > 0" "int (size s) + int (length f) > maxSize s"
  shows "seg_Append w s p = (Inl ErrFull, w)"
  using assms by (simp add: seg_Append_def)

lemma seg_Append_rep:
  assumes rep: "seg_rep c is_frame w s hs ps" and "\<not> readOnly s" "stable p"
    "hasHeader s \<longrightarrow> hs \<noteq> []" "baseIndex s + length ps + 1 < u64_lim"
    and f: "c_Frame c (u64_add (baseIndex s) (count s)) p = Inr f"
    and "\<not> (maxSize s > 0 \<and> int (size s) + int (length f) > maxSize s)"
  shows "\<exists>b s'. stat w (s_path s) = Some (File b) \<and>
    seg_Append w s p = (Inr (size s, s'), put (s_path s) (File (b @ f)) w) \<and>
    seg_rep c is_frame (put (s_path s) (File (b @ f)) w) s' hs (ps @ [p]) \<and>
    (\<exists>bl. s' = s\<lparr>size := size s + length f, offsets := offsets s @ [size s],
       count := count s + 1, s_block := bl\<rparr>)"
proof -
  from rep assms(2) obtain fs where fs:
    "stat w (s_path s) = Some (File (concat fs))" "list_all2 is_frame fs (hs @ ps)"
    "size s = length (concat fs)" "offsets s = drop (length hs) (starts 0 (map length fs))"
    by (auto simp: seg_rep_def)
  have "s_path s \<noteq> []" using fs(1) by auto
  have len: "length fs = length hs + length ps" using fs(2) list_all2_lengthD by fastforce
  let ?w = "put (s_path s) (File (concat fs @ f)) w"
  let ?s = "s\<lparr>size := size s + length f, offsets := offsets s @ [size s], count := u64_add (count s) 1\<rparr>"
  define bl where "bl = s_block (seg_extendBlock p s)"
  let ?s' = "s\<lparr>size := size s + length f, offsets := offsets s @ [size s], count := count s + 1, s_block := bl\<rparr>"
  have "seg_extendBlock p ?s = ?s'"
    using assms(5) seg_repD(2) [OF rep]
    by (simp add: seg_extendBlock_def u64_simps bl_def split: option.split)
  then have "seg_Append w s p = (Inr (size s, ?s'), ?w)"
    using assms fs(1,3) seg_repD(1) [OF rep]
    by (simp add: seg_Append_def file_WriteAt_def os_ReadFile_def Let_def)
  moreover have "seg_rep c is_frame ?w ?s' hs (ps @ [p])"
  proof -
    have "list_all2 is_frame (fs @ [f]) (hs @ ps @ [p])"
      using frames_snoc [OF fs(2) frame_is_frame [OF assms(3) f]] by simp
    moreover have "block_ok (ps @ [p]) bl"
      using seg_repD(7) [OF rep]
      by (auto simp: bl_def seg_extendBlock_def block_ok_def split: option.split)
    moreover have "offsets ?s' = drop (length hs) (starts 0 (map length (fs @ [f])))"
      using len by (simp add: fs(3,4) starts_append length_concat)
    ultimately show ?thesis
      using fs(1,3) assms(2,4,5) seg_repD [OF rep] \<open>s_path s \<noteq> []\<close>
      by (auto simp: seg_rep_def intro!: exI [of _ "fs @ [f]"])
  qed
  ultimately show ?thesis using fs(1) by blast
qed

text \<open>The header goes to the front of an empty segment and is not counted.\<close>

lemma seg_WriteHeader_rep:
  assumes rep: "seg_rep c is_frame w s [] []" and "\<not> readOnly s" "stable h"
  shows "\<exists>f s'. is_frame f h \<and> c_Frame c 0 h = Inr f \<and>
    seg_WriteHeader w s h = (Inr s', put (s_path s) (File f) w) \<and>
    seg_rep c is_frame (put (s_path s) (File f) w) s' [h] [] \<and>
    s' = s\<lparr>size := length f, hasHeader := True, s_header := h\<rparr>"
proof -
  from frame_stable [OF assms(3), of 0] obtain f where f: "c_Frame c 0 h = Inr f" "is_frame f h" by auto
  from rep assms(2) have s: "stat w (s_path s) = Some (File [])" "size s = 0" "offsets s = []" "count s = 0"
    by (auto simp: seg_rep_def)
  then have "s_path s \<noteq> []" by auto
  moreover have "seg_WriteHeader w s h =
      (Inr (s\<lparr>size := length f, hasHeader := True, s_header := h\<rparr>), put (s_path s) (File f) w)"
    using f s assms(2) seg_repD(1) [OF rep]
    by (simp add: seg_WriteHeader_def file_WriteAt_def os_ReadFile_def write_at_def)
  ultimately show ?thesis
    using f s seg_repD [OF rep] by (auto simp: seg_rep_def intro!: exI [of _ "[f]"])
qed

text \<open>
  Recovery: over a file of whole frames and a tail that scans to nothing, opening rebuilds the
  index of exactly those frames; a writable segment also cuts the tail off the file.
\<close>

lemma seg_recover_rep:
  assumes "stat w p = Some (File (concat fs @ tail))" "list_all2 is_frame fs qs"
    "c_ScanFrames c (concat fs @ tail) = spans (map length fs)" "base + length (if hdr then drop 1 qs else qs) < u64_lim" "length qs < u64_lim"
    and w': "w' = (if ro \<or> tail = [] then w else put p (File (concat fs)) w)"
    and s': "s' = seg_indexed p c base mx ro hdr fs (if hdr then take 1 qs else [])
      (if hdr then drop 1 qs else qs)"
  shows "seg_recover w (seg_new p c base mx ro hdr) = (Inr s', w')"
    "seg_rep c is_frame w' s' (if hdr then take 1 qs else []) (if hdr then drop 1 qs else qs)"
proof -
  let ?s0 = "seg_new p c base mx ro hdr" and ?k = "if hdr \<and> fs \<noteq> [] then 1 else 0 :: nat"
  have len: "length fs = length qs" using assms(2) list_all2_lengthD by blast
  have p: "p \<noteq> []" using assms(1) by auto
  have scan: "foldl recover_step (?s0, 0, True, 0) (c_ScanFrames c (concat fs @ tail)) =
      (?s0\<lparr>offsets := drop ?k (starts 0 (map length fs)), count := length fs - ?k\<rparr>,
       length (concat fs), fs = [], if ?k = 0 then 0 else length (hd fs))"
    using assms(3,5) len recover_scan [of "map length fs" ?s0]
    by (simp add: seg_new_def length_concat hd_map)
  have hd_frame: "c_ReadFrame c (concat fs @ tail) 0 (int (length (hd fs))) =
      Inr (hd qs, int (length (hd fs)))" "hd fs \<noteq> []" if "fs \<noteq> []"
    using that assms(2) read_nth [OF assms(2), of 0 "[]" tail] is_frame_nonempty len
    by (cases fs; cases qs; auto simp: take_Suc)+
  show "seg_recover w ?s0 = (Inr s', w')"
    using assms(1) scan hd_frame p len w' s'
    by (cases hdr; cases fs; cases qs; cases ro; cases tail)
      (simp_all add: seg_recover_def os_ReadFile_def seg_new_def seg_indexed_def file_Truncate_def)
  show "seg_rep c is_frame w' s' (if hdr then take 1 qs else []) (if hdr then drop 1 qs else qs)"
    unfolding s'
  proof (rule seg_rep_indexed)
    show "stat w' p = Some (File (concat fs @ (if ro then tail else [])))"
      using assms(1) p w' by simp
    show "list_all2 is_frame fs
        ((if hdr then take 1 qs else []) @ (if hdr then drop 1 qs else qs))"
      using assms(2) by simp
  qed (use assms(4) in \<open>auto split: if_splits\<close>)
qed

text \<open>Opening a file of whole frames changes nothing on disk.\<close>

lemma seg_open_clean:
  assumes "stat w p = Some (File (concat fs))" "list_all2 is_frame fs qs" "base + length (if hdr then drop 1 qs else qs) < u64_lim" "length qs < u64_lim"
    and s: "\<And>ro mx. s ro mx = seg_indexed p c base mx ro hdr fs (if hdr then take 1 qs else [])
      (if hdr then drop 1 qs else qs)"
  shows "seg_openRW w p c base mx hdr = (Inr (s False mx), w)"
    "seg_openRO w p c base hdr = (Inr (s True 0), w)"
    "seg_rep c is_frame w (s ro mx) (if hdr then take 1 qs else []) (if hdr then drop 1 qs else qs)"
proof -
  have "c_ScanFrames c (concat fs @ []) = spans (map length fs)"
    using scan_frames [OF assms(2) scan_Nil] .
  note r = seg_recover_rep [OF _ assms(2) this assms(3,4) refl refl, of w p, simplified, OF assms(1)]
  show "seg_openRW w p c base mx hdr = (Inr (s False mx), w)"
    using r(1) [where mx = mx and ro = False] assms(1) by (simp add: seg_openRW_def os_ReadFile_def s)
  show "seg_openRO w p c base hdr = (Inr (s True 0), w)"
    using r(1) [where mx = 0 and ro = True] assms(1) by (simp add: seg_openRO_def os_ReadFile_def s)
  show "seg_rep c is_frame w (s ro mx) (if hdr then take 1 qs else []) (if hdr then drop 1 qs else qs)"
    using r(2) by (simp add: s)
qed

text \<open>
  Opening after a crash that kept \<open>n\<close> bytes of the file recovers the records whose frames are
  whole, and leaves exactly these in the file if the segment is writable.
\<close>

lemma seg_openRW_crash:
  assumes "stat w p = Some (File (take n (concat fs)))" "list_all2 is_frame fs qs"
    "base + length (if hdr then drop 1 qs else qs) < u64_lim" "length qs < u64_lim" and k: "k = whole n (map length fs)"
  shows "\<exists>w'. seg_openRW w p c base mx hdr = (Inr (seg_indexed p c base mx False hdr (take k fs)
        (if hdr then take 1 (take k qs) else []) (if hdr then drop 1 (take k qs) else take k qs)), w') \<and>
      (w' = w \<or> w' = put p (File (concat (take k fs))) w) \<and>
      seg_rep c is_frame w' (seg_indexed p c base mx False hdr (take k fs)
        (if hdr then take 1 (take k qs) else []) (if hdr then drop 1 (take k qs) else take k qs))
        (if hdr then take 1 (take k qs) else []) (if hdr then drop 1 (take k qs) else take k qs)"
proof -
  obtain tail where tail: "take n (concat fs) = concat (take k fs) @ tail"
    using take_whole [of n fs] k by blast
  have scan: "c_ScanFrames c (concat (take k fs) @ tail) = spans (map length (take k fs))"
    using scan_crash [OF assms(2), of n] by (simp only: tail k)
  have lim: "base + length (if hdr then drop 1 (take k qs) else take k qs) < u64_lim"
    "length (take k qs) < u64_lim"
    using assms(3,4) by (auto simp: min_def split: if_splits)
  note r = seg_recover_rep [OF _ list_all2_takeI [OF assms(2)] scan lim refl refl, of w p]
  have w: "stat w p = Some (File (concat (take k fs) @ tail))" using assms(1) tail by simp
  show ?thesis
    using r(1,2) [where mx = mx and ro = False, OF w] w by (auto simp: seg_openRW_def os_ReadFile_def)
qed

lemma seg_openRO_crash:
  assumes "stat w p = Some (File (take n (concat fs)))" "list_all2 is_frame fs qs"
    "base + length (if hdr then drop 1 qs else qs) < u64_lim" "length qs < u64_lim" and k: "k = whole n (map length fs)"
  shows "\<exists>s'. seg_openRO w p c base hdr = (Inr s', w) \<and>
      seg_rep c is_frame w s' (if hdr then take 1 (take k qs) else [])
        (if hdr then drop 1 (take k qs) else take k qs)"
proof -
  obtain tail where tail: "take n (concat fs) = concat (take k fs) @ tail"
    using take_whole [of n fs] k by blast
  have scan: "c_ScanFrames c (concat (take k fs) @ tail) = spans (map length (take k fs))"
    using scan_crash [OF assms(2), of n] by (simp only: tail k)
  have lim: "base + length (if hdr then drop 1 (take k qs) else take k qs) < u64_lim"
    "length (take k qs) < u64_lim"
    using assms(3,4) by (auto simp: min_def split: if_splits)
  note r = seg_recover_rep [OF _ list_all2_takeI [OF assms(2)] scan lim refl refl, of w p]
  have w: "stat w p = Some (File (concat (take k fs) @ tail))" using assms(1) tail by simp
  show ?thesis
    using r(1,2) [where mx = 0 and ro = True, OF w] w by (simp add: seg_openRO_def os_ReadFile_def)
qed

text \<open>The offset of a record leads \<^verbatim>\<open>ReadAt\<close> to the record \<^verbatim>\<open>ReadIndex\<close> finds by its index.\<close>

lemma nextOffset_from_distinct:
  "distinct os \<Longrightarrow> i < length os \<Longrightarrow>
   nextOffset_from os sz (os ! i) = int (if i + 1 < length os then os ! (i + 1) else sz)"
proof (induction os arbitrary: i)
  case (Cons x xs)
  show ?case
  proof (cases i)
    case 0
    then show ?thesis by (cases xs) simp_all
  next
    case (Suc j)
    then have "j < length xs" "xs ! j \<noteq> x" using Cons.prems nth_mem by fastforce+
    then show ?thesis using Cons Suc by simp
  qed
qed simp

lemma starts_distinct: "0 \<notin> set ns \<Longrightarrow> distinct (starts k ns) \<and> (\<forall>x\<in>set (starts k ns). k \<le> x)"
proof (induction ns arbitrary: k)
  case (Cons n ns)
  from Cons.IH [of "k + n"] Cons.prems show ?case by fastforce
qed simp

lemma frames_nonempty: "list_all2 is_frame fs ps \<Longrightarrow> [] \<notin> set fs"
  by (induction rule: list_all2_induct) (auto dest: is_frame_nonempty)

lemma seg_ReadAt_rep:
  assumes rep: "seg_rep c is_frame w s hs ps" and i: "i < length ps"
  shows "seg_ReadAt w s (offsets s ! i) = Inr (ps ! i)"
proof -
  from rep obtain fs where fs: "list_all2 is_frame fs (hs @ ps)"
    "offsets s = drop (length hs) (starts 0 (map length fs))"
    by (auto simp: seg_rep_def)
  have "0 \<notin> set (map length fs)"
    using frames_nonempty [OF fs(1)] by auto
  then have "distinct (offsets s)"
    using starts_distinct [of "map length fs" 0] by (simp add: fs(2))
  moreover have "i < length (offsets s)"
    using i fs list_all2_lengthD [OF fs(1)] by simp
  ultimately have "seg_ReadAt w s (offsets s ! i) = seg_readFrameOf w s i"
    by (simp add: seg_ReadAt_def seg_readFrameOf_def seg_nextOffsetAfter_def
        nextOffset_from_distinct)
  then show ?thesis using seg_readFrameOf_rep [OF rep i] by simp
qed

end

section \<open>Segments of the binary codec\<close>

text \<open>C9: Crash recovery of a segment. Whatever number \<open>n\<close> of bytes of a file of frames survives
  a crash, opening the segment for writing succeeds, the records are exactly those whose frame
  is whole in the surviving bytes (the first frame being the header of a headered segment), the torn
  bytes are cut off, and no other file is touched.\<close>

theorem segment_crash_recovery:
  assumes "stat w p = Some (File (take n (concat fs)))" "list_all2 bin_frame fs qs"
    "base + length qs < u64_lim" "k = whole n (map length fs)"
  shows "\<exists>s' w'. seg_openRW w p BinaryCodec base mx hdr = (Inr s', w') \<and>
    seg_rep BinaryCodec bin_frame w' s' (if hdr then take 1 (take k qs) else [])
      (if hdr then drop 1 (take k qs) else take k qs) \<and>
    stat w' p = Some (File (concat (take k fs))) \<and> (\<forall>q. q \<noteq> p \<longrightarrow> stat w' q = stat w q)"
proof -
  have lim: "base + length (if hdr then drop 1 qs else qs) < u64_lim" "length qs < u64_lim"
    using assms(3) by auto
  define s' where "s' = seg_indexed p BinaryCodec base mx False hdr (take k fs)
    (if hdr then take 1 (take k qs) else []) (if hdr then drop 1 (take k qs) else take k qs)"
  obtain w' where r: "seg_openRW w p BinaryCodec base mx hdr = (Inr s', w')"
    "w' = w \<or> w' = put p (File (concat (take k fs))) w"
    "seg_rep BinaryCodec bin_frame w' s' (if hdr then take 1 (take k qs) else [])
      (if hdr then drop 1 (take k qs) else take k qs)"
    using binary.seg_openRW_crash [OF assms(1,2) lim assms(4), of mx] unfolding s'_def by blast
  have s: "s_path s' = p" "\<not> readOnly s'" "size s' = length (concat (take k fs))"
    by (simp_all add: s'_def seg_indexed_def)
  have p: "p \<noteq> []" using assms(1) by auto
  obtain tail where tail: "take n (concat fs) = concat (take k fs) @ tail"
    using take_whole [of n fs] assms(4) by blast
  have "stat w' p = Some (File (concat (take k fs)))"
  proof (cases "w' = w")
    case True
    have "length (take n (concat fs)) = length (concat (take k fs))"
      using seg_rep_size [OF r(3) s(2)] True s(1,3) assms(1) by simp
    with True tail assms(1) show ?thesis by simp
  qed (use r(2) p in auto)
  moreover have "\<forall>q. q \<noteq> p \<longrightarrow> stat w' q = stat w q" using r(2) by auto
  ultimately show ?thesis using r(1,3) by (intro exI conjI)
qed

text \<open>Two frames of one byte each, of which the crash kept ten bytes: the first record survives.\<close>

theorem segment_crash_recovery_witness:
  "\<exists>s' w'. seg_openRW \<lparr>files = [([''a''], File (take 10 (concat
        (map (projr \<circ> BinaryCodec_Frame 0) [bytes_of ''x'', bytes_of ''y'']))))], cacheLimit = 0\<rparr>
      [''a''] BinaryCodec 7 0 False = (Inr s', w') \<and>
    seg_rep BinaryCodec bin_frame w' s' [] [bytes_of ''x'']"
  using segment_crash_recovery [of "\<lparr>files = [([''a''], File (take 10 (concat
        (map (projr \<circ> BinaryCodec_Frame 0) [bytes_of ''x'', bytes_of ''y'']))))], cacheLimit = 0\<rparr>"
      "[''a'']" 10 "map (projr \<circ> BinaryCodec_Frame 0) [bytes_of ''x'', bytes_of ''y'']"
      "[bytes_of ''x'', bytes_of ''y'']" 7 1 0 False]
  by (simp add: stat_def bin_frame_def bin_stable_def BinaryCodec_Frame_def) blast

text \<open>C10: Append and read. Appending a payload that fits to a writable segment succeeds, adds
  exactly one record at the end, and from then on every record, the new one and the old ones, is
  read back byte for byte by its index, whatever part of the segment is in the payload cache.\<close>

theorem segment_append_read:
  assumes "seg_rep BinaryCodec bin_frame w s hs ps" "\<not> readOnly s" "bin_stable p"
    "hasHeader s \<longrightarrow> hs \<noteq> []" "baseIndex s + length ps + 1 < u64_lim"
    "\<not> (maxSize s > 0 \<and> int (size s) + int (8 + length p) > maxSize s)"
  shows "\<exists>s' w'. seg_Append w s p = (Inr (size s, s'), w') \<and>
    seg_rep BinaryCodec bin_frame w' s' hs (ps @ [p]) \<and>
    (\<forall>i < length ps + 1. fst (seg_ReadIndex w' s' i) = Inr ((ps @ [p]) ! i))"
proof -
  obtain f where f: "c_Frame BinaryCodec (u64_add (baseIndex s) (count s)) p = Inr f" "length f = 8 + length p"
    by (simp add: BinaryCodec_simps BinaryCodec_Frame_def)
  obtain s' w' where r: "seg_Append w s p = (Inr (size s, s'), w')"
    "seg_rep BinaryCodec bin_frame w' s' hs (ps @ [p])"
    using binary.seg_Append_rep [OF assms(1-5) f(1)] assms(6) f(2) by auto
  have "fst (seg_ReadIndex w' s' i) = Inr ((ps @ [p]) ! i)" if "i < length ps + 1" for i
    using binary.seg_ReadIndex_rep [OF r(2), of i] that by auto
  with r show ?thesis by (intro exI conjI allI impI)
qed

theorem segment_append_read_witness:
  "\<exists>s' w'. seg_Append (put [''a''] (File []) \<lparr>files = [], cacheLimit = 100\<rparr>)
      (seg_new [''a''] BinaryCodec 7 64 False False) (bytes_of ''hello'') = (Inr (0, s'), w') \<and>
    fst (seg_ReadIndex w' s' 0) = Inr (bytes_of ''hello'')"
  using segment_append_read [OF binary.seg_Create_rep(2)
      [of "\<lparr>files = [], cacheLimit = 100\<rparr>" "[''a'']" 7 64], of "bytes_of ''hello''"]
  by (simp add: stat_def seg_new_def bin_stable_def) blast



end
