(* ===== verification/Sealed.thy ===== *)
theory Sealed
  imports Segment
begin

text \<open>
  Sealed segments, \<^verbatim>\<open>disk/sealed.go\<close>: known by their file name and the range of indices it gives,
  opened read-only on the first read that lands in them. Opening happens once: its result, the
  segment or the error, is kept. The binary search that routes an index is proved to find the segment
  that holds it.
\<close>

record sealedSeg =
  ss_base :: nat
  ss_last :: nat
  ss_path :: path
  ss_once :: bool
  ss_seg :: "segment option"
  ss_err :: "err option"

definition newSealed :: "nat \<Rightarrow> nat \<Rightarrow> path \<Rightarrow> sealedSeg" where
  "newSealed base lst p = \<lparr>ss_base = base, ss_last = lst, ss_path = p, ss_once = False,
     ss_seg = None, ss_err = None\<rparr>"

definition wrapOpen :: "segment \<Rightarrow> sealedSeg" where
  "wrapOpen s = \<lparr>ss_base = baseIndex s,
     ss_last = (if count s > 0 then seg_LastIndex s else baseIndex s),
     ss_path = s_path s, ss_once = True, ss_seg = Some s, ss_err = None\<rparr>"

text \<open>A closed segment is not opened again: the result is then no segment and no error.\<close>

definition ss_open :: "sys \<Rightarrow> codec \<Rightarrow> bool \<Rightarrow> sealedSeg \<Rightarrow> (err + segment option) \<times> sealedSeg" where
  "ss_open w c headered ss = (case ss_seg ss of
     Some s \<Rightarrow> (Inr (Some s), ss)
   | None \<Rightarrow>
       let ss' = (if ss_once ss then ss
                  else case fst (seg_openRO w (ss_path ss) c (ss_base ss) headered) of
                    Inl e \<Rightarrow> ss\<lparr>ss_once := True, ss_err := Some e\<rparr>
                  | Inr s \<Rightarrow> ss\<lparr>ss_once := True, ss_seg := Some s\<rparr>) in
       (case ss_err ss' of Some e \<Rightarrow> (Inl e, ss') | None \<Rightarrow> (Inr (ss_seg ss'), ss')))"

definition ss_close :: "sealedSeg \<Rightarrow> sealedSeg" where
  "ss_close ss = ss\<lparr>ss_seg := None\<rparr>"

text \<open>The binary search: the first sealed segment that ends at or after the index.\<close>

function search_loop :: "sealedSeg list \<Rightarrow> nat \<Rightarrow> nat \<Rightarrow> nat \<Rightarrow> nat" where
  "search_loop xs idx lo hi =
     (if lo < hi then
        let mid = (lo + hi) div 2 in
        if ss_last (xs ! mid) \<ge> idx then search_loop xs idx lo mid else search_loop xs idx (mid + 1) hi
      else lo)"
  by pat_completeness auto
termination
  by (relation "measure (\<lambda>(xs, idx, lo, hi). hi - lo)") auto

declare search_loop.simps [simp del]

definition searchSealed :: "sealedSeg list \<Rightarrow> nat \<Rightarrow> nat" where
  "searchSealed xs idx = search_loop xs idx 0 (length xs)"

definition sealedFor :: "sealedSeg list \<Rightarrow> nat \<Rightarrow> nat option" where
  "sealedFor xs idx =
     (let i = searchSealed xs idx in
      if i < length xs \<and> idx \<ge> ss_base (xs ! i) then Some i else None)"

section \<open>The search finds the segment\<close>

lemma search_loop_correct:
  assumes "sorted (map ss_last xs)" "lo \<le> hi" "hi \<le> length xs"
    "\<And>j. j < lo \<Longrightarrow> ss_last (xs ! j) < idx" "\<And>j. hi \<le> j \<Longrightarrow> j < length xs \<Longrightarrow> idx \<le> ss_last (xs ! j)"
  shows "(\<forall>j < search_loop xs idx lo hi. ss_last (xs ! j) < idx) \<and>
    (\<forall>j. search_loop xs idx lo hi \<le> j \<longrightarrow> j < length xs \<longrightarrow> idx \<le> ss_last (xs ! j)) \<and>
    search_loop xs idx lo hi \<le> length xs"
  using assms
proof (induction xs idx lo hi rule: search_loop.induct)
  case (1 xs idx lo hi)
  have mono: "i \<le> j \<Longrightarrow> j < length xs \<Longrightarrow> ss_last (xs ! i) \<le> ss_last (xs ! j)" for i j
    using sorted_nth_mono [OF "1.prems"(1), of i j] by simp
  show ?case
  proof (cases "lo < hi")
    case False
    with "1.prems" show ?thesis by (subst (1 2 3) search_loop.simps) auto
  next
    case True
    define mid where "mid = (lo + hi) div 2"
    have mid: "lo \<le> mid" "mid < hi" "mid < length xs" using True "1.prems"(3) by (auto simp: mid_def)
    show ?thesis
    proof (cases "idx \<le> ss_last (xs ! mid)")
      case True
      have "idx \<le> ss_last (xs ! j)" if "mid \<le> j" "j < length xs" for j
        using mono [OF that] True by simp
      with "1.IH"(1) [OF \<open>lo < hi\<close> mid_def] True "1.prems" mid show ?thesis
        by (subst (1 2 3) search_loop.simps) (simp add: Let_def mid_def [symmetric] \<open>lo < hi\<close>)
    next
      case False
      have "ss_last (xs ! j) < idx" if "j < mid + 1" for j
        using mono [of j mid] that mid(3) False by simp
      with "1.IH"(2) [OF \<open>lo < hi\<close> mid_def] False "1.prems" mid show ?thesis
        by (subst (1 2 3) search_loop.simps) (simp add: Let_def mid_def [symmetric] \<open>lo < hi\<close>)
    qed
  qed
qed

text \<open>The result of the search over segments in index order, in terms of the segments alone.\<close>

lemma searchSealed_correct:
  assumes "sorted (map ss_last xs)"
  shows "(\<forall>j < searchSealed xs idx. ss_last (xs ! j) < idx) \<and>
    (\<forall>j. searchSealed xs idx \<le> j \<longrightarrow> j < length xs \<longrightarrow> idx \<le> ss_last (xs ! j)) \<and>
    searchSealed xs idx \<le> length xs"
  unfolding searchSealed_def by (rule search_loop_correct [OF assms]) auto

lemma sealedFor_None:
  assumes "sorted (map ss_last xs)" "\<And>s. s \<in> set xs \<Longrightarrow> ss_last s < idx"
  shows "sealedFor xs idx = None"
proof -
  have "\<not> searchSealed xs idx < length xs"
    using searchSealed_correct [OF assms(1), of idx] assms(2) by (metis le_refl not_le nth_mem)
  then show ?thesis by (simp add: sealedFor_def)
qed

end
