(* ===== verification/Json.thy ===== *)
theory Json
  imports Figwal_Prelude
begin

text \<open>
  The part of the standard library's \<^verbatim>\<open>encoding/json\<close> the JSONL codec uses: decoding the first
  value of a byte sequence into the generic value type with numbers kept as text
  (\<^verbatim>\<open>Decoder.UseNumber\<close>), and marshalling strings, numbers and literals. Strings are byte
  sequences. As in the library, an invalid byte in a string becomes the replacement character, a
  lone surrogate escape too, a repeated key keeps its last value, values nest at most 10000 deep,
  and the bytes after the first value are not looked at.
\<close>

datatype json =
    JNull | JBool bool | JNum bytes | JStr bytes | JArr "json list" | JObj "(bytes \<times> json) list"

section \<open>UTF-8\<close>

definition in_range :: "nat \<Rightarrow> nat \<Rightarrow> byte \<Rightarrow> bool" where
  "in_range lo hi b \<longleftrightarrow> lo \<le> unat b \<and> unat b \<le> hi"

abbreviation is_cont :: "byte \<Rightarrow> bool" where
  "is_cont \<equiv> in_range 128 191"

text \<open>The length of the well-formed sequence a byte sequence begins with, 0 when it begins with none.\<close>

fun utf8_len :: "bytes \<Rightarrow> nat" where
  "utf8_len [] = 0"
| "utf8_len (a # r) =
     (if unat a < 128 then 1
      else if in_range 194 223 a then
        (case r of b # _ \<Rightarrow> if is_cont b then 2 else 0 | _ \<Rightarrow> 0)
      else if in_range 224 239 a then
        (case r of b # c # _ \<Rightarrow>
           if in_range (if unat a = 224 then 160 else 128) (if unat a = 237 then 159 else 191) b \<and> is_cont c
           then 3 else 0 | _ \<Rightarrow> 0)
      else if in_range 240 244 a then
        (case r of b # c # d # _ \<Rightarrow>
           if in_range (if unat a = 240 then 144 else 128) (if unat a = 244 then 143 else 191) b \<and>
              is_cont c \<and> is_cont d then 4 else 0 | _ \<Rightarrow> 0)
      else 0)"

declare utf8_len.simps [simp del]

definition replacement :: bytes where
  "replacement = [0xEF, 0xBF, 0xBD]"

text \<open>\<^verbatim>\<open>utf8.EncodeRune\<close> of a code point that is not a surrogate.\<close>

definition EncodeRune :: "nat \<Rightarrow> bytes" where
  "EncodeRune r = map word_of_nat
     (if r < 128 then [r]
      else if r < 2048 then [192 + r div 64, 128 + r mod 64]
      else if r < 65536 then [224 + r div 4096, 128 + r div 64 mod 64, 128 + r mod 64]
      else [240 + r div 262144, 128 + r div 4096 mod 64, 128 + r div 64 mod 64, 128 + r mod 64])"

section \<open>Lexing\<close>

datatype token =
    TOpenObj | TCloseObj | TOpenArr | TCloseArr | TColon | TComma
  | TStr bytes | TNum bytes | TTrue | TFalse | TNull | TErr

definition hex_val :: "byte \<Rightarrow> nat option" where
  "hex_val b = (let n = unat b in
     if 48 \<le> n \<and> n \<le> 57 then Some (n - 48)
     else if 97 \<le> n \<and> n \<le> 102 then Some (n - 87)
     else if 65 \<le> n \<and> n \<le> 70 then Some (n - 55) else None)"

text \<open>Four hexadecimal digits, as after \<^verbatim>\<open>\u\<close>.\<close>

fun getu4 :: "bytes \<Rightarrow> nat option" where
  "getu4 (a # b # c # d # _) = (case (hex_val a, hex_val b, hex_val c, hex_val d) of
     (Some x, Some y, Some z, Some u) \<Rightarrow> Some (((x * 16 + y) * 16 + z) * 16 + u) | _ \<Rightarrow> None)"
| "getu4 _ = None"

definition is_surrogate :: "nat \<Rightarrow> bool" where
  "is_surrogate r \<longleftrightarrow> 0xD800 \<le> r \<and> r < 0xE000"

text \<open>The low half of a surrogate pair, when the bytes begin with its escape.\<close>

definition low_half :: "bytes \<Rightarrow> nat option" where
  "low_half b = (case b of
     x # y # r \<Rightarrow> if x = 0x5C \<and> y = 0x75 then
         (case getu4 r of Some n \<Rightarrow> if 0xDC00 \<le> n \<and> n < 0xE000 then Some n else None | None \<Rightarrow> None)
       else None
   | _ \<Rightarrow> None)"

definition simple_escape :: "byte \<Rightarrow> byte option" where
  "simple_escape b = map_of [(0x22, 0x22), (0x5C, 0x5C), (0x2F, 0x2F), (0x62, 8), (0x66, 12),
     (0x6E, 10), (0x72, 13), (0x74, 9)] b"

text \<open>The rest of a string literal: its contents decoded, and what follows the closing quote.\<close>

function lex_str :: "bytes \<Rightarrow> (bytes \<times> bytes) option" where
  "lex_str [] = None"
| "lex_str (a # r) =
     (if a = 0x22 then Some ([], r)
      else if unat a < 32 then None
      else if a = 0x5C then
        (case r of
           [] \<Rightarrow> None
         | b # r1 \<Rightarrow>
             if b = 0x75 then
               (case getu4 r1 of
                  None \<Rightarrow> None
                | Some n \<Rightarrow>
                    if is_surrogate n then
                      (case (n < 0xDC00, low_half (drop 4 r1)) of
                         (True, Some m) \<Rightarrow>
                           map_option (apfst (\<lambda>s. EncodeRune ((n - 0xD800) * 1024 + (m - 0xDC00) + 0x10000) @ s))
                             (lex_str (drop 10 r1))
                       | _ \<Rightarrow> map_option (apfst (\<lambda>s. replacement @ s)) (lex_str (drop 4 r1)))
                    else map_option (apfst (\<lambda>s. EncodeRune n @ s)) (lex_str (drop 4 r1)))
             else (case simple_escape b of
                     None \<Rightarrow> None
                   | Some x \<Rightarrow> map_option (apfst (\<lambda>s. x # s)) (lex_str r1)))
      else
        (case utf8_len (a # r) of
           0 \<Rightarrow> map_option (apfst (\<lambda>s. replacement @ s)) (lex_str r)
         | Suc n \<Rightarrow> map_option (apfst (\<lambda>s. a # take n r @ s)) (lex_str (drop n r))))"
  by pat_completeness auto
termination
  by (relation "measure length") (auto simp: less_Suc_eq_le)

declare lex_str.simps [simp del]

definition is_dig :: "byte \<Rightarrow> bool" where
  "is_dig = in_range 48 57"

text \<open>One or more digits.\<close>

definition lex_digits :: "bytes \<Rightarrow> (bytes \<times> bytes) option" where
  "lex_digits b = (if b \<noteq> [] \<and> is_dig (hd b) then Some (takeWhile is_dig b, dropWhile is_dig b) else None)"

definition lex_int :: "bytes \<Rightarrow> (bytes \<times> bytes) option" where
  "lex_int b = (if b \<noteq> [] \<and> hd b = 0x30 then Some ([0x30], tl b) else lex_digits b)"

definition lex_frac :: "bytes \<Rightarrow> (bytes \<times> bytes) option" where
  "lex_frac b = (if b \<noteq> [] \<and> hd b = 0x2E then map_option (apfst (\<lambda>s. 0x2E # s)) (lex_digits (tl b))
     else Some ([], b))"

definition lex_exp :: "bytes \<Rightarrow> (bytes \<times> bytes) option" where
  "lex_exp b = (if b \<noteq> [] \<and> (hd b = 0x65 \<or> hd b = 0x45) then
       (let sign = (if tl b \<noteq> [] \<and> (hd (tl b) = 0x2B \<or> hd (tl b) = 0x2D) then [hd (tl b)] else []) in
        map_option (apfst (\<lambda>s. hd b # sign @ s)) (lex_digits (drop (length sign) (tl b))))
     else Some ([], b))"

definition lex_num :: "bytes \<Rightarrow> (bytes \<times> bytes) option" where
  "lex_num b =
     (let sign = (if b \<noteq> [] \<and> hd b = 0x2D then [0x2D] else []) in
      case lex_int (drop (length sign) b) of None \<Rightarrow> None | Some (i, r1) \<Rightarrow>
      case lex_frac r1 of None \<Rightarrow> None | Some (f, r2) \<Rightarrow>
      case lex_exp r2 of None \<Rightarrow> None | Some (e, r3) \<Rightarrow> Some (sign @ i @ f @ e, r3))"

definition is_space :: "byte \<Rightarrow> bool" where
  "is_space b \<longleftrightarrow> b = 0x20 \<or> b = 9 \<or> b = 10 \<or> b = 13"

text \<open>The next token of a byte sequence that does not begin with white space.\<close>

definition lex_one :: "byte \<Rightarrow> bytes \<Rightarrow> token \<times> bytes" where
  "lex_one a r =
     (if a = 0x7B then (TOpenObj, r) else if a = 0x7D then (TCloseObj, r)
      else if a = 0x5B then (TOpenArr, r) else if a = 0x5D then (TCloseArr, r)
      else if a = 0x3A then (TColon, r) else if a = 0x2C then (TComma, r)
      else if a = 0x22 then (case lex_str r of Some (s, r') \<Rightarrow> (TStr s, r') | None \<Rightarrow> (TErr, []))
      else if a = 0x2D \<or> is_dig a then (case lex_num (a # r) of Some (s, r') \<Rightarrow> (TNum s, r') | None \<Rightarrow> (TErr, []))
      else if prefix (bytes_of ''true'') (a # r) then (TTrue, drop 3 r)
      else if prefix (bytes_of ''false'') (a # r) then (TFalse, drop 4 r)
      else if prefix (bytes_of ''null'') (a # r) then (TNull, drop 3 r)
      else (TErr, []))"

lemma map_apfst_Some: "map_option (apfst f) x = Some (s, r) \<longleftrightarrow> (\<exists>s'. x = Some (s', r) \<and> s = f s')"
  by (cases x) auto

lemma lex_str_shorter: "lex_str b = Some (s, r) \<Longrightarrow> length r < length b"
proof (induction b arbitrary: s r rule: length_induct)
  case (1 b)
  have IH: "lex_str b' = Some (s', r) \<Longrightarrow> length b' < length b \<Longrightarrow> length r < length b" for b' s'
    using "1.IH" less_trans by blast
  show ?case
  proof (cases b)
    case Nil
    with "1.prems" show ?thesis by (simp add: lex_str.simps)
  next
    case (Cons a c)
    have sub: "lex_str (drop n c) = Some (s', r) \<Longrightarrow> length r < length b"
      "lex_str (tl c) = Some (s', r) \<Longrightarrow> length r < length b"
      "lex_str (drop n (tl c)) = Some (s', r) \<Longrightarrow> length r < length b" for n s'
      using Cons IH [of "drop n c"] IH [of "tl c"] IH [of "drop n (tl c)"] by auto
    from "1.prems" sub(1) [of 0] sub show ?thesis
      unfolding Cons
      by (subst (asm) lex_str.simps)
        (auto simp: map_apfst_Some split: if_splits list.splits option.splits nat.splits bool.splits)
  qed
qed

lemma lex_digits_shorter: "lex_digits b = Some (s, r) \<Longrightarrow> length r < length b"
  using length_dropWhile_le [of is_dig "tl b"]
  by (cases b) (auto simp: lex_digits_def split: if_splits)

lemma lex_num_shorter: "lex_num (a # b) = Some (s, r) \<Longrightarrow> length r \<le> length b"
proof -
  assume n: "lex_num (a # b) = Some (s, r)"
  then obtain sg i r1 f r2 e where p: "sg = (if a = 0x2D then [0x2D] else [] :: bytes)"
    "lex_int (drop (length sg) (a # b)) = Some (i, r1)" "lex_frac r1 = Some (f, r2)" "lex_exp r2 = Some (e, r)"
    by (auto simp: lex_num_def Let_def split: option.splits)
  have "length r1 < length (a # b)"
    using p(1,2) lex_digits_shorter
    by (fastforce simp: lex_int_def split: if_splits)
  moreover have "length r2 \<le> length r1"
    using p(3) lex_digits_shorter by (fastforce simp: lex_frac_def map_apfst_Some split: if_splits)
  moreover have "length r \<le> length r2"
    using p(4) lex_digits_shorter
    by (fastforce simp: lex_exp_def Let_def map_apfst_Some split: if_splits)
  ultimately show ?thesis by simp
qed

lemma lex_one_shorter: "length (snd (lex_one a r)) \<le> length r"
proof -
  have "length (snd (case lex_str r of Some (s, r') \<Rightarrow> (TStr s, r') | None \<Rightarrow> (TErr, []))) \<le> length r"
    by (auto split: option.split dest: lex_str_shorter)
  moreover have "length (snd (case lex_num (a # r) of Some (s, r') \<Rightarrow> (TNum s, r') | None \<Rightarrow> (TErr, []))) \<le> length r"
    by (auto split: option.split dest: lex_num_shorter)
  ultimately show ?thesis by (simp add: lex_one_def del: bytes_of_simps)
qed

function lex :: "bytes \<Rightarrow> token list" where
  "lex b = (case dropWhile is_space b of
     [] \<Rightarrow> []
   | a # r \<Rightarrow> (case lex_one a r of (t, r') \<Rightarrow> if t = TErr then [TErr] else t # lex r'))"
  by pat_completeness auto
termination
proof (relation "measure length", goal_cases)
  case (2 b a r t r')
  have "length r' \<le> length r" using lex_one_shorter [of a r] by (simp add: 2(2) [symmetric])
  moreover have "Suc (length r) \<le> length b"
    using 2(1) length_dropWhile_le [of is_space b] by simp
  ultimately show ?case by simp
qed simp

declare lex.simps [simp del]

section \<open>Parsing\<close>

text \<open>
  The scanner's stack of open arrays and objects, and what it expects next. An open object carries
  the key its next value belongs to.
\<close>

datatype frame = FArr "json list" | FObj "(bytes \<times> json) list" bytes

datatype pstate = WantValue | WantValueOrEnd | WantKeyOrEnd | WantKey | WantColon | WantSep

definition maxNestingDepth :: nat where
  "maxNestingDepth = 10000"

fun plug :: "json \<Rightarrow> frame \<Rightarrow> frame" where
  "plug v (FArr xs) = FArr (xs @ [v])"
| "plug v (FObj kvs k) = FObj (AList.update k v kvs) k"

definition scalar :: "token \<Rightarrow> json option" where
  "scalar t = (case t of TStr s \<Rightarrow> Some (JStr s) | TNum s \<Rightarrow> Some (JNum s) | TTrue \<Rightarrow> Some (JBool True)
     | TFalse \<Rightarrow> Some (JBool False) | TNull \<Rightarrow> Some JNull | _ \<Rightarrow> None)"

text \<open>One token: the finished top-level value, or the new stack and state, or an error.\<close>

datatype pres = PDone json | PMore "frame list" pstate | PFail

definition finish :: "json \<Rightarrow> frame list \<Rightarrow> pres" where
  "finish v st = (case st of [] \<Rightarrow> PDone v | f # fs \<Rightarrow> PMore (plug v f # fs) WantSep)"

definition push :: "frame \<Rightarrow> pstate \<Rightarrow> frame list \<Rightarrow> pres" where
  "push f s st = (if length st < maxNestingDepth then PMore (f # st) s else PFail)"

definition pstep_value :: "token \<Rightarrow> frame list \<Rightarrow> pres" where
  "pstep_value t st = (case t of
     TOpenObj \<Rightarrow> push (FObj [] []) WantKeyOrEnd st
   | TOpenArr \<Rightarrow> push (FArr []) WantValueOrEnd st
   | _ \<Rightarrow> (case scalar t of Some v \<Rightarrow> finish v st | None \<Rightarrow> PFail))"

definition pstep :: "token \<Rightarrow> frame list \<Rightarrow> pstate \<Rightarrow> pres" where
  "pstep t st s = (case s of
     WantValue \<Rightarrow> pstep_value t st
   | WantValueOrEnd \<Rightarrow>
       (case (t, st) of (TCloseArr, FArr xs # fs) \<Rightarrow> finish (JArr xs) fs | _ \<Rightarrow> pstep_value t st)
   | WantKeyOrEnd \<Rightarrow>
       (case (t, st) of (TCloseObj, FObj kvs _ # fs) \<Rightarrow> finish (JObj kvs) fs
        | (TStr k, FObj kvs _ # fs) \<Rightarrow> PMore (FObj kvs k # fs) WantColon | _ \<Rightarrow> PFail)
   | WantKey \<Rightarrow>
       (case (t, st) of (TStr k, FObj kvs _ # fs) \<Rightarrow> PMore (FObj kvs k # fs) WantColon | _ \<Rightarrow> PFail)
   | WantColon \<Rightarrow> (if t = TColon then PMore st WantValue else PFail)
   | WantSep \<Rightarrow>
       (case (t, st) of
          (TComma, FArr _ # _) \<Rightarrow> PMore st WantValue
        | (TComma, FObj _ _ # _) \<Rightarrow> PMore st WantKey
        | (TCloseArr, FArr xs # fs) \<Rightarrow> finish (JArr xs) fs
        | (TCloseObj, FObj kvs _ # fs) \<Rightarrow> finish (JObj kvs) fs
        | _ \<Rightarrow> PFail))"

fun parse :: "frame list \<Rightarrow> pstate \<Rightarrow> token list \<Rightarrow> json option" where
  "parse st s [] = None"
| "parse st s (t # ts) = (case pstep t st s of
     PDone v \<Rightarrow> Some v | PMore st' s' \<Rightarrow> parse st' s' ts | PFail \<Rightarrow> None)"

text \<open>\<^verbatim>\<open>Decoder.Decode\<close> into an empty interface.\<close>

definition json_Decode :: "bytes \<Rightarrow> json option" where
  "json_Decode b = parse [] WantValue (lex b)"

section \<open>Printing\<close>

definition hex_lower :: "nat \<Rightarrow> byte" where
  "hex_lower d = (if d < 10 then word_of_nat (48 + d) else word_of_nat (87 + d))"

text \<open>The escape of one ASCII byte, HTML characters included.\<close>

definition esc_ascii :: "byte \<Rightarrow> bytes" where
  "esc_ascii b =
     (if b = 0x5C \<or> b = 0x22 then [0x5C, b]
      else if b = 8 then bytes_of [CHR 0x5C, CHR ''b'']
      else if b = 12 then bytes_of [CHR 0x5C, CHR ''f'']
      else if b = 10 then bytes_of [CHR 0x5C, CHR ''n'']
      else if b = 13 then bytes_of [CHR 0x5C, CHR ''r'']
      else if b = 9 then bytes_of [CHR 0x5C, CHR ''t'']
      else if unat b < 32 \<or> b = 0x3C \<or> b = 0x3E \<or> b = 0x26
        then bytes_of [CHR 0x5C, CHR ''u'', CHR ''0'', CHR ''0''] @ [hex_lower (unat b div 16), hex_lower (unat b mod 16)]
      else [b])"

function esc :: "bytes \<Rightarrow> bytes" where
  "esc [] = []"
| "esc (a # r) =
     (if unat a < 128 then esc_ascii a @ esc r
      else (case utf8_len (a # r) of
         0 \<Rightarrow> bytes_of [CHR 0x5C, CHR ''u'', CHR ''f'', CHR ''f'', CHR ''f'', CHR ''d''] @ esc r
       | Suc n \<Rightarrow>
           (if a # take n r = [0xE2, 0x80, 0xA8]
              then bytes_of [CHR 0x5C, CHR ''u'', CHR ''2'', CHR ''0'', CHR ''2'', CHR ''8'']
            else if a # take n r = [0xE2, 0x80, 0xA9]
              then bytes_of [CHR 0x5C, CHR ''u'', CHR ''2'', CHR ''0'', CHR ''2'', CHR ''9'']
            else a # take n r) @ esc (drop n r)))"
  by pat_completeness auto
termination
  by (relation "measure length") (auto simp: less_Suc_eq_le)

declare esc.simps [simp del]

text \<open>\<^verbatim>\<open>json.Marshal\<close> of a string.\<close>

definition marshal_string :: "bytes \<Rightarrow> bytes" where
  "marshal_string s = 0x22 # esc s @ [0x22]"

fun join :: "byte \<Rightarrow> bytes list \<Rightarrow> bytes" where
  "join sep [] = []"
| "join sep [x] = x"
| "join sep (x # y # zs) = x @ sep # join sep (y # zs)"

end
