(* ===== verification/Sha256.thy ===== *)
theory Sha256
  imports Figwal_Prelude
begin

text \<open>
  The standard library's \<^verbatim>\<open>sha256.Sum256\<close> and \<^verbatim>\<open>hex.EncodeToString\<close>, which
  \<^verbatim>\<open>segment/hash.go\<close> uses for the value hash of a JSON record: padding to blocks of 64 bytes,
  the message schedule and the 64 rounds on 32-bit words.
\<close>

unbundle bit_operations_syntax

definition rotr :: "nat \<Rightarrow> 32 word \<Rightarrow> 32 word" where
  "rotr n x = drop_bit n x OR push_bit (32 - n) x"

text \<open>
  The constants are the first 32 bits behind the point of roots of the first primes: cube roots for the
  rounds, square roots for the initial state. \<open>root_bits k n b m\<close> adds the bits of the \<open>k\<close>-th root
  of \<open>m\<close> below \<open>2 ^ n\<close> to \<open>b\<close>, highest first.
\<close>

definition sha_primes :: "nat list" where
  "sha_primes = filter (\<lambda>p. list_all (\<lambda>d. p mod d \<noteq> 0) [2..<p]) [2..<312]"

fun root_bits :: "nat \<Rightarrow> nat \<Rightarrow> nat \<Rightarrow> nat \<Rightarrow> nat" where
  "root_bits k 0 b m = b"
| "root_bits k (Suc n) b m = root_bits k n (if (b + 2 ^ n) ^ k \<le> m then b + 2 ^ n else b) m"

definition root_word :: "nat \<Rightarrow> nat \<Rightarrow> 32 word" where
  "root_word k p = word_of_nat (root_bits k 37 0 (p * 2 ^ (32 * k)))"

definition sha_K :: "32 word list" where
  "sha_K = map (root_word 3) sha_primes"

type_synonym sha_state =
  "32 word \<times> 32 word \<times> 32 word \<times> 32 word \<times> 32 word \<times> 32 word \<times> 32 word \<times> 32 word"

definition sha_init :: sha_state where
  "sha_init = (root_word 2 2, root_word 2 3, root_word 2 5, root_word 2 7,
     root_word 2 11, root_word 2 13, root_word 2 17, root_word 2 19)"

text \<open>The message: a one bit, zeros, and the length in bits as 64 bits, big end first.\<close>

fun be_bytes :: "nat \<Rightarrow> nat \<Rightarrow> bytes" where
  "be_bytes 0 n = []"
| "be_bytes (Suc k) n = be_bytes k (n div 256) @ [word_of_nat (n mod 256)]"

definition sha_pad :: "bytes \<Rightarrow> bytes" where
  "sha_pad b = b @ [0x80] @ replicate ((119 - length b mod 64) mod 64) 0 @ be_bytes 8 (8 * length b)"

definition be_word :: "byte \<Rightarrow> byte \<Rightarrow> byte \<Rightarrow> byte \<Rightarrow> 32 word" where
  "be_word a b c d = push_bit 24 (ucast a) OR push_bit 16 (ucast b) OR push_bit 8 (ucast c) OR ucast d"

fun be_words :: "bytes \<Rightarrow> 32 word list" where
  "be_words (a # b # c # d # r) = be_word a b c d # be_words r"
| "be_words _ = []"

text \<open>The window of the last sixteen schedule words moves by one word per round.\<close>

definition sha_next :: "32 word list \<Rightarrow> 32 word" where
  "sha_next ws =
     (let v1 = ws ! 14; t1 = rotr 17 v1 XOR rotr 19 v1 XOR drop_bit 10 v1;
          v2 = ws ! 1; t2 = rotr 7 v2 XOR rotr 18 v2 XOR drop_bit 3 v2 in
      t1 + ws ! 9 + t2 + ws ! 0)"

definition sha_round :: "32 word list \<times> sha_state \<Rightarrow> 32 word \<Rightarrow> 32 word list \<times> sha_state" where
  "sha_round = (\<lambda>(ws, (a, b, c, d, e, f, g, h)) k.
     let t1 = h + (rotr 6 e XOR rotr 11 e XOR rotr 25 e) + ((e AND f) XOR (NOT e AND g)) + k + ws ! 0;
         t2 = (rotr 2 a XOR rotr 13 a XOR rotr 22 a) + ((a AND b) XOR (a AND c) XOR (b AND c)) in
     (tl ws @ [sha_next ws], (t1 + t2, a, b, c, d + t1, e, f, g)))"

definition sha_add :: "sha_state \<Rightarrow> sha_state \<Rightarrow> sha_state" where
  "sha_add = (\<lambda>(a, b, c, d, e, f, g, h) (a', b', c', d', e', f', g', h').
     (a + a', b + b', c + c', d + d', e + e', f + f', g + g', h + h'))"

definition sha_block :: "sha_state \<Rightarrow> bytes \<Rightarrow> sha_state" where
  "sha_block st blk = sha_add st (snd (foldl sha_round (be_words blk, st) sha_K))"

fun sha_blocks :: "nat \<Rightarrow> sha_state \<Rightarrow> bytes \<Rightarrow> sha_state" where
  "sha_blocks 0 st b = st"
| "sha_blocks (Suc n) st b = sha_blocks n (sha_block st (take 64 b)) (drop 64 b)"

definition word_bytes :: "32 word \<Rightarrow> bytes" where
  "word_bytes w = be_bytes 4 (unat w)"

definition Sum256 :: "bytes \<Rightarrow> bytes" where
  "Sum256 b = (case sha_blocks (length (sha_pad b) div 64) sha_init (sha_pad b) of
     (a, b, c, d, e, f, g, h) \<Rightarrow> concat (map word_bytes [a, b, c, d, e, f, g, h]))"

text \<open>\<^verbatim>\<open>hex.EncodeToString\<close>.\<close>

definition hex_byte :: "nat \<Rightarrow> byte" where
  "hex_byte d = [48, 49, 50, 51, 52, 53, 54, 55, 56, 57, 97, 98, 99, 100, 101, 102] ! d"

definition EncodeToString :: "bytes \<Rightarrow> bytes" where
  "EncodeToString b = concat (map (\<lambda>x. [hex_byte (unat x div 16), hex_byte (unat x mod 16)]) b)"

lemma length_be_bytes [simp]: "length (be_bytes k n) = k"
  by (induction k arbitrary: n) simp_all

lemma length_Sum256 [simp]: "length (Sum256 b) = 32"
  by (auto simp: Sum256_def word_bytes_def split: prod.split)

lemma length_EncodeToString [simp]: "length (EncodeToString b) = 2 * length b"
  by (induction b) (simp_all add: EncodeToString_def)

definition is_hex :: "byte \<Rightarrow> bool" where
  "is_hex b \<longleftrightarrow> 48 \<le> unat b \<and> unat b \<le> 57 \<or> 97 \<le> unat b \<and> unat b \<le> 102"

lemma is_hex_hex_byte: "d < 16 \<Longrightarrow> is_hex (hex_byte d)"
proof -
  let ?digits = "[48, 49, 50, 51, 52, 53, 54, 55, 56, 57, 97, 98, 99, 100, 101, 102] :: bytes"
  assume "d < 16"
  then have "hex_byte d \<in> set ?digits" unfolding hex_byte_def by (intro nth_mem) simp
  moreover have "list_all is_hex ?digits" by (simp add: is_hex_def)
  ultimately show ?thesis unfolding list_all_iff by blast
qed

lemma EncodeToString_hex: "x \<in> set (EncodeToString b) \<Longrightarrow> is_hex x"
proof -
  have "unat (y :: byte) < 2 ^ LENGTH(8)" for y by (rule unsigned_less)
  then have "unat (y :: byte) div 16 < 16" for y
    by (simp add: less_mult_imp_div_less)
  then show "x \<in> set (EncodeToString b) \<Longrightarrow> is_hex x"
    by (auto simp: EncodeToString_def is_hex_hex_byte)
qed

end
