(* ===== verification/Jsonl_Codec.thy ===== *)
theory Jsonl_Codec
  imports Codec Json Sha256 Go_Strings
begin

text \<open>
  The value hash of \<^verbatim>\<open>segment/hash.go\<close> and the JSONL codec of \<^verbatim>\<open>segment/codec.go\<close>: a record is
  one line that holds a JSON object with the hash and the index of the record beside the payload's own
  keys. The codec keeps the contract of \<open>lawful_codec\<close> on payloads in canonical form whose keys
  sort after the two reserved ones (interpretation \<open>jsonl\<close>); of any other object it keeps the value.
\<close>

section \<open>Canonical form and value hash\<close>

text \<open>
  \<^verbatim>\<open>marshalCanonical\<close>: keys in byte order, no white space. The numbers it sees are the texts
  the decoder accepted and indices printed in decimal, so marshalling cannot fail.
\<close>

fun marshalCanonical :: "json \<Rightarrow> bytes" where
  "marshalCanonical JNull = bytes_of ''null''"
| "marshalCanonical (JBool b) = (if b then bytes_of ''true'' else bytes_of ''false'')"
| "marshalCanonical (JNum s) = s"
| "marshalCanonical (JStr s) = marshal_string s"
| "marshalCanonical (JArr vs) = 0x5B # join 0x2C (map marshalCanonical vs) @ [0x5D]"
| "marshalCanonical (JObj kvs) = 0x7B # join 0x2C (map (\<lambda>(k, t). marshal_string k @ 0x3A # t)
     (sort_key fst (map (\<lambda>(k, v). (k, marshalCanonical v)) kvs))) @ [0x7D]"

definition canonicalJSON :: "bytes \<Rightarrow> err + bytes" where
  "canonicalJSON b = (case json_Decode b of None \<Rightarrow> Inl (ErrMsg ''json'') | Some v \<Rightarrow> Inr (marshalCanonical v))"

definition hashHexLen :: nat where
  "hashHexLen = 16"

definition hashCanonical :: "bytes \<Rightarrow> bytes" where
  "hashCanonical canon = take hashHexLen (EncodeToString (Sum256 canon))"

definition ValueHash :: "bytes \<Rightarrow> err + string" where
  "ValueHash b = rbind (canonicalJSON b) (\<lambda>canon. Inr (text_of (hashCanonical canon)))"

section \<open>The codec\<close>

definition decodeJSONObject :: "bytes \<Rightarrow> err + (bytes \<times> json) list" where
  "decodeJSONObject b = (case json_Decode b of
     None \<Rightarrow> Inl ErrNotJSON | Some (JObj kvs) \<Rightarrow> Inr kvs | Some _ \<Rightarrow> Inl ErrNotObject)"

definition sidecarIdx :: bytes where
  "sidecarIdx = bytes_of ''_idx''"

definition sidecarHash :: bytes where
  "sidecarHash = bytes_of ''_hash''"

definition hashPrefix :: bytes where
  "hashPrefix = bytes_of ([CHR 0x7B, CHR 0x22] @ ''_hash'' @ [CHR 0x22, CHR 0x3A, CHR 0x22])"

definition idxPrefix :: bytes where
  "idxPrefix = bytes_of ([CHR 0x22, CHR 0x2C, CHR 0x22] @ ''_idx'' @ [CHR 0x22, CHR 0x3A])"

definition JSONLCodec_Hash :: "bytes \<Rightarrow> err + string" where
  "JSONLCodec_Hash payload = ValueHash payload"

definition JSONLCodec_Frame :: "nat \<Rightarrow> bytes \<Rightarrow> err + bytes" where
  "JSONLCodec_Frame idx payload =
     rbind (decodeJSONObject payload) (\<lambda>obj.
       if map_of obj sidecarIdx \<noteq> None then Inl ErrReservedKey
       else if map_of obj sidecarHash \<noteq> None then Inl ErrReservedKey
       else let canon = marshalCanonical (JObj obj);
                obj1 = AList.update sidecarIdx (JNum (bytes_of (dec idx))) obj;
                obj2 = AList.update sidecarHash (JStr (hashCanonical canon)) obj1 in
         Inr (marshalCanonical (JObj obj2) @ [10]))"

text \<open>
  The result of the fast path for a line in the form the codec writes: the comma after the index
  becomes the opening brace of the payload.
\<close>

definition fastDecodeCanonicalLine :: "bytes \<Rightarrow> bytes option" where
  "fastDecodeCanonicalLine line =
     (let p0 = length hashPrefix + hashHexLen;
          p1 = p0 + length idxPrefix;
          p = p1 + length (takeWhile is_dig (drop p1 line)) in
      if length line < p1 + 1 + 1 then None
      else if \<not> prefix hashPrefix line then None
      else if \<not> prefix idxPrefix (drop p0 line) then None
      else if p = p1 then None
      else if last line \<noteq> 0x7D then None
      else if line ! p = 0x7D then (if p \<noteq> length line - 1 then None else Some [0x7B, 0x7D])
      else if line ! p = 0x2C then Some (0x7B # drop (p + 1) line)
      else None)"

definition slowDecodeJSONLLine :: "bytes \<Rightarrow> bool \<Rightarrow> err + bytes" where
  "slowDecodeJSONLLine line verify = (case decodeJSONObject line of
     Inl _ \<Rightarrow> Inl ErrCorrupt
   | Inr obj \<Rightarrow> (case map_of obj sidecarHash of
       Some (JStr storedHash) \<Rightarrow>
         if map_of obj sidecarIdx = None then Inl ErrCorrupt
         else let payload = marshalCanonical (JObj (AList.delete sidecarIdx (AList.delete sidecarHash obj))) in
           if verify \<and> hashCanonical payload \<noteq> storedHash then Inl ErrCorrupt else Inr payload
     | _ \<Rightarrow> Inl ErrCorrupt))"

definition decodeJSONLLine :: "bytes \<Rightarrow> bool \<Rightarrow> err + bytes" where
  "decodeJSONLLine line0 verify =
     (let line = (if line0 \<noteq> [] \<and> last line0 = 10 then butlast line0 else line0);
          stored = (if verify \<and> length line \<ge> length hashPrefix + hashHexLen \<and> prefix hashPrefix line
                    then take hashHexLen (drop (length hashPrefix) line) else []) in
      case fastDecodeCanonicalLine line of
        Some payload \<Rightarrow> if verify \<and> hashCanonical payload \<noteq> stored then Inl ErrCorrupt else Inr payload
      | None \<Rightarrow> slowDecodeJSONLLine line verify)"

definition JSONLCodec_ReadFrame :: "bytes \<Rightarrow> int \<Rightarrow> int \<Rightarrow> err + bytes \<times> int" where
  "JSONLCodec_ReadFrame r off nextOff =
     (if nextOff \<le> off then Inl (ErrMsg ''jsonl ReadFrame requires nextOff > off'')
      else rbind (readAt r (nextOff - off) off) (\<lambda>buf.
        rbind (decodeJSONLLine buf False) (\<lambda>payload. Inr (payload, nextOff - off))))"

text \<open>The scan reads line by line and stops at the first line that does not verify, or that has no end.\<close>

function jsonl_scan :: "nat \<Rightarrow> bytes \<Rightarrow> (nat \<times> nat) list" where
  "jsonl_scan off r =
     (if 10 \<notin> set r then []
      else let frame = takeWhile (\<lambda>x. x \<noteq> 10) r @ [10] in
        case decodeJSONLLine frame True of
          Inl _ \<Rightarrow> []
        | Inr _ \<Rightarrow> (off, length frame) # jsonl_scan (off + length frame) (drop (length frame) r))"
  by pat_completeness auto
termination
  by (relation "measure (\<lambda>(off, r). length r)") (auto intro!: diff_less dest: length_pos_if_in_set)

declare jsonl_scan.simps [simp del]

definition JSONLCodec_ScanFrames :: "bytes \<Rightarrow> (nat \<times> nat) list" where
  "JSONLCodec_ScanFrames r = jsonl_scan 0 r"

definition JSONLCodec :: codec where
  "JSONLCodec = \<lparr>c_Frame = JSONLCodec_Frame, c_ReadFrame = JSONLCodec_ReadFrame,
     c_ScanFrames = JSONLCodec_ScanFrames, c_Hash = JSONLCodec_Hash,
     c_FileExt = ''.jsonl'', c_Name = ''jsonl''\<rparr>"

section \<open>The line the codec writes\<close>

text \<open>
  The canonical payloads whose keys all sort after \<^verbatim>\<open>_idx\<close>. A payload in canonical form never
  holds a line feed: the conjunct only spares its proof.
\<close>

definition jsonl_stable :: "bytes \<Rightarrow> bool" where
  "jsonl_stable p \<longleftrightarrow> (case decodeJSONObject p of
     Inl _ \<Rightarrow> False
   | Inr obj \<Rightarrow> marshalCanonical (JObj obj) = p \<and> list_all (\<lambda>(k, _). sidecarIdx < k) obj \<and> 10 \<notin> set p)"

definition jsonl_body :: "nat \<Rightarrow> bytes \<Rightarrow> bytes" where
  "jsonl_body idx p = bytes_of (dec idx) @ (if p = [0x7B, 0x7D] then [0x7D] else 0x2C # tl p)"

definition jsonl_line :: "nat \<Rightarrow> bytes \<Rightarrow> bytes" where
  "jsonl_line idx p = hashPrefix @ hashCanonical p @ idxPrefix @ jsonl_body idx p"

definition jsonl_frame :: "bytes \<Rightarrow> bytes \<Rightarrow> bool" where
  "jsonl_frame f p \<longleftrightarrow> jsonl_stable p \<and> (\<exists>idx. f = jsonl_line idx p @ [10])"

lemma length_hashCanonical [simp]: "length (hashCanonical p) = hashHexLen"
  by (simp add: hashCanonical_def hashHexLen_def)

lemma hashCanonical_hex: "x \<in> set (hashCanonical p) \<Longrightarrow> is_hex x"
  by (auto simp: hashCanonical_def dest: in_set_takeD EncodeToString_hex)

lemma is_hex_bytes:
  "is_hex x \<Longrightarrow> unat x < 128 \<and> esc_ascii x = [x] \<and> x \<noteq> 10 \<and> x \<noteq> 0x22"
proof -
  assume x: "is_hex x"
  then have "\<not> unat x < 32" "unat x < 128" "unat x \<noteq> 0x5C" "unat x \<noteq> 0x22" "unat x \<noteq> 0x3C"
    "unat x \<noteq> 0x3E" "unat x \<noteq> 0x26" "unat x \<noteq> 10" "unat x \<noteq> 8" "unat x \<noteq> 12" "unat x \<noteq> 13"
    "unat x \<noteq> 9"
    by (auto simp: is_hex_def)
  then show ?thesis by (auto simp: esc_ascii_def)
qed

lemma esc_hex: "(\<And>x. x \<in> set s \<Longrightarrow> is_hex x) \<Longrightarrow> esc s = s"
  by (induction s) (simp_all add: esc.simps is_hex_bytes)

text \<open>The two reserved keys go to the front.\<close>

lemma insort_key_front:
  "(\<And>y. y \<in> set ys \<Longrightarrow> f y < f x) \<Longrightarrow> insort_key f x (ys @ zs) = ys @ insort_key f x zs"
  by (induction ys) (auto dest: leD)

lemma sort_key_front:
  assumes "\<And>x y. x \<in> set xs \<Longrightarrow> y \<in> set ys \<Longrightarrow> f y < f x" "sorted (map f ys)"
  shows "sort_key f (xs @ ys) = ys @ sort_key f xs"
proof -
  have "foldr (insort_key f) xs (ys @ zs) = ys @ foldr (insort_key f) xs zs" for zs
    using assms(1) by (induction xs) (simp_all add: insort_key_front)
  moreover have "foldr (insort_key f) ys [] = ys"
    using sort_key_id_if_sorted [OF assms(2)] by (simp add: sort_key_def)
  ultimately show ?thesis by (simp add: sort_key_def) (metis append_Nil2)
qed

lemma sort_key_swap: "f b \<le> f a \<Longrightarrow> f a \<noteq> f b \<Longrightarrow> sort_key f (xs @ [a, b]) = sort_key f (xs @ [b, a])"
  by (simp add: sort_key_def)

lemma update_new: "k \<notin> fst ` set al \<Longrightarrow> AList.update k v al = al @ [(k, v)]"
  by (induction al) auto

lemma join_two: "join sep (x # y # es) = x @ sep # y @ (if es = [] then [] else sep # join sep es)"
  by (cases es) simp_all

lemma join_Nil_iff: "[] \<notin> set es \<Longrightarrow> join sep es = [] \<longleftrightarrow> es = []"
  by (cases "(sep, es)" rule: join.cases) auto

lemma marshal_sidecars:
  "marshal_string sidecarHash = bytes_of ([CHR 0x22] @ ''_hash'' @ [CHR 0x22])"
  "marshal_string sidecarIdx = bytes_of ([CHR 0x22] @ ''_idx'' @ [CHR 0x22])"
  by (simp_all add: marshal_string_def sidecarHash_def sidecarIdx_def esc.simps esc_ascii_def)

lemma JSONLCodec_Frame_line:
  assumes "decodeJSONObject p = Inr obj" "list_all (\<lambda>(k, _). sidecarIdx < k) obj"
  shows "JSONLCodec_Frame idx p = Inr (jsonl_line idx (marshalCanonical (JObj obj)) @ [10])"
proof -
  define canon where "canon = marshalCanonical (JObj obj)"
  define kts where "kts = map (\<lambda>(k, v). (k, marshalCanonical v)) obj"
  define es where "es = map (\<lambda>(k, t). marshal_string k @ 0x3A # t) (sort_key fst kts)"
  let ?h = "(sidecarHash, JStr (hashCanonical canon))" and ?i = "(sidecarIdx, JNum (bytes_of (dec idx)))"
  have order: "sidecarHash < sidecarIdx" by (simp add: sidecarHash_def sidecarIdx_def)
  have new: "sidecarIdx \<notin> fst ` set obj" "sidecarHash \<notin> fst ` set obj"
    using assms(2) order by (force simp: list_all_iff)+
  have "sidecarHash \<noteq> sidecarIdx" using order by auto
  then have upd: "AList.update sidecarHash (snd ?h) (AList.update sidecarIdx (snd ?i) obj) = obj @ [?i, ?h]"
    using new by (simp add: update_new)
  have "sort_key fst (map (\<lambda>(k, v). (k, marshalCanonical v)) (obj @ [?i, ?h])) =
      (sidecarHash, marshal_string (hashCanonical canon)) # (sidecarIdx, bytes_of (dec idx)) # sort_key fst kts"
    using sort_key_front [of kts "[(sidecarHash, marshal_string (hashCanonical canon)), (sidecarIdx, bytes_of (dec idx))]" fst]
      sort_key_swap [of fst _ _ kts] assms(2) order
    by (force simp: kts_def list_all_iff)
  then have "marshalCanonical (JObj (obj @ [?i, ?h])) =
      0x7B # join 0x2C ((marshal_string sidecarHash @ 0x3A # marshal_string (hashCanonical canon)) #
        (marshal_string sidecarIdx @ 0x3A # bytes_of (dec idx)) # es) @ [0x7D]"
    by (simp add: es_def)
  moreover have "canon = 0x7B # join 0x2C es @ [0x7D]" by (simp add: canon_def es_def kts_def)
  moreover have "join 0x2C es = [] \<longleftrightarrow> es = []"
    by (rule join_Nil_iff) (auto simp: es_def marshal_string_def)
  ultimately have "marshalCanonical (JObj (obj @ [?i, ?h])) = jsonl_line idx canon"
    using esc_hex [of "hashCanonical canon"] hashCanonical_hex
    by (simp add: join_two jsonl_line_def jsonl_body_def hashPrefix_def idxPrefix_def marshal_sidecars
        marshal_string_def [of "hashCanonical _"] del: join.simps marshalCanonical.simps)
  moreover have "map_of obj sidecarIdx = None" "map_of obj sidecarHash = None"
    using new by (simp_all add: map_of_eq_None_iff)
  ultimately show ?thesis
    using assms(1) upd by (simp add: JSONLCodec_Frame_def canon_def)
qed

section \<open>Reading the line back\<close>

lemma is_dig_dec: "x \<in> set (bytes_of (dec n)) \<Longrightarrow> is_dig x \<and> x \<noteq> 10"
proof -
  assume "x \<in> set (bytes_of (dec n))"
  then obtain c where c: "c \<in> set (dec n)" "x = word_of_nat (of_char c)" by (auto simp: bytes_of_def)
  have d: "48 \<le> (of_char c :: nat)" "(of_char c :: nat) \<le> 57"
    using dec_digits [of n] c(1) by (auto simp: list_all_iff is_digit_def)
  then have u: "unat x = of_char c"
    by (simp add: c(2) unsigned_of_nat take_bit_eq_mod)
  then have "unat x \<noteq> 10" using d by simp
  then show ?thesis using d u by (auto simp: is_dig_def in_range_def)
qed

lemma takeWhile_digits:
  "\<not> is_dig y \<Longrightarrow> takeWhile is_dig (bytes_of (dec n) @ y # r) = bytes_of (dec n)"
  by (subst takeWhile_append2) (auto simp: is_dig_dec)

text \<open>What is needed of a canonical payload: its braces.\<close>

lemma canonical_shape:
  "marshalCanonical (JObj obj) \<noteq> [] \<and> hd (marshalCanonical (JObj obj)) = 0x7B \<and>
   last (marshalCanonical (JObj obj)) = 0x7D \<and> length (marshalCanonical (JObj obj)) \<ge> 2"
  by simp

lemma prefix_lengths [simp]: "length hashPrefix = 10" "length idxPrefix = 9"
  by (simp_all add: hashPrefix_def idxPrefix_def)

lemma fastDecode_line:
  assumes "hd p = 0x7B" "last p = 0x7D" "2 \<le> length p"
  shows "fastDecodeCanonicalLine (jsonl_line idx p) = Some p"
proof -
  let ?l = "jsonl_line idx p" and ?d = "bytes_of (dec idx)"
  define y r where "y = (if p = [0x7B, 0x7D] then 0x7D else 0x2C :: byte)"
    and "r = (if p = [0x7B, 0x7D] then [] else tl p)"
  have body: "jsonl_body idx p = ?d @ y # r" by (simp add: jsonl_body_def y_def r_def)
  have drop: "drop 35 ?l = ?d @ y # r" "drop 26 ?l = idxPrefix @ ?d @ y # r"
    by (simp_all add: jsonl_line_def body hashHexLen_def)
  have tw: "takeWhile is_dig (?d @ y # r) = ?d"
    by (rule takeWhile_digits) (simp add: y_def is_dig_def in_range_def)
  have pos: "?d \<noteq> []" by (simp add: bytes_of_def)
  have len: "length ?l = 35 + length ?d + 1 + length r"
    by (simp add: jsonl_line_def body hashHexLen_def)
  have pre: "prefix hashPrefix ?l" by (simp add: jsonl_line_def)
  have nth: "?l ! (35 + length ?d) = y" "drop (35 + length ?d + 1) ?l = r"
    by (simp_all add: jsonl_line_def body hashHexLen_def nth_append)
  have last: "last ?l = 0x7D"
  proof -
    have "last ?l = last (y # r)" by (simp add: jsonl_line_def body)
    then show ?thesis using assms(2,3) by (cases p; cases "tl p") (auto simp: y_def r_def)
  qed
  have p: "p = 0x7B # tl p" using assms(1,3) by (cases p) auto
  show ?thesis
    using drop tw pos len pre nth last p
    by (auto simp: fastDecodeCanonicalLine_def Let_def hashHexLen_def y_def r_def split: if_splits)
qed

lemma decode_line:
  assumes "hd p = 0x7B" "last p = 0x7D" "2 \<le> length p" "10 \<notin> set p"
  shows "decodeJSONLLine (jsonl_line idx p @ [10]) verify = Inr p"
proof -
  have "take 16 (drop 10 (jsonl_line idx p)) = hashCanonical p" "prefix hashPrefix (jsonl_line idx p)"
    "26 \<le> length (jsonl_line idx p)"
    by (simp_all add: jsonl_line_def hashHexLen_def)
  then show ?thesis
    using fastDecode_line [OF assms(1-3)] by (simp add: decodeJSONLLine_def hashHexLen_def Let_def)
qed

lemma line_no_newline:
  assumes "10 \<notin> set p"
  shows "10 \<notin> set (jsonl_line idx p)"
proof -
  have "10 \<notin> set (tl p)" using assms by (cases p) auto
  moreover have "10 \<notin> set (hashCanonical p)" using hashCanonical_hex is_hex_bytes by blast
  moreover have "10 \<notin> set (bytes_of (dec idx))" using is_dig_dec by blast
  moreover have "10 \<notin> set hashPrefix" "10 \<notin> set idxPrefix" by (simp_all add: hashPrefix_def idxPrefix_def)
  ultimately show ?thesis by (simp add: jsonl_line_def jsonl_body_def)
qed

section \<open>The JSONL codec keeps the contract\<close>

lemma jsonl_stable_shape:
  assumes "jsonl_stable p"
  shows "hd p = 0x7B" "last p = 0x7D" "2 \<le> length p" "10 \<notin> set p"
proof -
  obtain obj where p: "p = marshalCanonical (JObj obj)" "10 \<notin> set p"
    using assms by (auto simp: jsonl_stable_def simp del: marshalCanonical.simps split: sum.splits)
  then show "hd p = 0x7B" "last p = 0x7D" "2 \<le> length p" "10 \<notin> set p"
    using canonical_shape [of obj] by (simp_all del: marshalCanonical.simps)
qed

lemma jsonl_frame_of_stable:
  "jsonl_stable p \<Longrightarrow> JSONLCodec_Frame idx p = Inr (jsonl_line idx p @ [10])"
  by (auto simp: jsonl_stable_def JSONLCodec_Frame_line simp del: marshalCanonical.simps split: sum.splits)

lemma jsonl_frameE:
  assumes "jsonl_frame f p"
  obtains l where "f = l @ [10]" "10 \<notin> set l" "decodeJSONLLine f True = Inr p" "decodeJSONLLine f False = Inr p"
proof -
  obtain idx where i: "f = jsonl_line idx p @ [10]" and st: "jsonl_stable p"
    using assms by (auto simp: jsonl_frame_def)
  note shape = jsonl_stable_shape [OF st]
  show ?thesis
    by (rule that [OF i line_no_newline [OF shape(4)]]) (simp_all only: i decode_line [OF shape])
qed

lemma jsonl_scan_shift:
  "jsonl_scan (off + k) r = map (\<lambda>(o', n). (o' + k, n)) (jsonl_scan off r)"
proof (induction off r rule: jsonl_scan.induct)
  case (1 off r)
  let ?f = "takeWhile (\<lambda>x. x \<noteq> 10) r @ [10]"
  have "off + k + length ?f = off + length ?f + k" by simp
  then show ?case
    using 1 by (subst (1 2) jsonl_scan.simps) (auto simp: Let_def ac_simps split: sum.split)
qed

lemma jsonl_scan_Cons:
  assumes "jsonl_frame f p"
  shows "jsonl_scan 0 (f @ rest) = (0, length f) # map (\<lambda>(off, n). (off + length f, n)) (jsonl_scan 0 rest)"
proof -
  obtain l where l: "f = l @ [10]" "10 \<notin> set l" "decodeJSONLLine f True = Inr p"
    using jsonl_frameE [OF assms] by blast
  have tw: "takeWhile (\<lambda>x. x \<noteq> 10) (f @ rest) = l"
    using l(1,2) by (induction l arbitrary: f) auto
  have "jsonl_scan 0 (f @ rest) = (0, length f) # jsonl_scan (length f) rest"
    by (subst jsonl_scan.simps) (use l tw in \<open>simp add: Let_def\<close>)
  then show ?thesis using jsonl_scan_shift [of 0 "length f" rest] by simp
qed

interpretation jsonl: lawful_codec JSONLCodec jsonl_stable jsonl_frame
proof
  show "c_ScanFrames JSONLCodec [] = []"
    by (simp add: JSONLCodec_def JSONLCodec_ScanFrames_def jsonl_scan.simps)
next
  fix f p rest assume "jsonl_frame f p"
  then show "c_ScanFrames JSONLCodec (f @ rest) =
      (0, length f) # map (\<lambda>(off, n). (off + length f, n)) (c_ScanFrames JSONLCodec rest)"
    by (simp add: JSONLCodec_def JSONLCodec_ScanFrames_def jsonl_scan_Cons)
next
  fix f p g assume f: "jsonl_frame f p" and "strict_prefix g f"
  obtain l where l: "f = l @ [10]" "10 \<notin> set l" using jsonl_frameE [OF f] by blast
  with \<open>strict_prefix g f\<close> have "prefix g l" by (auto simp: strict_prefix_def)
  with l(2) have "10 \<notin> set g" by (auto simp: prefix_def)
  then show "c_ScanFrames JSONLCodec g = []"
    by (simp add: JSONLCodec_def JSONLCodec_ScanFrames_def jsonl_scan.simps)
next
  fix f p pre post assume f: "jsonl_frame f p"
  have "0 < length f" "decodeJSONLLine f False = Inr p" using jsonl_frameE [OF f] by blast+
  then show "c_ReadFrame JSONLCodec (pre @ f @ post) (int (length pre)) (int (length pre + length f)) =
      Inr (p, int (length f))"
    by (simp add: JSONLCodec_def JSONLCodec_ReadFrame_def readAt_def)
qed (auto simp: JSONLCodec_def jsonl_frame_of_stable jsonl_frame_def)

end
