(* ===== verification/Fork_Marker.thy ===== *)
theory Fork_Marker
  imports Vfs Go_Strings
begin

text \<open>
  What \<^verbatim>\<open>disk/fork.go\<close> keeps in a log directory besides the segments: the \<^verbatim>\<open>.fork\<close> marker of a
  child with the index it begins at, the sentinel of a fork in progress, and the child directories that
  make a log a branch point.
\<close>

definition forkMarkerName :: string where
  "forkMarkerName = ''.fork''"

definition forkPendingName :: string where
  "forkPendingName = ''.fork-pending''"

text \<open>The lines of a marker: the first \<^verbatim>\<open>base\<close> counts, other keys are skipped.\<close>

fun marker_lines :: "string list \<Rightarrow> err + nat" where
  "marker_lines [] = Inl (ErrMsg ''.fork present but missing base= field'')"
| "marker_lines (l # ls) =
     (let line = TrimSpace l in
      if line = '''' then marker_lines ls
      else case Cut line (CHR ''='') of
        None \<Rightarrow> Inl (ErrMsg ''malformed .fork line'')
      | Some (k, v) \<Rightarrow> if TrimSpace k = ''base'' then ParseUint (TrimSpace v) else marker_lines ls)"

definition readForkMarker :: "sys \<Rightarrow> path \<Rightarrow> err + nat" where
  "readForkMarker w dir = (case os_ReadFile w (dir @ [forkMarkerName]) of
     Inl e \<Rightarrow> if e = ErrNotExist then Inr 0 else Inl e
   | Inr data \<Rightarrow> marker_lines (Split (TrimSpace (text_of data)) (CHR 10)))"

definition writeForkMarker :: "sys \<Rightarrow> path \<Rightarrow> nat \<Rightarrow> (err + unit) \<times> sys" where
  "writeForkMarker w dir base =
     (let final = dir @ [forkMarkerName]; tmp = dir @ [forkMarkerName @ ''.tmp''];
          body = bytes_of (''base='' @ dec base @ [CHR 10]) in
      sbind (os_WriteFile w tmp body) (\<lambda>_ w. os_Rename w tmp final))"

definition hasForkPending :: "sys \<Rightarrow> path \<Rightarrow> bool" where
  "hasForkPending w dir \<longleftrightarrow> stat w (dir @ [forkPendingName]) \<noteq> None"

text \<open>The child directories of a log, those with a leading dot left out.\<close>

definition childSubdirs :: "sys \<Rightarrow> path \<Rightarrow> err + string list" where
  "childSubdirs w dir = rbind (os_ReadDir w dir) (\<lambda>es.
     Inr (map fst (filter (\<lambda>(n, isDir). isDir \<and> \<not> HasPrefix n ''.'') es)))"

definition hasSubdirs :: "sys \<Rightarrow> path \<Rightarrow> err + bool" where
  "hasSubdirs w dir = rbind (os_ReadDir w dir) (\<lambda>es.
     Inr (list_ex (\<lambda>(n, isDir). isDir \<and> \<not> HasPrefix n ''.'') es))"

definition validateForkName :: "string \<Rightarrow> err + unit" where
  "validateForkName name =
     (if name = '''' \<or> name = ''.'' \<or> name = ''..'' then Inl ErrInvalidForkName
      else if ContainsAny name [CHR ''/'', CHR 0x5C] then Inl ErrInvalidForkName
      else Inr ())"

text \<open>The declared base of every child fork, by name.\<close>

definition ChildForkBases :: "sys \<Rightarrow> path \<Rightarrow> err + (string \<times> nat) list" where
  "ChildForkBases w dir = rbind (childSubdirs w dir)
     (traverse (\<lambda>name. rbind (readForkMarker w (dir @ [name])) (\<lambda>base. Inr (name, base))))"

section \<open>Lemmas\<close>

lemma hasSubdirs_childSubdirs:
  "hasSubdirs w dir = rbind (childSubdirs w dir) (\<lambda>ns. Inr (ns \<noteq> []))"
  by (cases "os_ReadDir w dir")
    (auto simp: hasSubdirs_def childSubdirs_def list_ex_iff filter_empty_conv)

lemma childSubdirs_dir:
  "stat w dir = Some Dir \<Longrightarrow> childSubdirs w dir =
     Inr (filter (\<lambda>n. stat w (dir @ [n]) = Some Dir \<and> \<not> HasPrefix n ''.'') (dir_names w dir))"
  by (simp add: childSubdirs_def os_ReadDir_def filter_map o_def)

lemma hasSubdirs_dir:
  assumes "stat w dir = Some Dir"
  shows "hasSubdirs w dir = Inr (\<exists>n. stat w (dir @ [n]) = Some Dir \<and> \<not> HasPrefix n ''.'')"
  using assms set_dir_names [of w dir]
  by (auto simp: hasSubdirs_childSubdirs childSubdirs_dir filter_empty_conv)

lemma digit_plain: "is_digit c \<Longrightarrow> plain c"
  by (auto simp: is_digit_def plain_def)

lemma dec_plain: "plain (hd (dec n))" "plain (last (dec n))" "CHR 10 \<notin> set (dec n)"
proof -
  have "\<forall>c\<in>set (dec n). is_digit c" using dec_digits [of n] by (simp add: list_all_iff)
  then show "plain (hd (dec n))" "plain (last (dec n))" "CHR 10 \<notin> set (dec n)"
    by (auto simp: digit_plain is_digit_def)
qed

text \<open>What is written is read back.\<close>

lemma marker_roundtrip:
  assumes "base < u64_lim"
  shows "marker_lines (Split (TrimSpace (''base='' @ dec base @ [CHR 10])) (CHR 10)) = Inr base"
proof -
  have lead: "trim_with spaces (''base='' @ dec base @ [CHR 10]) = ''base='' @ dec base @ [CHR 10]"
    by (rule trim_with_id) (auto simp: spaces_def)
  have "TrimSpace (''base='' @ dec base @ [CHR 10]) =
      rev (trim_with (map rev spaces) (CHR 10 # rev (''base='' @ dec base)))"
    unfolding TrimSpace_def lead by simp
  also have "trim_with (map rev spaces) (CHR 10 # rev (''base='' @ dec base)) =
      trim_with (map rev spaces) (rev (''base='' @ dec base))"
    by (subst trim_with.simps) (simp add: spaces_def)
  also have "\<dots> = rev (''base='' @ dec base)"
  proof (rule trim_with_id)
    fix e assume e: "e \<in> set (map rev spaces)" "e \<noteq> []"
    then have "\<not> plain (hd e)" using spaces_not_plain by (auto simp: hd_rev)
    moreover have "hd e = last (dec base)" if "prefix e (rev (''base='' @ dec base))"
      using that e(2) by (auto simp: prefix_def hd_append hd_rev [symmetric] dest!: arg_cong [of _ _ hd])
    ultimately show "\<not> prefix e (rev (''base='' @ dec base))" using dec_plain(2) [of base] by auto
  qed
  finally have trim: "TrimSpace (''base='' @ dec base @ [CHR 10]) = ''base='' @ dec base" by simp
  have "TrimSpace (''base='' @ dec base) = ''base='' @ dec base"
    using dec_plain [of base] by (intro TrimSpace_plain) (auto simp: plain_def)
  moreover have "Cut (''base='' @ dec base) (CHR ''='') = Some (''base'', dec base)"
    using Cut_first [of "CHR ''=''" "''base''" "dec base"] by simp
  moreover have "TrimSpace ''base'' = ''base''" by (intro TrimSpace_plain) (auto simp: plain_def)
  moreover have "TrimSpace (dec base) = dec base" using dec_plain [of base] by (intro TrimSpace_plain) auto
  ultimately show ?thesis
    unfolding trim using dec_plain(3) [of base] ParseUint_dec [OF assms]
    by (subst Split_none) auto
qed

lemma writeForkMarker_ok:
  assumes "stat w dir = Some Dir" "stat w (dir @ [forkMarkerName]) \<noteq> Some Dir"
    "stat w (dir @ [forkMarkerName @ ''.tmp'']) \<noteq> Some Dir"
  shows "\<exists>w'. writeForkMarker w dir base = (Inr (), w') \<and> cacheLimit w' = cacheLimit w \<and>
    stat w' = (stat w)(dir @ [forkMarkerName @ ''.tmp''] := None,
      dir @ [forkMarkerName] \<mapsto> File (bytes_of (''base='' @ dec base @ [CHR 10])))"
  using assms
  by (auto simp: writeForkMarker_def Let_def os_WriteFile_def os_Rename_def stat_put stat_del
      forkMarkerName_def)

text \<open>C12: Fork markers round-trip. Writing a marker into a log directory succeeds and reading it
  back gives the index that was written, for every 64-bit index.\<close>

theorem fork_marker_roundtrip:
  assumes "base < u64_lim" "stat w dir = Some Dir" "stat w (dir @ [forkMarkerName]) \<noteq> Some Dir"
    "stat w (dir @ [forkMarkerName @ ''.tmp'']) \<noteq> Some Dir"
  shows "fst (writeForkMarker w dir base) = Inr () \<and>
    readForkMarker (snd (writeForkMarker w dir base)) dir = Inr base"
proof -
  obtain w' where w': "writeForkMarker w dir base = (Inr (), w')"
    "stat w' (dir @ [forkMarkerName]) = Some (File (bytes_of (''base='' @ dec base @ [CHR 10])))"
    using writeForkMarker_ok [OF assms(2-4), of base] by auto
  then show ?thesis
    using marker_roundtrip [OF assms(1)]
    by (simp add: readForkMarker_def os_ReadFile_def del: bytes_of_simps)
qed

theorem fork_marker_roundtrip_witness:
  "readForkMarker (snd (writeForkMarker \<lparr>files = [([''a''], Dir)], cacheLimit = 0\<rparr> [''a''] 18446744073709551615)) [''a''] =
     Inr 18446744073709551615"
  using fork_marker_roundtrip [of 18446744073709551615 "\<lparr>files = [([''a''], Dir)], cacheLimit = 0\<rparr>" "[''a'']"]
  by (simp add: stat_def)

end
