(* ===== verification/Disk_Log.thy ===== *)
theory Disk_Log
  imports Sealed Jsonl_Codec Fork_Marker
begin

text \<open>
  The on-disk log, \<^verbatim>\<open>disk/log.go\<close>: a directory of segment files named by their first index, the
  newest one taking appends, and a chain of parents that serve the indices below a fork's base. The state
  is the record \<open>log_state\<close>; a log is that record and its parent, a log again. A read may open a
  sealed segment or load a payload block, so reads return the log too. An iteration takes the state of
  its callback and returns it; a loop that does not end is \<open>None\<close>.
\<close>

section \<open>State\<close>

text \<open>\<^verbatim>\<open>Options\<close> without the parent, which \<open>disk_Open\<close> takes as an argument of its own.\<close>

record options =
  SegmentSize :: int
  o_Codec :: "codec option"
  MaxUnflushedBytes :: int
  OnSegmentOpen :: "(bytes \<Rightarrow> bytes list \<Rightarrow> err + bytes) option"

record log_state =
  l_dir :: path
  l_opts :: options
  l_codec :: codec
  l_ext :: string
  sealed :: "sealedSeg list"
  active :: "segment option"
  ownsParent :: bool
  forkBase :: nat
  l_readOnly :: bool

datatype dlog = DLog log_state "dlog option"

definition defaultSegSize :: int where
  "defaultSegSize = 64 * 1024 * 1024"

definition segNameWidth :: nat where
  "segNameWidth = 20"

definition headerMode :: "log_state \<Rightarrow> bool" where
  "headerMode l \<longleftrightarrow> OnSegmentOpen (l_opts l) \<noteq> None"

section \<open>Segment names\<close>

definition segName :: "log_state \<Rightarrow> nat \<Rightarrow> string" where
  "segName l base = dec_pad segNameWidth base @ l_ext l"

definition parseSegName :: "string \<Rightarrow> string \<Rightarrow> err + nat" where
  "parseSegName name ext = ParseUint (TrimSuffix name ext)"

definition knownExts :: "string list" where
  "knownExts = [''.seg'', ''.jsonl'']"

definition detectCodec :: "sys \<Rightarrow> path \<Rightarrow> err + codec option" where
  "detectCodec w dir = rbind (os_ReadDir w dir) (\<lambda>es.
     let names = map fst (filter (\<lambda>(n, isDir). \<not> isDir) es);
         seenBinary = list_ex (\<lambda>n. HasSuffix n ''.seg'') names;
         seenJSONL = list_ex (\<lambda>n. HasSuffix n ''.jsonl'') names in
     if seenBinary \<and> seenJSONL then Inl ErrCodecMismatch
     else if seenBinary then Inr (Some BinaryCodec)
     else if seenJSONL then Inr (Some JSONLCodec)
     else Inr None)"

section \<open>The range of a log's own segments\<close>

definition isEmptyLocked :: "log_state \<Rightarrow> bool" where
  "isEmptyLocked l \<longleftrightarrow> sealed l = [] \<and> (case active l of None \<Rightarrow> True | Some s \<Rightarrow> count s = 0)"

definition firstIndexLocked :: "log_state \<Rightarrow> nat" where
  "firstIndexLocked l = (case sealed l of
     ss # _ \<Rightarrow> ss_base ss
   | [] \<Rightarrow> (case active l of Some s \<Rightarrow> if count s > 0 then baseIndex s else 0 | None \<Rightarrow> 0))"

definition lastIndexLocked :: "log_state \<Rightarrow> nat" where
  "lastIndexLocked l = (case active l of
     Some s \<Rightarrow> if count s > 0 then seg_LastIndex s else if sealed l \<noteq> [] then ss_last (last (sealed l)) else 0
   | None \<Rightarrow> if sealed l \<noteq> [] then ss_last (last (sealed l)) else 0)"

section \<open>Opening sealed segments and routing\<close>

definition openSealed :: "sys \<Rightarrow> log_state \<Rightarrow> nat \<Rightarrow> (err + segment option) \<times> log_state" where
  "openSealed w l i = (case ss_open w (l_codec l) (headerMode l) (sealed l ! i) of
     (r, ss) \<Rightarrow> (r, l\<lparr>sealed := (sealed l)[i := ss]\<rparr>))"

text \<open>Where a segment was found, so that what a read does to it is stored back.\<close>

datatype segref = SealedAt nat | ActiveRef

definition put_seg :: "segref \<Rightarrow> segment \<Rightarrow> log_state \<Rightarrow> log_state" where
  "put_seg r s l = (case r of
     SealedAt i \<Rightarrow> l\<lparr>sealed := (sealed l)[i := (sealed l ! i)\<lparr>ss_seg := Some s\<rparr>]\<rparr>
   | ActiveRef \<Rightarrow> l\<lparr>active := Some s\<rparr>)"

definition findSegmentLocked :: "sys \<Rightarrow> log_state \<Rightarrow> nat \<Rightarrow> (err + (segref \<times> segment) option) \<times> log_state" where
  "findSegmentLocked w l idx = (case sealedFor (sealed l) idx of
     Some i \<Rightarrow> (case openSealed w l i of
         (Inl e, l') \<Rightarrow> (Inl e, l')
       | (Inr so, l') \<Rightarrow> (Inr (map_option (Pair (SealedAt i)) so), l'))
   | None \<Rightarrow> (case active l of
         Some s \<Rightarrow> if count s > 0 \<and> idx \<ge> baseIndex s \<and> idx \<le> seg_LastIndex s
                   then (Inr (Some (ActiveRef, s)), l) else (Inr None, l)
       | None \<Rightarrow> (Inr None, l)))"

fun materialize_from :: "sys \<Rightarrow> nat list \<Rightarrow> log_state \<Rightarrow> (err + unit) \<times> log_state" where
  "materialize_from w [] l = (Inr (), l)"
| "materialize_from w (i # is) l = sbind (openSealed w l i) (\<lambda>_ l. materialize_from w is l)"

definition materializeLocked :: "sys \<Rightarrow> log_state \<Rightarrow> (err + unit) \<times> log_state" where
  "materializeLocked w l = materialize_from w [0..<length (sealed l)] l"

section \<open>Reading\<close>

fun disk_Read :: "sys \<Rightarrow> nat \<Rightarrow> dlog \<Rightarrow> (err + bytes) \<times> dlog" where
  "disk_Read w idx (DLog l pa) =
     (case (idx < forkBase l, pa) of
        (True, Some p) \<Rightarrow> (case disk_Read w idx p of (r, p') \<Rightarrow> (r, DLog l (Some p')))
      | _ \<Rightarrow>
        if isEmptyLocked l then (Inl ErrEmpty, DLog l pa)
        else (case findSegmentLocked w l idx of
            (Inl e, l') \<Rightarrow> (Inl e, DLog l' pa)
          | (Inr None, l') \<Rightarrow> (Inl ErrNotFound, DLog l' pa)
          | (Inr (Some (ref, s)), l') \<Rightarrow> (case seg_ReadIndex w s (u64_sub idx (baseIndex s)) of
                (r, s') \<Rightarrow> (r, DLog (put_seg ref s' l') pa))))"

fun disk_HeaderAt :: "sys \<Rightarrow> nat \<Rightarrow> dlog \<Rightarrow> (err + bytes) \<times> dlog" where
  "disk_HeaderAt w idx (DLog l pa) =
     (case (idx < forkBase l, pa) of
        (True, Some p) \<Rightarrow> (case disk_HeaderAt w idx p of (r, p') \<Rightarrow> (r, DLog l (Some p')))
      | _ \<Rightarrow>
        if isEmptyLocked l then (Inl ErrEmpty, DLog l pa)
        else (case findSegmentLocked w l idx of
            (Inl e, l') \<Rightarrow> (Inl e, DLog l' pa)
          | (Inr None, l') \<Rightarrow> (Inl ErrNotFound, DLog l' pa)
          | (Inr (Some (ref, s)), l') \<Rightarrow> (Inr (s_header s), DLog l' pa)))"

definition disk_Hash :: "sys \<Rightarrow> nat \<Rightarrow> dlog \<Rightarrow> (err + string) \<times> dlog" where
  "disk_Hash w idx d = (case disk_Read w idx d of
     (Inl e, d') \<Rightarrow> (Inl e, d')
   | (Inr b, DLog l pa) \<Rightarrow> (c_Hash (l_codec l) b, DLog l pa))"

text \<open>Several records of one segment, in order, stopping at the first error.\<close>

fun read_list :: "sys \<Rightarrow> segment \<Rightarrow> nat list \<Rightarrow> (err + bytes list) \<times> segment" where
  "read_list w s [] = (Inr [], s)"
| "read_list w s (i # is) = sbind (seg_ReadIndex w s i) (\<lambda>p s.
     sbind (read_list w s is) (\<lambda>ps s. (Inr (p # ps), s)))"

definition segPayloads :: "sys \<Rightarrow> segment \<Rightarrow> (err + bytes list) \<times> segment" where
  "segPayloads w s = read_list w s [0..<count s]"

fun disk_StateAt :: "sys \<Rightarrow> nat \<Rightarrow> dlog \<Rightarrow> (err + bytes) \<times> dlog" where
  "disk_StateAt w idx (DLog l pa) = (case OnSegmentOpen (l_opts l) of
     None \<Rightarrow> (Inl (ErrMsg ''StateAt: log is not in header mode''), DLog l pa)
   | Some f \<Rightarrow>
     (case (idx < forkBase l, pa) of
        (True, Some p) \<Rightarrow> (case disk_StateAt w idx p of (r, p') \<Rightarrow> (r, DLog l (Some p')))
      | _ \<Rightarrow>
        (case findSegmentLocked w l idx of
            (Inl e, l') \<Rightarrow> (Inl e, DLog l' pa)
          | (Inr None, l') \<Rightarrow> (Inl ErrNotFound, DLog l' pa)
          | (Inr (Some (ref, s)), l') \<Rightarrow>
              (case read_list w s [0..<Suc idx - baseIndex s] of
                (r, s') \<Rightarrow> (rbind r (\<lambda>ps. f (s_header s') ps), DLog (put_seg ref s' l') pa)))))"

fun disk_FirstIndex :: "dlog \<Rightarrow> nat" where
  "disk_FirstIndex (DLog l pa) = (case pa of
     Some p \<Rightarrow> if disk_FirstIndex p \<noteq> 0 then disk_FirstIndex p else firstIndexLocked l
   | None \<Rightarrow> firstIndexLocked l)"

definition disk_LastIndex :: "dlog \<Rightarrow> nat" where
  "disk_LastIndex d = (case d of DLog l _ \<Rightarrow>
     if lastIndexLocked l > 0 then lastIndexLocked l
     else if forkBase l > 0 then forkBase l - 1 else 0)"

definition disk_SegmentBaseIndexes :: "dlog \<Rightarrow> nat list" where
  "disk_SegmentBaseIndexes d = (case d of DLog l _ \<Rightarrow>
     map ss_base (sealed l) @
     (case active l of Some s \<Rightarrow> if count s > 0 then [baseIndex s] else [] | None \<Rightarrow> []))"

section \<open>Iterating\<close>

text \<open>The records with the given indices of one segment, handed to the callback in order.\<close>

fun range_seg :: "sys \<Rightarrow> ('s \<Rightarrow> nat \<times> bytes \<Rightarrow> 's \<times> err option) \<Rightarrow> segment \<Rightarrow> nat list \<Rightarrow> 's \<Rightarrow>
    ('s \<times> err option) \<times> segment" where
  "range_seg w fn s [] st = ((st, None), s)"
| "range_seg w fn s (i # is) st = (case seg_ReadIndex w s (u64_sub i (baseIndex s)) of
     (Inl e, s') \<Rightarrow> ((st, Some e), s')
   | (Inr p, s') \<Rightarrow> (case fn st (i, p) of
       (st', Some e) \<Rightarrow> ((st', Some e), s')
     | (st', None) \<Rightarrow> range_seg w fn s' is st'))"

text \<open>The outer loop of \<^verbatim>\<open>Range\<close>: \<open>cur\<close> moves behind the end of the segment that holds it.\<close>

partial_function (option) range_loop :: "sys \<Rightarrow> ('s \<Rightarrow> nat \<times> bytes \<Rightarrow> 's \<times> err option) \<Rightarrow> nat \<Rightarrow>
    log_state \<Rightarrow> nat \<Rightarrow> 's \<Rightarrow> (('s \<times> err option) \<times> log_state) option" where
  "range_loop w fn lst l cur st =
     (if cur > lst then Some ((st, None), l)
      else (case findSegmentLocked w l cur of
          (Inl e, l') \<Rightarrow> Some ((st, Some e), l')
        | (Inr None, l') \<Rightarrow> Some ((st, Some ErrNotFound), l')
        | (Inr (Some (ref, s)), l') \<Rightarrow>
            (case range_seg w fn s [cur..<Suc (min (seg_LastIndex s) lst)] st of
              ((st', Some e), s') \<Rightarrow> Some ((st', Some e), put_seg ref s' l')
            | ((st', None), s') \<Rightarrow>
                range_loop w fn lst (put_seg ref s' l') (u64_add (min (seg_LastIndex s) lst) 1) st')))"

definition own_Range :: "sys \<Rightarrow> ('s \<Rightarrow> nat \<times> bytes \<Rightarrow> 's \<times> err option) \<Rightarrow> nat \<Rightarrow> 's \<Rightarrow>
    log_state \<Rightarrow> (('s \<times> err option) \<times> log_state) option" where
  "own_Range w fn from st l =
     (if isEmptyLocked l then Some ((st, None), l)
      else range_loop w fn (lastIndexLocked l) l (max from (firstIndexLocked l)) st)"

definition boundary :: "nat \<Rightarrow> ('s \<Rightarrow> nat \<times> bytes \<Rightarrow> 's \<times> err option) \<Rightarrow> 's \<Rightarrow> nat \<times> bytes \<Rightarrow> 's \<times> err option" where
  "boundary fb fn st x = (if fst x \<ge> fb then (st, Some ErrRangeBoundary) else fn st x)"

fun disk_Range :: "sys \<Rightarrow> ('s \<Rightarrow> nat \<times> bytes \<Rightarrow> 's \<times> err option) \<Rightarrow> nat \<Rightarrow> 's \<Rightarrow> dlog \<Rightarrow>
    (('s \<times> err option) \<times> dlog) option" where
  "disk_Range w fn from st (DLog l pa) =
     (case (from < forkBase l, pa) of
        (True, Some p) \<Rightarrow>
          (case disk_Range w (boundary (forkBase l) fn) from st p of
             None \<Rightarrow> None
           | Some ((st', e), p') \<Rightarrow>
               if e \<noteq> None \<and> e \<noteq> Some ErrRangeBoundary then Some ((st', e), DLog l (Some p'))
               else map_option (apsnd (\<lambda>l'. DLog l' (Some p'))) (own_Range w fn (forkBase l) st' l))
      | _ \<Rightarrow> map_option (apsnd (\<lambda>l'. DLog l' pa)) (own_Range w fn from st l))"

text \<open>The descending scan of a log's own records.\<close>

fun scan_loop :: "sys \<Rightarrow> ('s \<Rightarrow> nat \<times> bytes \<Rightarrow> 's \<times> err option) \<Rightarrow> nat list \<Rightarrow> 's \<Rightarrow> log_state \<Rightarrow>
    ('s \<times> err option) \<times> log_state" where
  "scan_loop w fn [] st l = ((st, None), l)"
| "scan_loop w fn (idx # is) st l = (case findSegmentLocked w l idx of
     (Inl e, l') \<Rightarrow> ((st, Some e), l')
   | (Inr None, l') \<Rightarrow> ((st, Some ErrNotFound), l')
   | (Inr (Some (ref, s)), l') \<Rightarrow> (case seg_ReadIndex w s (u64_sub idx (baseIndex s)) of
       (Inl e, s') \<Rightarrow> ((st, Some e), put_seg ref s' l')
     | (Inr p, s') \<Rightarrow> (case fn st (idx, p) of
         (st', Some e) \<Rightarrow> ((st', Some e), put_seg ref s' l')
       | (st', None) \<Rightarrow> scan_loop w fn is st' (put_seg ref s' l'))))"

definition own_ScanFromEnd :: "sys \<Rightarrow> ('s \<Rightarrow> nat \<times> bytes \<Rightarrow> 's \<times> err option) \<Rightarrow> nat \<Rightarrow> 's \<Rightarrow> log_state \<Rightarrow>
    ('s \<times> err option) \<times> log_state" where
  "own_ScanFromEnd w fn from st l =
     (if isEmptyLocked l then ((st, None), l)
      else scan_loop w fn (rev [firstIndexLocked l..<Suc (min from (lastIndexLocked l))]) st l)"

fun disk_ScanFromEnd :: "sys \<Rightarrow> ('s \<Rightarrow> nat \<times> bytes \<Rightarrow> 's \<times> err option) \<Rightarrow> nat \<Rightarrow> 's \<Rightarrow> dlog \<Rightarrow>
    ('s \<times> err option) \<times> dlog" where
  "disk_ScanFromEnd w fn from st (DLog l pa) =
     (case (from < forkBase l, pa) of
        (True, Some p) \<Rightarrow> (case disk_ScanFromEnd w fn from st p of (r, p') \<Rightarrow> (r, DLog l (Some p')))
      | _ \<Rightarrow>
        (case own_ScanFromEnd w fn from st l of
           ((st', Some e), l') \<Rightarrow> ((st', Some e), DLog l' pa)
         | ((st', None), l') \<Rightarrow>
             (case pa of
                None \<Rightarrow> ((st', None), DLog l' None)
              | Some p \<Rightarrow> (case disk_ScanFromEnd w fn (forkBase l - 1) st' p of
                  (r, p') \<Rightarrow> (r, DLog l' (Some p'))))))"

text \<open>\<^verbatim>\<open>RangeOwn\<close> walks the log's own segments, the active one included, and skips what is below \<open>from\<close>.\<close>

fun walk_seg :: "sys \<Rightarrow> ('s \<Rightarrow> nat \<times> bytes \<Rightarrow> 's \<times> err option) \<Rightarrow> nat \<Rightarrow> segment \<Rightarrow> nat list \<Rightarrow> 's \<Rightarrow>
    ('s \<times> err option) \<times> segment" where
  "walk_seg w fn from s [] st = ((st, None), s)"
| "walk_seg w fn from s (i # is) st =
     (if u64_add (baseIndex s) i < from then walk_seg w fn from s is st
      else (case seg_ReadIndex w s i of
          (Inl e, s') \<Rightarrow> ((st, Some e), s')
        | (Inr p, s') \<Rightarrow> (case fn st (u64_add (baseIndex s) i, p) of
            (st', Some e) \<Rightarrow> ((st', Some e), s')
          | (st', None) \<Rightarrow> walk_seg w fn from s' is st')))"

fun walk_sealed :: "sys \<Rightarrow> ('s \<Rightarrow> nat \<times> bytes \<Rightarrow> 's \<times> err option) \<Rightarrow> nat \<Rightarrow> nat list \<Rightarrow> 's \<Rightarrow> log_state \<Rightarrow>
    ('s \<times> err option) \<times> log_state" where
  "walk_sealed w fn from [] st l = ((st, None), l)"
| "walk_sealed w fn from (i # is) st l =
     (if ss_last (sealed l ! i) < from then walk_sealed w fn from is st l
      else (case openSealed w l i of
          (Inl e, l') \<Rightarrow> ((st, Some e), l')
        | (Inr None, l') \<Rightarrow> ((st, Some (ErrMsg ''nil segment'')), l')
        | (Inr (Some s), l') \<Rightarrow> (case walk_seg w fn from s [0..<count s] st of
            ((st', Some e), s') \<Rightarrow> ((st', Some e), put_seg (SealedAt i) s' l')
          | ((st', None), s') \<Rightarrow> walk_sealed w fn from is st' (put_seg (SealedAt i) s' l'))))"

definition disk_RangeOwn :: "sys \<Rightarrow> ('s \<Rightarrow> nat \<times> bytes \<Rightarrow> 's \<times> err option) \<Rightarrow> nat \<Rightarrow> 's \<Rightarrow> dlog \<Rightarrow>
    ('s \<times> err option) \<times> dlog" where
  "disk_RangeOwn w fn from st d = (case d of DLog l pa \<Rightarrow>
     (case walk_sealed w fn from [0..<length (sealed l)] st l of
        ((st', Some e), l') \<Rightarrow> ((st', Some e), DLog l' pa)
      | ((st', None), l') \<Rightarrow> (case active l' of
          None \<Rightarrow> ((st', None), DLog l' pa)
        | Some s \<Rightarrow> (case walk_seg w fn from s [0..<count s] st' of
            (r, s') \<Rightarrow> (r, DLog (l'\<lparr>active := Some s'\<rparr>) pa)))))"

section \<open>Writing\<close>

text \<open>
  The header and the payloads of the newest sealed segment, from which the header of the next one is
  folded. A closed sealed segment is a nil pointer here.
\<close>

definition sealedState :: "sys \<Rightarrow> log_state \<Rightarrow> (err + bytes \<times> bytes list) \<times> log_state" where
  "sealedState w l = (let n = length (sealed l) - 1 in
     case openSealed w l n of
       (Inl e, l') \<Rightarrow> (Inl e, l')
     | (Inr None, l') \<Rightarrow> (Inl (ErrMsg ''nil segment''), l')
     | (Inr (Some s), l') \<Rightarrow> (case segPayloads w s of
         (r, s') \<Rightarrow> (rbind r (\<lambda>ps. Inr (s_header s, ps)), put_seg (SealedAt n) s' l')))"

text \<open>What a new segment's header is folded from: also the parent's state for a fork's first segment.\<close>

definition prevState :: "sys \<Rightarrow> dlog \<Rightarrow> (err + bytes \<times> bytes list) \<times> dlog" where
  "prevState w d = (case d of DLog l pa \<Rightarrow>
     if sealed l \<noteq> [] then (case sealedState w l of (r, l') \<Rightarrow> (r, DLog l' pa))
     else (case pa of
         Some p \<Rightarrow> if forkBase l > 1
           then (case disk_StateAt w (forkBase l - 1) p of
                   (r, p') \<Rightarrow> (rbind r (\<lambda>h. Inr (h, [])), DLog l (Some p')))
           else (Inr ([], []), d)
       | None \<Rightarrow> (Inr ([], []), d)))"

definition openActiveLocked :: "sys \<Rightarrow> dlog \<Rightarrow> nat \<Rightarrow> (err + unit) \<times> sys \<times> dlog" where
  "openActiveLocked w d base = (case d of DLog l pa \<Rightarrow>
     (case seg_Create w (l_dir l @ [segName l base]) (l_codec l) base (SegmentSize (l_opts l)) of
        (Inl e, w) \<Rightarrow> (Inl e, w, d)
      | (Inr s, w) \<Rightarrow> (case OnSegmentOpen (l_opts l) of
          None \<Rightarrow> (Inr (), w, DLog (l\<lparr>active := Some s\<rparr>) pa)
        | Some f \<Rightarrow> (case prevState w d of
            (Inl e, d') \<Rightarrow> (Inl e, w, d')
          | (Inr (prevHeader, ps), DLog l' pa') \<Rightarrow> (case f prevHeader ps of
              Inl e \<Rightarrow> (Inl e, w, DLog l' pa')
            | Inr h \<Rightarrow> (case seg_WriteHeader w s h of
                (Inl e, w) \<Rightarrow> (Inl e, w, DLog l' pa')
              | (Inr s', w) \<Rightarrow> (Inr (), w, DLog (l'\<lparr>active := Some s'\<rparr>) pa')))))))"

definition rotateLocked :: "sys \<Rightarrow> dlog \<Rightarrow> nat \<Rightarrow> (err + unit) \<times> sys \<times> dlog" where
  "rotateLocked w d base = (case d of DLog l pa \<Rightarrow>
     (case active l of
        None \<Rightarrow> openActiveLocked w d base
      | Some s \<Rightarrow> openActiveLocked w (DLog (l\<lparr>sealed := sealed l @ [wrapOpen s], active := None\<rparr>) pa) base))"

text \<open>An append to the active segment, stored back into the log.\<close>

definition appendActive :: "sys \<Rightarrow> dlog \<Rightarrow> bytes \<Rightarrow> (err + unit) \<times> sys \<times> dlog" where
  "appendActive w d payload = (case d of DLog l pa \<Rightarrow>
     (case active l of
        None \<Rightarrow> (Inl (ErrMsg ''nil segment''), w, d)
      | Some s \<Rightarrow> (case seg_Append w s payload of
          (Inl e, w) \<Rightarrow> (Inl e, w, d)
        | (Inr (_, s'), w) \<Rightarrow> (Inr (), w, DLog (l\<lparr>active := Some s'\<rparr>) pa))))"

definition activeCount :: "dlog \<Rightarrow> nat" where
  "activeCount d = (case d of DLog l pa \<Rightarrow> (case active l of None \<Rightarrow> 0 | Some s \<Rightarrow> count s))"

text \<open>Append, rotating once when the active segment is full.\<close>

definition writeActive :: "sys \<Rightarrow> dlog \<Rightarrow> nat \<Rightarrow> bytes \<Rightarrow> (err + unit) \<times> sys \<times> dlog" where
  "writeActive w d idx payload = (case appendActive w d payload of
     (Inl e, w, d) \<Rightarrow>
       if e = ErrFull then
         if activeCount d = 0 then (Inl ErrPayloadTooLarge, w, d)
         else (case rotateLocked w d idx of
             (Inl e, w, d) \<Rightarrow> (Inl e, w, d)
           | (Inr _, w, d) \<Rightarrow> (case appendActive w d payload of
               (Inl e, w, d) \<Rightarrow> (Inl (if e = ErrFull then ErrPayloadTooLarge else e), w, d)
             | (Inr _, w, d) \<Rightarrow> (Inr (), w, d)))
       else (Inl e, w, d)
   | (Inr _, w, d) \<Rightarrow> (Inr (), w, d))"

definition expectedIndex :: "log_state \<Rightarrow> nat" where
  "expectedIndex l =
     (if isEmptyLocked l then (if forkBase l > 0 then forkBase l else 1)
      else u64_add (lastIndexLocked l) 1)"

definition disk_Write :: "sys \<Rightarrow> dlog \<Rightarrow> nat \<Rightarrow> bytes \<Rightarrow> (err + unit) \<times> sys \<times> dlog" where
  "disk_Write w d idx payload = (case d of DLog l pa \<Rightarrow>
     if l_readOnly l then (Inl ErrReadOnly, w, d)
     else (case hasSubdirs w (l_dir l) of
         Inl e \<Rightarrow> (Inl e, w, d)
       | Inr True \<Rightarrow> (Inl ErrReadOnly, w, DLog (l\<lparr>l_readOnly := True\<rparr>) pa)
       | Inr False \<Rightarrow>
           if idx \<noteq> expectedIndex l then (Inl (ErrOutOfOrder idx (expectedIndex l)), w, d)
           else if active l = None then
             (case openActiveLocked w d idx of
                (Inl e, w, d) \<Rightarrow> (Inl e, w, d)
              | (Inr _, w, d) \<Rightarrow> writeActive w d idx payload)
           else writeActive w d idx payload))"

text \<open>
  Dropping sealed segments from the front. An error leaves the list of segments as it was, with those
  already closed closed.
\<close>

fun truncate_loop :: "sys \<Rightarrow> nat \<Rightarrow> sealedSeg list \<Rightarrow> (err + sealedSeg list) \<times> sys \<times> sealedSeg list" where
  "truncate_loop w beforeIdx [] = (Inr [], w, [])"
| "truncate_loop w beforeIdx (ss # sss) =
     (if ss_last ss < beforeIdx then
        (case os_Remove w (ss_path ss) of
           (Inl e, w) \<Rightarrow> (Inl e, w, ss_close ss # sss)
         | (Inr _, w) \<Rightarrow> (case truncate_loop w beforeIdx sss of
             (r, w, sss') \<Rightarrow> (r, w, ss_close ss # sss')))
      else (case truncate_loop w beforeIdx sss of
             (r, w, sss') \<Rightarrow> (rbind r (\<lambda>kept. Inr (ss # kept)), w, ss # sss')))"

definition disk_TruncateFront :: "sys \<Rightarrow> dlog \<Rightarrow> nat \<Rightarrow> (err + unit) \<times> sys \<times> dlog" where
  "disk_TruncateFront w d beforeIdx = (case d of DLog l pa \<Rightarrow>
     (case truncate_loop w beforeIdx (sealed l) of
        (Inl e, w, sss) \<Rightarrow> (Inl e, w, DLog (l\<lparr>sealed := sss\<rparr>) pa)
      | (Inr kept, w, _) \<Rightarrow> (Inr (), w, DLog (l\<lparr>sealed := kept\<rparr>) pa)))"

definition disk_DropPayloadCache :: "dlog \<Rightarrow> dlog" where
  "disk_DropPayloadCache d = (case d of DLog l pa \<Rightarrow>
     DLog (l\<lparr>sealed := map (\<lambda>ss. ss\<lparr>ss_seg := map_option seg_DropCache (ss_seg ss)\<rparr>) (sealed l),
            active := map_option seg_DropCache (active l)\<rparr>) pa)"

fun disk_Close :: "dlog \<Rightarrow> dlog" where
  "disk_Close (DLog l pa) =
     (let l1 = l\<lparr>sealed := map ss_close (sealed l), active := map_option seg_Close (active l)\<rparr> in
      if ownsParent l \<and> pa \<noteq> None then DLog (l1\<lparr>ownsParent := False\<rparr>) None else DLog l1 pa)"

section \<open>Opening\<close>

text \<open>The bases of the segment files of a directory listing, in listing order.\<close>

fun seg_bases :: "string \<Rightarrow> (string \<times> bool) list \<Rightarrow> err + nat list" where
  "seg_bases ext [] = Inr []"
| "seg_bases ext ((name, isDir) # es) =
     (if isDir then seg_bases ext es
      else if \<not> HasSuffix name ext then
        (if list_ex (\<lambda>other. other \<noteq> ext \<and> HasSuffix name other) knownExts then Inl ErrCodecMismatch
         else seg_bases ext es)
      else rbind (parseSegName name ext) (\<lambda>base. rbind (seg_bases ext es) (\<lambda>bs. Inr (base # bs))))"

text \<open>All but the newest segment are recorded by name: each ends where the next one begins.\<close>

fun sealed_of :: "log_state \<Rightarrow> nat list \<Rightarrow> sealedSeg list" where
  "sealed_of l (b # b' # bs) = newSealed b (u64_sub b' 1) (l_dir l @ [segName l b]) # sealed_of l (b' # bs)"
| "sealed_of l _ = []"

definition reseedEmptyActiveHeader :: "sys \<Rightarrow> log_state \<Rightarrow> (err + log_state) \<times> sys" where
  "reseedEmptyActiveHeader w l = (case (OnSegmentOpen (l_opts l), active l) of
     (Some f, Some s) \<Rightarrow>
       if l_readOnly l \<or> count s \<noteq> 0 \<or> size s \<noteq> 0 \<or> readOnly s then (Inr l, w)
       else (case (if sealed l \<noteq> [] then sealedState w l else (Inr ([], []), l)) of
           (Inl e, l') \<Rightarrow> (Inl e, w)
         | (Inr (prevHeader, ps), l') \<Rightarrow> (case f prevHeader ps of
             Inl e \<Rightarrow> (Inl e, w)
           | Inr h \<Rightarrow> sbind (seg_WriteHeader w s h) (\<lambda>s' w. (Inr (l'\<lparr>active := Some s'\<rparr>), w))))
   | _ \<Rightarrow> (Inr l, w))"

definition loadSegments :: "sys \<Rightarrow> log_state \<Rightarrow> (err + log_state) \<times> sys" where
  "loadSegments w l =
     sbind (lift_res (rbind (os_ReadDir w (l_dir l)) (seg_bases (l_ext l))) w) (\<lambda>bs0 w.
       let bs = sort bs0; l1 = l\<lparr>sealed := sealed_of l bs\<rparr> in
       if bs = [] then reseedEmptyActiveHeader w l1
       else sbind (seg_openRW w (l_dir l @ [segName l (last bs)]) (l_codec l) (last bs)
                     (SegmentSize (l_opts l)) (headerMode l)) (\<lambda>s w.
              reseedEmptyActiveHeader w (l1\<lparr>active := Some s\<rparr>)))"

text \<open>
  \<^verbatim>\<open>Open\<close>. A marker without a parent at hand makes it open the directory above as the parent. At
  the root directory, which is its own parent, that recursion would not end; the model has an error.
\<close>

definition open_codec :: "sys \<Rightarrow> path \<Rightarrow> options \<Rightarrow> err + codec" where
  "open_codec w dir opts = (case o_Codec opts of
     Some c \<Rightarrow> Inr c
   | None \<Rightarrow> rbind (detectCodec w dir) (\<lambda>d. Inr (case d of Some c \<Rightarrow> c | None \<Rightarrow> BinaryCodec)))"

definition open_own :: "sys \<Rightarrow> path \<Rightarrow> options \<Rightarrow> codec \<Rightarrow> nat \<Rightarrow> dlog option \<Rightarrow> bool \<Rightarrow> (err + dlog) \<times> sys" where
  "open_own w dir opts c base pa owns =
     sbind (lift_res (hasSubdirs w dir) w) (\<lambda>hasKids w.
     sbind (loadSegments w \<lparr>l_dir = dir, l_opts = opts, l_codec = c, l_ext = c_FileExt c, sealed = [],
              active = None, ownsParent = owns, forkBase = base, l_readOnly = hasKids\<rparr>) (\<lambda>l w.
     case (case sealed l of ss # _ \<Rightarrow> Some (ss_base ss) | [] \<Rightarrow> map_option baseIndex (active l)) of
       Some firstBase \<Rightarrow>
         if base > 0 \<and> firstBase > base then (Inl (ErrForkMismatch base firstBase), w)
         else (Inr (DLog l pa), w)
     | None \<Rightarrow> (Inr (DLog l pa), w)))"

function disk_Open :: "sys \<Rightarrow> path \<Rightarrow> options \<Rightarrow> dlog option \<Rightarrow> (err + dlog) \<times> sys" where
  "disk_Open w dir opts0 par =
     (let opts1 = (if SegmentSize opts0 = 0 then opts0\<lparr>SegmentSize := defaultSegSize\<rparr> else opts0) in
      sbind (os_MkdirAll w dir) (\<lambda>_ w.
      sbind (lift_res (open_codec w dir opts1) w) (\<lambda>c w.
      let opts = opts1\<lparr>o_Codec := Some c\<rparr> in
      if hasForkPending w dir then (Inl ErrForkPending, w)
      else sbind (lift_res (readForkMarker w dir) w) (\<lambda>base w.
        case (par, base > 0) of
          (None, True) \<Rightarrow>
            if dir = [] then (Inl (ErrMsg ''stack overflow''), w)
            else sbind (disk_Open w (butlast dir) opts None) (\<lambda>p w.
                   open_own w dir opts c base (Some p) True)
        | _ \<Rightarrow> open_own w dir opts c base par False))))"
  by pat_completeness auto
termination
  by (relation "measure (\<lambda>(w, dir, opts, par). length dir)") auto

declare disk_Open.simps [simp del]

end
