(* ===== verification/Disk_Log_Spec.thy ===== *)
theory Disk_Log_Spec
  imports Disk_Log
begin

text \<open>
  What a disk log holds. The abstract log is a list of segments, each with its first index, its header
  and its payloads, an active segment, the fork base and the abstract parent. \<open>own_rep\<close> relates one
  directory and its handle to it, \<open>dlog_rep\<close> the whole chain of parents. Every read is then a
  function of the abstract log: a lookup in the list of its entries, an iteration over a part of that
  list. The lemmas are proved for any lawful codec.
\<close>

named_theorems own_simps \<open>projections of the representation predicates\<close>

section \<open>Abstract logs\<close>

type_synonym aseg = "nat \<times> bytes list \<times> bytes list"

datatype alog = ALog "aseg list" "aseg option" nat "alog option"

definition seg_entries :: "aseg \<Rightarrow> (nat \<times> bytes) list" where
  "seg_entries a = (case a of (b, hs, ps) \<Rightarrow> enumerate b ps)"

definition entries :: "aseg list \<Rightarrow> (nat \<times> bytes) list" where
  "entries as = concat (map seg_entries as)"

definition all_segs :: "aseg list \<Rightarrow> aseg option \<Rightarrow> aseg list" where
  "all_segs segs act = segs @ (case act of None \<Rightarrow> [] | Some a \<Rightarrow> [a])"

text \<open>Every segment begins where the one before it ends.\<close>

fun chain :: "aseg list \<Rightarrow> bool" where
  "chain ((b, hs, ps) # (b', hs', ps') # r) \<longleftrightarrow> b' = b + length ps \<and> chain ((b', hs', ps') # r)"
| "chain _ \<longleftrightarrow> True"

text \<open>In header mode each header is the fold of the segment before.\<close>

fun headers_ok :: "(bytes \<Rightarrow> bytes list \<Rightarrow> err + bytes) option \<Rightarrow> aseg list \<Rightarrow> bool" where
  "headers_ok (Some f) ((b, hs, ps) # (b', hs', ps') # r) \<longleftrightarrow>
     f (concat hs) ps = Inr (concat hs') \<and> headers_ok (Some f) ((b', hs', ps') # r)"
| "headers_ok _ _ \<longleftrightarrow> True"

definition seg_wf :: "bool \<Rightarrow> aseg \<Rightarrow> bool" where
  "seg_wf hm a \<longleftrightarrow> (case a of (b, hs, ps) \<Rightarrow>
     1 \<le> b \<and> b + length ps < u64_lim \<and> length hs = (if hm then 1 else 0))"

section \<open>Representation\<close>

definition sealed_rep :: "codec \<Rightarrow> (bytes \<Rightarrow> bytes \<Rightarrow> bool) \<Rightarrow> sys \<Rightarrow> log_state \<Rightarrow> sealedSeg \<Rightarrow> aseg \<Rightarrow> bool" where
  "sealed_rep c F w l ss a \<longleftrightarrow> (case a of (b, hs, ps) \<Rightarrow>
     seg_wf (headerMode l) a \<and> ps \<noteq> [] \<and>
     ss_base ss = b \<and> ss_last ss = b + length ps - 1 \<and> ss_path ss = l_dir l @ [segName l b] \<and>
     file_rep F w (ss_path ss) (hs @ ps) \<and> ss_err ss = None \<and>
     (case ss_seg ss of
        None \<Rightarrow> \<not> ss_once ss
      | Some s \<Rightarrow> seg_rep c F w s hs ps \<and> s_path s = ss_path ss \<and> baseIndex s = b))"

definition active_rep :: "codec \<Rightarrow> (bytes \<Rightarrow> bytes \<Rightarrow> bool) \<Rightarrow> sys \<Rightarrow> log_state \<Rightarrow> segment option \<Rightarrow> aseg option \<Rightarrow> bool" where
  "active_rep c F w l so ao \<longleftrightarrow> (case (so, ao) of
     (None, None) \<Rightarrow> True
   | (Some s, Some (b, hs, ps)) \<Rightarrow>
       seg_wf (headerMode l) (b, hs, ps) \<and> seg_rep c F w s hs ps \<and> s_path s = l_dir l @ [segName l b] \<and>
       baseIndex s = b \<and> \<not> readOnly s \<and> maxSize s = SegmentSize (l_opts l) \<and> hasHeader s = headerMode l
   | _ \<Rightarrow> False)"

text \<open>The directory is there, and nothing else in it has a name like a segment's.\<close>

definition dir_rep :: "sys \<Rightarrow> log_state \<Rightarrow> aseg list \<Rightarrow> bool" where
  "dir_rep w l as \<longleftrightarrow> stat w (l_dir l) = Some Dir \<and> l_ext l \<in> set knownExts \<and>
     (\<forall>n. stat w (l_dir l @ [n]) \<noteq> None \<longrightarrow> (\<exists>e\<in>set knownExts. HasSuffix n e) \<longrightarrow>
        n \<in> segName l ` fst ` set as)"

definition own_rep :: "codec \<Rightarrow> (bytes \<Rightarrow> bytes \<Rightarrow> bool) \<Rightarrow> sys \<Rightarrow> log_state \<Rightarrow> aseg list \<Rightarrow> aseg option \<Rightarrow> bool" where
  "own_rep c F w l segs act \<longleftrightarrow>
     l_codec l = c \<and> l_ext l = c_FileExt c \<and>
     list_all2 (sealed_rep c F w l) (sealed l) segs \<and> active_rep c F w l (active l) act \<and>
     chain (all_segs segs act) \<and> headers_ok (OnSegmentOpen (l_opts l)) (all_segs segs act)"

fun dlog_rep :: "codec \<Rightarrow> (bytes \<Rightarrow> bytes \<Rightarrow> bool) \<Rightarrow> sys \<Rightarrow> dlog \<Rightarrow> alog \<Rightarrow> bool" where
  "dlog_rep c F w (DLog l pa) (ALog segs act fb pb) \<longleftrightarrow>
     own_rep c F w l segs act \<and> forkBase l = fb \<and> fb < u64_lim \<and>
     (case (pa, pb) of (None, None) \<Rightarrow> True | (Some p, Some q) \<Rightarrow> dlog_rep c F w p q | _ \<Rightarrow> False)"

section \<open>Abstract operations\<close>

fun a_Read :: "nat \<Rightarrow> alog \<Rightarrow> err + bytes" where
  "a_Read idx (ALog segs act fb pb) = (case (idx < fb, pb) of
     (True, Some q) \<Rightarrow> a_Read idx q
   | _ \<Rightarrow> if entries (all_segs segs act) = [] then Inl ErrEmpty
          else (case map_of (entries (all_segs segs act)) idx of None \<Rightarrow> Inl ErrNotFound | Some p \<Rightarrow> Inr p))"

fun a_Range :: "('s \<Rightarrow> nat \<times> bytes \<Rightarrow> 's \<times> err option) \<Rightarrow> nat \<Rightarrow> 's \<Rightarrow> alog \<Rightarrow> 's \<times> err option" where
  "a_Range fn from st (ALog segs act fb pb) = (case (from < fb, pb) of
     (True, Some q) \<Rightarrow> (case a_Range (boundary fb fn) from st q of
        (st', e) \<Rightarrow> if e \<noteq> None \<and> e \<noteq> Some ErrRangeBoundary then (st', e)
          else iterE fn st' (filter (\<lambda>x. fb \<le> fst x) (entries (all_segs segs act))))
   | _ \<Rightarrow> iterE fn st (filter (\<lambda>x. from \<le> fst x) (entries (all_segs segs act))))"

fun a_ScanFromEnd :: "('s \<Rightarrow> nat \<times> bytes \<Rightarrow> 's \<times> err option) \<Rightarrow> nat \<Rightarrow> 's \<Rightarrow> alog \<Rightarrow> 's \<times> err option" where
  "a_ScanFromEnd fn from st (ALog segs act fb pb) = (case (from < fb, pb) of
     (True, Some q) \<Rightarrow> a_ScanFromEnd fn from st q
   | _ \<Rightarrow> (case iterE fn st (rev (filter (\<lambda>x. fst x \<le> from) (entries (all_segs segs act)))) of
        (st', Some e) \<Rightarrow> (st', Some e)
      | (st', None) \<Rightarrow> (case pb of None \<Rightarrow> (st', None) | Some q \<Rightarrow> a_ScanFromEnd fn (fb - 1) st' q)))"

text \<open>The records a log shows: its own from the fork base on, the parent's below.\<close>

fun visible :: "alog \<Rightarrow> (nat \<times> bytes) list" where
  "visible (ALog segs act fb pb) = (case pb of
     None \<Rightarrow> entries (all_segs segs act)
   | Some q \<Rightarrow> filter (\<lambda>x. fst x < fb) (visible q) @
       filter (\<lambda>x. fb \<le> fst x) (entries (all_segs segs act)))"

section \<open>Entries\<close>

lemma entries_simps [simp]:
  "entries [] = []"
  "entries (a # as) = seg_entries a @ entries as"
  "entries (as @ bs) = entries as @ entries bs"
  by (simp_all add: entries_def)

lemma all_segs_simps [simp]:
  "all_segs segs None = segs"
  "all_segs segs (Some a) = segs @ [a]"
  by (simp_all add: all_segs_def)

lemma seg_entries_Nil [simp]: "seg_entries (b, hs, ps) = [] \<longleftrightarrow> ps = []"
  by (cases ps) (simp_all add: seg_entries_def)

lemma map_fst_seg_entries [simp]: "map fst (seg_entries (b, hs, ps)) = [b..<b + length ps]"
  by (simp add: seg_entries_def)

lemma map_of_seg_entries:
  "map_of (seg_entries (b, hs, ps)) i = (if b \<le> i \<and> i < b + length ps then Some (ps ! (i - b)) else None)"
proof -
  have "distinct (map fst (seg_entries (b, hs, ps)))" by simp
  moreover have "b \<le> i \<Longrightarrow> i < b + length ps \<Longrightarrow> (i, ps ! (i - b)) \<in> set (seg_entries (b, hs, ps))"
    by (auto simp: seg_entries_def in_set_enumerate_eq)
  moreover have "\<not> (b \<le> i \<and> i < b + length ps) \<Longrightarrow> i \<notin> fst ` set (seg_entries (b, hs, ps))"
    by (auto simp: seg_entries_def in_set_enumerate_eq)
  ultimately show ?thesis by (auto simp: map_of_eq_None_iff)
qed

lemma chain_append:
  "chain (as @ bs) \<longleftrightarrow> chain as \<and> chain bs \<and>
     (as \<noteq> [] \<and> bs \<noteq> [] \<longrightarrow> fst (hd bs) = fst (last as) + length (snd (snd (last as))))"
proof (induction as rule: chain.induct [case_names Step Empty Single])
  case (Single v)
  then show ?case by (cases v; cases bs) auto
qed auto

text \<open>The indices of a chain of segments are consecutive.\<close>

lemma map_fst_entries:
  assumes "chain as" "as \<noteq> []"
  shows "map fst (entries as) = [fst (hd as)..<fst (hd as) + length (entries as)]"
  using assms
proof (induction as rule: chain.induct)
  case (1 b hs ps b' hs' ps' r)
  then have "map fst (entries ((b', hs', ps') # r)) =
      [b + length ps..<b + length ps + length (entries ((b', hs', ps') # r))]"
    by auto
  then show ?case
    using upt_add_eq_append [of b "b + length ps" "length (entries ((b', hs', ps') # r))"]
    by (simp add: seg_entries_def add.assoc)
qed (auto simp: seg_entries_def)

lemma entries_sorted: "chain as \<Longrightarrow> sorted (map fst (entries as)) \<and> distinct (map fst (entries as))"
  using map_fst_entries [of as] by (cases as) auto

section \<open>The range of a log\<close>

definition cfg :: "log_state \<Rightarrow> path \<times> options \<times> codec \<times> string \<times> bool \<times> nat \<times> bool" where
  "cfg l = (l_dir l, l_opts l, l_codec l, l_ext l, ownsParent l, forkBase l, l_readOnly l)"

lemma cfg_simps [simp]:
  "cfg (l\<lparr>sealed := x\<rparr>) = cfg l" "cfg (l\<lparr>active := y\<rparr>) = cfg l" "cfg (put_seg r s l) = cfg l"
  "headerMode (l\<lparr>sealed := x\<rparr>) = headerMode l" "headerMode (l\<lparr>active := y\<rparr>) = headerMode l"
  "segName (l\<lparr>sealed := x\<rparr>) b = segName l b" "segName (l\<lparr>active := y\<rparr>) b = segName l b"
  by (simp_all add: cfg_def headerMode_def segName_def put_seg_def split: segref.split)

lemma sealed_rep_cfg [simp]:
  "sealed_rep c F w (l\<lparr>sealed := x\<rparr>) = sealed_rep c F w l"
  "sealed_rep c F w (l\<lparr>active := y\<rparr>) = sealed_rep c F w l"
  by (auto simp: fun_eq_iff sealed_rep_def)

lemma active_rep_iff:
  "active_rep c F w l so ao \<longleftrightarrow> so = None \<and> ao = None \<or>
     (\<exists>s b hs ps. so = Some s \<and> ao = Some (b, hs, ps) \<and> seg_wf (headerMode l) (b, hs, ps) \<and>
        seg_rep c F w s hs ps \<and> s_path s = l_dir l @ [segName l b] \<and> baseIndex s = b \<and>
        \<not> readOnly s \<and> maxSize s = SegmentSize (l_opts l) \<and> hasHeader s = headerMode l)"
  by (cases so; cases ao) (auto simp: active_rep_def)

lemma active_rep_cfg [simp]:
  "active_rep c F w (l\<lparr>sealed := x\<rparr>) = active_rep c F w l"
  "active_rep c F w (l\<lparr>active := y\<rparr>) = active_rep c F w l"
  by (simp_all add: fun_eq_iff active_rep_iff)

lemma dir_rep_cfg [simp]:
  "dir_rep w (l\<lparr>sealed := x\<rparr>) = dir_rep w l" "dir_rep w (l\<lparr>active := y\<rparr>) = dir_rep w l"
  by (simp_all add: fun_eq_iff dir_rep_def)

lemma dir_rep_cong: "cfg l' = cfg l \<Longrightarrow> dir_rep w l' as = dir_rep w l as"
  by (simp add: cfg_def dir_rep_def segName_def)

lemma own_repD:
  assumes "own_rep c F w l segs act"
  shows "l_codec l = c" "l_ext l = c_FileExt c" "list_all2 (sealed_rep c F w l) (sealed l) segs"
    "active_rep c F w l (active l) act" "chain (all_segs segs act)"
    "headers_ok (OnSegmentOpen (l_opts l)) (all_segs segs act)"
    "length (sealed l) = length segs"
  using assms by (auto simp: own_rep_def list_all2_lengthD)

lemma sealed_rep_nth: "own_rep c F w l segs act \<Longrightarrow> i < length segs \<Longrightarrow> sealed_rep c F w l (sealed l ! i) (segs ! i)"
  using own_repD(3) list_all2_nthD2 by blast

lemma sealed_repD:
  assumes "sealed_rep c F w l ss (b, hs, ps)"
  shows "seg_wf (headerMode l) (b, hs, ps)" "ps \<noteq> []" "ss_base ss = b" "ss_last ss = b + length ps - 1"
    "ss_path ss = l_dir l @ [segName l b]" "file_rep F w (ss_path ss) (hs @ ps)" "ss_err ss = None"
  using assms by (auto simp: sealed_rep_def)

lemma own_rep_sealed_mem:
  "own_rep c F w l segs act \<Longrightarrow> a \<in> set segs \<Longrightarrow> \<exists>ss \<in> set (sealed l). sealed_rep c F w l ss a"
  using sealed_rep_nth own_repD(7) by (metis in_set_conv_nth)

lemma own_rep_sealed_nonempty: "own_rep c F w l segs act \<Longrightarrow> (b, hs, ps) \<in> set segs \<Longrightarrow> ps \<noteq> []"
  using own_rep_sealed_mem sealed_repD(2) by blast

lemma own_rep_wf:
  assumes "own_rep c F w l segs act" "a \<in> set (all_segs segs act)"
  shows "seg_wf (headerMode l) a"
proof (cases "a \<in> set segs")
  case True
  from own_rep_sealed_mem [OF assms(1) True] show ?thesis by (auto simp: sealed_rep_def split: prod.splits)
next
  case False
  then show ?thesis
    using assms(2) own_repD(4) [OF assms(1)] by (cases act) (auto simp: active_rep_iff)
qed

lemma entries_sealed_nonempty:
  assumes "own_rep c F w l segs act" "segs \<noteq> []"
  shows "entries segs \<noteq> []"
proof -
  obtain b hs ps r where "segs = (b, hs, ps) # r" using assms(2) by (cases segs) auto
  then show ?thesis using own_rep_sealed_nonempty [OF assms(1), of b hs ps] by simp
qed

lemma isEmptyLocked_rep:
  assumes "own_rep c F w l segs act"
  shows "isEmptyLocked l \<longleftrightarrow> entries (all_segs segs act) = []"
proof (cases "segs = []")
  case True
  then have "sealed l = []" using own_repD(7) [OF assms] by simp
  with True own_repD(4) [OF assms] show ?thesis
    by (auto simp: active_rep_iff isEmptyLocked_def seg_repD(2))
next
  case False
  then have "sealed l \<noteq> []" "entries segs \<noteq> []"
    using own_repD(7) [OF assms] entries_sealed_nonempty [OF assms] by auto
  then show ?thesis by (simp add: isEmptyLocked_def all_segs_def)
qed

text \<open>The first and the last index of a log that is not empty.\<close>

lemma firstIndexLocked_rep:
  assumes "own_rep c F w l segs act" "entries (all_segs segs act) \<noteq> []"
  shows "firstIndexLocked l = fst (hd (all_segs segs act))"
proof (cases segs)
  case Nil
  then have "sealed l = []" using own_repD(7) [OF assms(1)] by simp
  with Nil assms(2) own_repD(4) [OF assms(1)] show ?thesis
    by (auto simp: firstIndexLocked_def active_rep_iff seg_repD(2))
next
  case (Cons a as)
  then obtain ss sss where "sealed l = ss # sss" "sealed_rep c F w l ss a"
    using own_repD(3) [OF assms(1)] by (auto simp: list_all2_Cons2)
  with Cons show ?thesis
    by (cases a) (simp add: firstIndexLocked_def sealed_repD all_segs_def)
qed

lemma last_seg_entries: "ps \<noteq> [] \<Longrightarrow> fst (last (seg_entries (b, hs, ps))) = b + length ps - 1"
  using last_map [of "seg_entries (b, hs, ps)" fst] by simp

lemma last_entries:
  assumes "chain as" "entries as \<noteq> []"
  shows "fst (last (entries as)) = fst (hd as) + length (entries as) - 1"
proof -
  have "as \<noteq> []" using assms(2) by auto
  then have "last (map fst (entries as)) = fst (hd as) + length (entries as) - 1"
    using map_fst_entries [OF assms(1)] assms(2) by simp
  then show ?thesis using assms(2) by (simp add: last_map)
qed

lemma last_sealed_rep:
  assumes "own_rep c F w l segs act" "segs \<noteq> []"
  shows "sealed l \<noteq> []" "ss_last (last (sealed l)) = fst (last (entries segs))"
proof -
  obtain segs' b hs ps where sg: "segs = segs' @ [(b, hs, ps)]"
    using assms(2) by (cases segs rule: rev_cases) auto
  obtain sss ss where "sealed l = sss @ [ss]" "sealed_rep c F w l ss (b, hs, ps)"
    using own_repD(3) [OF assms(1)] by (auto simp: sg list_all2_append2 list_all2_Cons2)
  then show "sealed l \<noteq> []" "ss_last (last (sealed l)) = fst (last (entries segs))"
    by (simp_all add: sg sealed_repD last_seg_entries)
qed

lemma lastIndexLocked_rep:
  assumes "own_rep c F w l segs act" "entries (all_segs segs act) \<noteq> []"
  shows "lastIndexLocked l = fst (hd (all_segs segs act)) + length (entries (all_segs segs act)) - 1"
proof -
  let ?as = "all_segs segs act"
  have segs: "segs = [] \<or> sealed l \<noteq> [] \<and> ss_last (last (sealed l)) = fst (last (entries segs))"
    using last_sealed_rep [OF assms(1)] by auto
  have "lastIndexLocked l = fst (last (entries ?as))"
    using own_repD(4) [OF assms(1)] unfolding active_rep_iff
  proof (elim disjE exE conjE)
    assume "active l = None" "act = None"
    with segs assms(2) show ?thesis by (auto simp: lastIndexLocked_def)
  next
    fix s b hs ps assume a: "active l = Some s" "act = Some (b, hs, ps)" "seg_rep c F w s hs ps" "baseIndex s = b"
    show ?thesis
    proof (cases "ps = []")
      case True
      with a segs assms(2) seg_repD(2) [OF a(3)] show ?thesis by (auto simp: lastIndexLocked_def)
    next
      case False
      with a seg_repD(2) [OF a(3)] seg_LastIndex_rep [OF a(3) False] last_seg_entries show ?thesis
        by (simp add: lastIndexLocked_def)
    qed
  qed
  then show ?thesis using last_entries [OF own_repD(5) [OF assms(1)] assms(2)] by simp
qed

section \<open>Routing\<close>

lemma list_all2_upd: "list_all2 P xs ys \<Longrightarrow> i < length ys \<Longrightarrow> P x (ys ! i) \<Longrightarrow> list_all2 P (xs[i := x]) ys"
  by (metis list_all2_update_cong list_update_id)

text \<open>The segment a reference stands for.\<close>

definition located :: "codec \<Rightarrow> (bytes \<Rightarrow> bytes \<Rightarrow> bool) \<Rightarrow> sys \<Rightarrow> log_state \<Rightarrow> aseg list \<Rightarrow> aseg option \<Rightarrow>
    segref \<Rightarrow> segment \<Rightarrow> aseg \<Rightarrow> bool" where
  "located c F w l segs act ref s a \<longleftrightarrow> (case a of (b, hs, ps) \<Rightarrow>
     seg_rep c F w s hs ps \<and> baseIndex s = b \<and>
     (case ref of
        SealedAt i \<Rightarrow> i < length segs \<and> segs ! i = a \<and> ss_seg (sealed l ! i) = Some s
      | ActiveRef \<Rightarrow> act = Some a \<and> active l = Some s))"

text \<open>What a read does to a segment, loading its block, keeps the log.\<close>

lemma put_seg_rep:
  assumes rep: "own_rep c F w l segs act" and loc: "located c F w l segs act ref s (b, hs, ps)"
    and bl: "seg_rep c F w (s\<lparr>s_block := bl\<rparr>) hs ps"
  shows "own_rep c F w (put_seg ref (s\<lparr>s_block := bl\<rparr>) l) segs act \<and>
    located c F w (put_seg ref (s\<lparr>s_block := bl\<rparr>) l) segs act ref (s\<lparr>s_block := bl\<rparr>) (b, hs, ps)"
proof (cases ref)
  case (SealedAt i)
  with loc have i: "i < length segs" "segs ! i = (b, hs, ps)" "ss_seg (sealed l ! i) = Some s" "baseIndex s = b"
    by (auto simp: located_def)
  have r: "sealed_rep c F w l (sealed l ! i) (segs ! i)" using sealed_rep_nth [OF rep i(1)] .
  then have "sealed_rep c F w l ((sealed l ! i)\<lparr>ss_seg := Some (s\<lparr>s_block := bl\<rparr>)\<rparr>) (segs ! i)"
    using i bl by (auto simp: sealed_rep_def)
  then have "list_all2 (sealed_rep c F w l)
      ((sealed l)[i := (sealed l ! i)\<lparr>ss_seg := Some (s\<lparr>s_block := bl\<rparr>)\<rparr>]) segs"
    by (rule list_all2_upd [OF own_repD(3) [OF rep] i(1)])
  then show ?thesis
    using rep i bl own_repD(7) [OF rep] by (auto simp: SealedAt put_seg_def own_rep_def located_def)
next
  case ActiveRef
  then show ?thesis
    using rep loc bl by (auto simp: put_seg_def own_rep_def located_def active_rep_iff)
qed

lemma entries_append_lookup:
  "map_of (entries (as @ bs)) i = (case map_of (entries as) i of Some p \<Rightarrow> Some p | None \<Rightarrow> map_of (entries bs) i)"
  by (auto split: option.split simp: map_add_def)

lemma map_of_entries_mem:
  assumes "chain as" "(b, hs, ps) \<in> set as" "b \<le> i" "i < b + length ps"
  shows "map_of (entries as) i = Some (ps ! (i - b))"
proof -
  have "(i, ps ! (i - b)) \<in> set (seg_entries (b, hs, ps))"
    using assms(3,4) by (auto simp: seg_entries_def in_set_enumerate_eq)
  then have "(i, ps ! (i - b)) \<in> set (entries as)"
    using assms(2) by (force simp: entries_def)
  then show ?thesis using entries_sorted [OF assms(1)] by (simp add: map_of_eq_Some_iff)
qed

lemma map_of_entries_SomeD:
  assumes "map_of (entries as) i = Some p"
  obtains b hs ps where "(b, hs, ps) \<in> set as" "b \<le> i" "i < b + length ps" "p = ps ! (i - b)"
proof -
  have "(i, p) \<in> set (entries as)" using assms by (rule map_of_SomeD)
  then obtain b hs ps where a: "(b, hs, ps) \<in> set as" "(i, p) \<in> set (seg_entries (b, hs, ps))"
    by (force simp: entries_def)
  then have "b \<le> i \<and> i < b + length ps \<and> p = ps ! (i - b)"
    by (auto simp: seg_entries_def in_set_enumerate_eq)
  with a that show ?thesis by blast
qed

lemma chain_lasts:
  assumes "chain as" "i < j" "j < length as" "as ! i = (b, hs, ps)" "as ! j = (b', hs', ps')"
  shows "b + length ps \<le> b'"
  using assms
proof (induction as arbitrary: i j b hs ps rule: chain.induct)
  case (1 b0 hs0 ps0 b1 hs1 ps1 r)
  show ?case
  proof (cases i)
    case 0
    then have b: "b = b0" "ps = ps0" using "1.prems" by auto
    show ?thesis
    proof (cases "j = 1")
      case True
      with 0 "1.prems" show ?thesis by auto
    next
      case False
      then have "b1 + length ps1 \<le> b'"
        using "1.IH" [of 0 "j - 1"] "1.prems" 0 by (auto simp: nth_Cons')
      with b "1.prems"(1) show ?thesis by simp
    qed
  next
    case (Suc i')
    then show ?thesis using "1.IH" [of i' "j - 1"] "1.prems" by (auto simp: nth_Cons')
  qed
qed (auto simp: nth_Cons')

lemma sealed_sorted:
  assumes "own_rep c F w l segs act"
  shows "sorted (map ss_last (sealed l))"
proof (rule sorted_iff_nth_mono_less [THEN iffD2], intro allI impI)
  fix i j assume ij: "i < j" "j < length (map ss_last (sealed l))"
  have ch: "chain segs" using own_repD(5) [OF assms] by (auto simp: all_segs_def chain_append)
  obtain b hs ps b' hs' ps' where s: "segs ! i = (b, hs, ps)" "segs ! j = (b', hs', ps')"
    by (metis surj_pair)
  have "sealed_rep c F w l (sealed l ! i) (b, hs, ps)" "sealed_rep c F w l (sealed l ! j) (b', hs', ps')"
    using sealed_rep_nth [OF assms, of i] sealed_rep_nth [OF assms, of j] ij own_repD(7) [OF assms] s by simp_all
  then show "map ss_last (sealed l) ! i \<le> map ss_last (sealed l) ! j"
    using chain_lasts [OF ch ij(1) _ s] ij own_repD(7) [OF assms] by (simp add: sealed_repD)
qed

lemma sealedFor_Some:
  assumes rep: "own_rep c F w l segs act" and s: "sealedFor (sealed l) idx = Some i"
  shows "i < length segs" "fst (segs ! i) \<le> idx" "idx < fst (segs ! i) + length (snd (snd (segs ! i)))"
proof -
  note sc = searchSealed_correct [OF sealed_sorted [OF rep], of idx]
  have i: "i = searchSealed (sealed l) idx" "i < length (sealed l)" "ss_base (sealed l ! i) \<le> idx"
    using s by (auto simp: sealedFor_def Let_def split: if_splits)
  then show "i < length segs" using own_repD(7) [OF rep] by simp
  obtain b hs ps where sg: "segs ! i = (b, hs, ps)" by (cases "segs ! i") auto
  have r: "sealed_rep c F w l (sealed l ! i) (b, hs, ps)"
    using sealed_rep_nth [OF rep] i(2) own_repD(7) [OF rep] sg by metis
  have "idx \<le> ss_last (sealed l ! i)" using sc i by auto
  then show "fst (segs ! i) \<le> idx" "idx < fst (segs ! i) + length (snd (snd (segs ! i)))"
    using i(3) sg sealed_repD [OF r] by (cases ps; simp)+
qed

lemma sealedFor_None_rep:
  assumes rep: "own_rep c F w l segs act" and s: "sealedFor (sealed l) idx = None"
    and a: "(b, hs, ps) \<in> set segs"
  shows "\<not> (b \<le> idx \<and> idx < b + length ps)"
proof
  assume h: "b \<le> idx \<and> idx < b + length ps"
  note sc = searchSealed_correct [OF sealed_sorted [OF rep], of idx]
  obtain k where k: "k < length segs" "segs ! k = (b, hs, ps)" using a by (metis in_set_conv_nth)
  have kr: "sealed_rep c F w l (sealed l ! k) (b, hs, ps)" using sealed_rep_nth [OF rep k(1)] k(2) by simp
  let ?i = "searchSealed (sealed l) idx"
  have "\<not> ss_last (sealed l ! k) < idx" using h sealed_repD(4) [OF kr] by linarith
  with sc have "?i \<le> k" by (meson not_le)
  then have i: "?i < length segs" using k(1) by simp
  then have lt: "idx < ss_base (sealed l ! ?i)"
    using s own_repD(7) [OF rep] by (auto simp: sealedFor_def Let_def split: if_splits)
  obtain b' hs' ps' where i': "segs ! ?i = (b', hs', ps')" by (cases "segs ! ?i") auto
  have ir: "ss_base (sealed l ! ?i) = b'" using sealed_rep_nth [OF rep i] i' sealed_repD(3) by simp
  have ch: "chain segs" using own_repD(5) [OF rep] by (auto simp: all_segs_def chain_append)
  show False
  proof (cases "?i = k")
    case True
    with k i' ir lt h show False by simp
  next
    case False
    then have "b' + length ps' \<le> b" using chain_lasts [OF ch _ k(1) i' k(2)] \<open>?i \<le> k\<close> by simp
    with ir lt h show False by simp
  qed
qed

section \<open>Entries by index\<close>

definition entry_at :: "aseg list \<Rightarrow> nat \<Rightarrow> nat \<times> bytes" where
  "entry_at as k = (k, the (map_of (entries as) k))"

abbreviation first_of :: "aseg list \<Rightarrow> nat" where
  "first_of as \<equiv> fst (hd as)"

abbreviation end_of :: "aseg list \<Rightarrow> nat" where
  "end_of as \<equiv> first_of as + length (entries as)"

lemma entries_eq_map:
  assumes "chain as" "as \<noteq> []"
  shows "entries as = map (entry_at as) [first_of as..<end_of as]"
proof -
  have "map (entry_at as) (map fst (entries as)) = map (\<lambda>x. x) (entries as)"
  proof (unfold map_map, rule map_cong [OF refl])
    fix x assume "x \<in> set (entries as)"
    then have "map_of (entries as) (fst x) = Some (snd x)"
      using entries_sorted [OF assms(1)] by (simp add: map_of_eq_Some_iff)
    then show "(entry_at as \<circ> fst) x = x" by (simp add: entry_at_def)
  qed
  then show ?thesis using map_fst_entries [OF assms] by simp
qed

lemma map_of_entries_iff:
  assumes "chain as" "as \<noteq> []"
  shows "map_of (entries as) k \<noteq> None \<longleftrightarrow> first_of as \<le> k \<and> k < end_of as"
proof -
  have "map_of (entries as) k \<noteq> None \<longleftrightarrow> k \<in> set (map fst (entries as))" by (simp add: map_of_eq_None_iff)
  then show ?thesis by (simp only: map_fst_entries [OF assms] set_upt) auto
qed

lemma filter_upt_ge: "filter (\<lambda>k. i \<le> k) [m..<n] = [max i m..<n]"
  by (induction n) (auto simp: max_def le_Suc_eq)

lemma filter_upt_le: "filter (\<lambda>k. k \<le> i) [m..<n] = [m..<min (Suc i) n]"
  by (induction n) (auto simp: min_def le_Suc_eq not_le)

lemma filter_entries_ge:
  assumes "chain as" "as \<noteq> []"
  shows "filter (\<lambda>x. i \<le> fst x) (entries as) = map (entry_at as) [max i (first_of as)..<end_of as]"
proof -
  have "filter (\<lambda>x. i \<le> fst x) (entries as) = filter (\<lambda>x. i \<le> fst x) (map (entry_at as) [first_of as..<end_of as])"
    using entries_eq_map [OF assms] by simp
  then show ?thesis by (simp add: filter_map o_def entry_at_def filter_upt_ge)
qed

lemma filter_entries_le:
  assumes "chain as" "as \<noteq> []"
  shows "filter (\<lambda>x. fst x \<le> i) (entries as) = map (entry_at as) [first_of as..<min (Suc i) (end_of as)]"
proof -
  have "filter (\<lambda>x. fst x \<le> i) (entries as) = filter (\<lambda>x. fst x \<le> i) (map (entry_at as) [first_of as..<end_of as])"
    using entries_eq_map [OF assms] by simp
  then show ?thesis by (simp add: filter_map o_def entry_at_def filter_upt_le)
qed

lemma entry_at_mem:
  "chain as \<Longrightarrow> (b, hs, ps) \<in> set as \<Longrightarrow> b \<le> k \<Longrightarrow> k < b + length ps \<Longrightarrow> entry_at as k = (k, ps ! (k - b))"
  by (simp add: entry_at_def map_of_entries_mem)

lemma segment_within:
  assumes "chain as" "(b, hs, ps) \<in> set as" "ps \<noteq> []"
  shows "first_of as \<le> b" "b + length ps \<le> end_of as"
proof -
  have ne: "as \<noteq> []" using assms(2) by auto
  have "map_of (entries as) b \<noteq> None" "map_of (entries as) (b + length ps - 1) \<noteq> None"
    using map_of_entries_mem [OF assms(1,2)] assms(3) by (cases ps; simp)+
  then show "first_of as \<le> b" "b + length ps \<le> end_of as"
    using map_of_entries_iff [OF assms(1) ne] assms(3) by (cases ps; simp)+
qed

section \<open>Reads over a lawful codec\<close>

context lawful_codec
begin

lemma ss_open_rep:
  assumes "sealed_rep c is_frame w l ss (b, hs, ps)"
  shows "\<exists>s ss'. ss_open w c (headerMode l) ss = (Inr (Some s), ss') \<and> ss_seg ss' = Some s \<and>
    seg_rep c is_frame w s hs ps \<and> baseIndex s = b \<and> sealed_rep c is_frame w l ss' (b, hs, ps)"
proof (cases "ss_seg ss")
  case (Some s)
  with assms show ?thesis by (auto simp: ss_open_def sealed_rep_def)
next
  case None
  note r = sealed_repD [OF assms]
  from r(6) obtain fs where fs: "stat w (ss_path ss) = Some (File (concat fs))" "list_all2 is_frame fs (hs @ ps)"
    by (auto simp: file_rep_def)
  have hs: "length hs = (if headerMode l then 1 else 0)" "b + length ps < u64_lim" "length (hs @ ps) < u64_lim"
    using r(1) by (auto simp: seg_wf_def)
  define s where "s = seg_indexed (ss_path ss) c b 0 True (headerMode l) fs hs ps"
  have split: "(if headerMode l then take 1 (hs @ ps) else []) = hs"
    "(if headerMode l then drop 1 (hs @ ps) else hs @ ps) = ps"
    using hs(1) by (auto split: if_splits)
  have "seg_openRO w (ss_path ss) c (ss_base ss) (headerMode l) = (Inr s, w)"
    "seg_rep c is_frame w s hs ps"
    using seg_open_clean(2,3) [OF fs, of b "headerMode l" "\<lambda>ro mx. seg_indexed (ss_path ss) c b mx ro (headerMode l) fs hs ps"]
      hs(2,3) split r(3) by (simp_all add: s_def)
  then show ?thesis
    using None assms r by (auto simp: ss_open_def sealed_rep_def s_def)
qed

lemma openSealed_rep:
  assumes rep: "own_rep c is_frame w l segs act" and i: "i < length segs"
  shows "\<exists>s l'. openSealed w l i = (Inr (Some s), l') \<and> own_rep c is_frame w l' segs act \<and> cfg l' = cfg l \<and>
    active l' = active l \<and> located c is_frame w l' segs act (SealedAt i) s (segs ! i)"
proof -
  obtain b hs ps where a: "segs ! i = (b, hs, ps)" by (cases "segs ! i") auto
  have "sealed_rep c is_frame w l (sealed l ! i) (b, hs, ps)" using sealed_rep_nth [OF rep i] a by simp
  then obtain s ss' where ss: "ss_open w c (headerMode l) (sealed l ! i) = (Inr (Some s), ss')"
    "ss_seg ss' = Some s" "seg_rep c is_frame w s hs ps" "baseIndex s = b"
    "sealed_rep c is_frame w l ss' (b, hs, ps)"
    using ss_open_rep by blast
  let ?l = "l\<lparr>sealed := (sealed l)[i := ss']\<rparr>"
  have "list_all2 (sealed_rep c is_frame w l) ((sealed l)[i := ss']) segs"
    using list_all2_upd [OF own_repD(3) [OF rep] i] ss(5) a by simp
  then have "own_rep c is_frame w ?l segs act" using rep by (auto simp: own_rep_def)
  moreover have "located c is_frame w ?l segs act (SealedAt i) s (segs ! i)"
    using a i ss own_repD(7) [OF rep] by (simp add: located_def)
  moreover have "openSealed w l i = (Inr (Some s), ?l)"
    using ss(1) own_repD(1) [OF rep] by (simp add: openSealed_def)
  ultimately show ?thesis by simp
qed

text \<open>Routing an index: the segment that holds its record, or none when there is no such record.\<close>

lemma find_rep:
  assumes rep: "own_rep c is_frame w l segs act"
  shows "\<exists>r l'. findSegmentLocked w l idx = (Inr r, l') \<and> own_rep c is_frame w l' segs act \<and> cfg l' = cfg l \<and>
    (case map_of (entries (all_segs segs act)) idx of
       None \<Rightarrow> r = None
     | Some p \<Rightarrow> \<exists>ref s b hs ps. r = Some (ref, s) \<and> located c is_frame w l' segs act ref s (b, hs, ps) \<and>
         (b, hs, ps) \<in> set (all_segs segs act) \<and> b \<le> idx \<and> idx < b + length ps \<and> p = ps ! (idx - b))"
proof (cases "sealedFor (sealed l) idx")
  case (Some i)
  note s = sealedFor_Some [OF rep Some]
  obtain b hs ps where a: "segs ! i = (b, hs, ps)" by (cases "segs ! i") auto
  obtain sg l' where o: "openSealed w l i = (Inr (Some sg), l')" "own_rep c is_frame w l' segs act"
    "cfg l' = cfg l" "located c is_frame w l' segs act (SealedAt i) sg (b, hs, ps)"
    using openSealed_rep [OF rep s(1)] a by auto
  have mem: "(b, hs, ps) \<in> set (all_segs segs act)" using s(1) a nth_mem by (fastforce simp: all_segs_def)
  have "map_of (entries (all_segs segs act)) idx = Some (ps ! (idx - b))"
    using map_of_entries_mem [OF own_repD(5) [OF rep] mem] s(2,3) a by simp
  moreover have "findSegmentLocked w l idx = (Inr (Some (SealedAt i, sg)), l')"
    using Some o(1) by (simp add: findSegmentLocked_def)
  ultimately show ?thesis using o mem s(2,3) a by auto
next
  case None
  have no: "map_of (entries segs) idx = None"
    using sealedFor_None_rep [OF rep None] map_of_entries_SomeD by (metis not_None_eq)
  show ?thesis
    using own_repD(4) [OF rep] unfolding active_rep_iff
  proof (elim disjE exE conjE)
    assume "active l = None" "act = None"
    with None no rep show ?thesis by (auto simp: findSegmentLocked_def)
  next
    fix s b hs ps
    assume a: "active l = Some s" "act = Some (b, hs, ps)" "seg_rep c is_frame w s hs ps" "baseIndex s = b"
    have look: "map_of (entries (all_segs segs act)) idx =
        (if b \<le> idx \<and> idx < b + length ps then Some (ps ! (idx - b)) else None)"
      using no a(2) by (simp add: map_of_seg_entries map_add_def split: option.split)
    have cond: "count s > 0 \<and> idx \<ge> baseIndex s \<and> idx \<le> seg_LastIndex s \<longleftrightarrow> b \<le> idx \<and> idx < b + length ps"
      using a(4) seg_repD(2) [OF a(3)] seg_LastIndex_rep [OF a(3)] by (cases ps) auto
    show ?thesis
    proof (cases "b \<le> idx \<and> idx < b + length ps")
      case True
      moreover have "findSegmentLocked w l idx = (Inr (Some (ActiveRef, s)), l)"
        using None a(1) cond True by (simp add: findSegmentLocked_def)
      moreover have "located c is_frame w l segs act ActiveRef s (b, hs, ps)"
        using a by (simp add: located_def)
      ultimately show ?thesis using rep look a(2) by auto
    next
      case False
      moreover have "findSegmentLocked w l idx = (Inr None, l)"
        using None a(1) cond False by (simp add: findSegmentLocked_def)
      ultimately show ?thesis using rep look by auto
    qed
  qed
qed

text \<open>A read of one record through its reference.\<close>

lemma located_read:
  assumes rep: "own_rep c is_frame w l segs act" and loc: "located c is_frame w l segs act ref s (b, hs, ps)"
    and i: "b \<le> idx" "idx < b + length ps"
  shows "\<exists>s'. seg_ReadIndex w s (u64_sub idx (baseIndex s)) = (Inr (ps ! (idx - b)), s') \<and>
    own_rep c is_frame w (put_seg ref s' l) segs act \<and> located c is_frame w (put_seg ref s' l) segs act ref s' (b, hs, ps)"
proof -
  have s: "seg_rep c is_frame w s hs ps" "baseIndex s = b" using loc by (auto simp: located_def)
  have "u64_sub idx b = idx - b" using i seg_repD(3) [OF s(1)] s(2) by (intro u64_sub_eq) auto
  moreover have "idx - b < length ps" using i by linarith
  moreover obtain bl where "seg_ReadIndex w s (idx - b) = (Inr (ps ! (idx - b)), s\<lparr>s_block := bl\<rparr>)"
    "seg_rep c is_frame w (s\<lparr>s_block := bl\<rparr>) hs ps"
    using seg_ReadIndex_rep [OF s(1), of "idx - b"] \<open>idx - b < length ps\<close> by blast
  ultimately show ?thesis using put_seg_rep [OF rep loc] s(2) by auto
qed

lemma own_read_rep:
  assumes rep: "own_rep c is_frame w l segs act" and "entries (all_segs segs act) \<noteq> []"
  shows "\<exists>l'. (case findSegmentLocked w l idx of
        (Inl e, l') \<Rightarrow> (Inl e, DLog l' pa)
      | (Inr None, l') \<Rightarrow> (Inl ErrNotFound, DLog l' pa)
      | (Inr (Some (ref, s)), l') \<Rightarrow> (case seg_ReadIndex w s (u64_sub idx (baseIndex s)) of
          (r, s') \<Rightarrow> (r, DLog (put_seg ref s' l') pa))) =
      ((case map_of (entries (all_segs segs act)) idx of None \<Rightarrow> Inl ErrNotFound | Some p \<Rightarrow> Inr p), DLog l' pa) \<and>
    own_rep c is_frame w l' segs act \<and> cfg l' = cfg l"
proof -
  obtain r l' where f: "findSegmentLocked w l idx = (Inr r, l')" "own_rep c is_frame w l' segs act" "cfg l' = cfg l"
    and m: "case map_of (entries (all_segs segs act)) idx of
       None \<Rightarrow> r = None
     | Some p \<Rightarrow> \<exists>ref s b hs ps. r = Some (ref, s) \<and> located c is_frame w l' segs act ref s (b, hs, ps) \<and>
         (b, hs, ps) \<in> set (all_segs segs act) \<and> b \<le> idx \<and> idx < b + length ps \<and> p = ps ! (idx - b)"
    using find_rep [OF rep, of idx] by blast
  show ?thesis
  proof (cases "map_of (entries (all_segs segs act)) idx")
    case None
    with f m show ?thesis by auto
  next
    case (Some p)
    with m obtain ref s b hs ps where q: "r = Some (ref, s)" "located c is_frame w l' segs act ref s (b, hs, ps)"
      "b \<le> idx" "idx < b + length ps" "p = ps ! (idx - b)" by auto
    from located_read [OF f(2) q(2-4)] obtain s' where
      "seg_ReadIndex w s (u64_sub idx (baseIndex s)) = (Inr (ps ! (idx - b)), s')"
      "own_rep c is_frame w (put_seg ref s' l') segs act" by auto
    with Some f q show ?thesis by auto
  qed
qed

text \<open>Reading a log is reading its abstraction.\<close>

lemma disk_Read_rep:
  "dlog_rep c is_frame w d a \<Longrightarrow> \<exists>d'. disk_Read w idx d = (a_Read idx a, d') \<and> dlog_rep c is_frame w d' a"
proof (induction d arbitrary: a)
  case (DLog l pa)
  obtain segs act fb pb where a: "a = ALog segs act fb pb" by (cases a) auto
  have rep: "own_rep c is_frame w l segs act" and fb: "forkBase l = fb" using DLog.prems a by auto
  show ?case
  proof (cases "idx < fb \<and> pa \<noteq> None")
    case True
    then obtain p q where pq: "pa = Some p" "pb = Some q" "dlog_rep c is_frame w p q"
      using DLog.prems a by (auto split: option.splits)
    then obtain p' where "disk_Read w idx p = (a_Read idx q, p')" "dlog_rep c is_frame w p' q"
      using DLog.IH [of p q] by auto
    with True pq a DLog.prems show ?thesis by auto
  next
    case False
    then have sel: "\<not> (idx < fb \<and> pb \<noteq> None)" using DLog.prems a by (auto split: option.splits)
    show ?thesis
    proof (cases "entries (all_segs segs act) = []")
      case True
      with False sel a DLog.prems isEmptyLocked_rep [OF rep] show ?thesis
        by (auto split: option.splits bool.split)
    next
      case ne: False
      from own_read_rep [OF rep ne, where idx = idx and pa = pa] obtain l' where
        "disk_Read w idx (DLog l pa) = (a_Read idx a, DLog l' pa)" "own_rep c is_frame w l' segs act" "cfg l' = cfg l"
        using False sel a fb ne isEmptyLocked_rep [OF rep] by (auto split: option.splits bool.split)
      with a DLog.prems show ?thesis by (auto simp: cfg_def)
    qed
  qed
qed

text \<open>Several records of one segment.\<close>

lemma range_seg_rep:
  assumes "seg_rep c is_frame w s hs ps" "\<And>k. k \<in> set is \<Longrightarrow> baseIndex s \<le> k \<and> k < baseIndex s + length ps"
  shows "\<exists>bl. range_seg w fn s is st = (iterE fn st (map (\<lambda>k. (k, ps ! (k - baseIndex s))) is), s\<lparr>s_block := bl\<rparr>) \<and>
    seg_rep c is_frame w (s\<lparr>s_block := bl\<rparr>) hs ps"
  using assms
proof (induction "is" arbitrary: s st)
  case Nil
  then show ?case by (auto intro: exI [of _ "s_block s"])
next
  case (Cons k ks)
  have k: "baseIndex s \<le> k" "k < baseIndex s + length ps" "k - baseIndex s < length ps"
    using Cons.prems(2) [of k] by auto
  have "u64_sub k (baseIndex s) = k - baseIndex s"
    using k seg_repD(3) [OF Cons.prems(1)] by (intro u64_sub_eq) auto
  then obtain bl where bl: "seg_ReadIndex w s (u64_sub k (baseIndex s)) = (Inr (ps ! (k - baseIndex s)), s\<lparr>s_block := bl\<rparr>)"
    "seg_rep c is_frame w (s\<lparr>s_block := bl\<rparr>) hs ps"
    using seg_ReadIndex_rep [OF Cons.prems(1) k(3)] by auto
  obtain st' e where fn: "fn st (k, ps ! (k - baseIndex s)) = (st', e)" by fastforce
  show ?case
  proof (cases e)
    case None
    obtain bl' where "range_seg w fn (s\<lparr>s_block := bl\<rparr>) ks st' =
        (iterE fn st' (map (\<lambda>k. (k, ps ! (k - baseIndex s))) ks), s\<lparr>s_block := bl'\<rparr>)"
      "seg_rep c is_frame w (s\<lparr>s_block := bl'\<rparr>) hs ps"
      using Cons.IH [OF bl(2), of st'] Cons.prems(2) by auto
    then show ?thesis using bl(1) fn None by auto
  qed (use bl fn in auto)
qed

lemma read_list_rep:
  assumes "seg_rep c is_frame w s hs ps" "\<And>k. k \<in> set is \<Longrightarrow> k < length ps"
  shows "\<exists>bl. read_list w s is = (Inr (map ((!) ps) is), s\<lparr>s_block := bl\<rparr>) \<and>
    seg_rep c is_frame w (s\<lparr>s_block := bl\<rparr>) hs ps"
  using assms
proof (induction "is" arbitrary: s)
  case Nil
  then show ?case by (auto intro: exI [of _ "s_block s"])
next
  case (Cons k ks)
  obtain bl where bl: "seg_ReadIndex w s k = (Inr (ps ! k), s\<lparr>s_block := bl\<rparr>)"
    "seg_rep c is_frame w (s\<lparr>s_block := bl\<rparr>) hs ps"
    using seg_ReadIndex_rep [OF Cons.prems(1)] Cons.prems(2) by auto
  obtain bl' where "read_list w (s\<lparr>s_block := bl\<rparr>) ks = (Inr (map ((!) ps) ks), s\<lparr>s_block := bl'\<rparr>)"
    "seg_rep c is_frame w (s\<lparr>s_block := bl'\<rparr>) hs ps"
    using Cons.IH [OF bl(2)] Cons.prems(2) by auto
  then show ?case using bl by auto
qed

lemma segPayloads_rep:
  assumes "seg_rep c is_frame w s hs ps"
  shows "\<exists>bl. segPayloads w s = (Inr ps, s\<lparr>s_block := bl\<rparr>) \<and> seg_rep c is_frame w (s\<lparr>s_block := bl\<rparr>) hs ps"
  using read_list_rep [OF assms, of "[0..<count s]"] seg_repD(2) [OF assms]
  by (auto simp: segPayloads_def map_nth)

text \<open>The loop of \<^verbatim>\<open>Range\<close> ends and visits every record from the current index on.\<close>

lemma range_loop_rep:
  assumes "own_rep c is_frame w l segs act" and as: "as = all_segs segs act" "entries as \<noteq> []"
    and "first_of as \<le> cur" "cur \<le> end_of as" "lst = end_of as - 1"
  shows "\<exists>l'. range_loop w fn lst l cur st = Some (iterE fn st (map (entry_at as) [cur..<end_of as]), l') \<and>
    own_rep c is_frame w l' segs act \<and> cfg l' = cfg l"
  using assms(1,4,5)
proof (induction "end_of as - cur" arbitrary: l cur st rule: less_induct)
  case less
  have ch: "chain as" "as \<noteq> []" using own_repD(5) [OF less.prems(1)] as by auto
  show ?case
  proof (cases "cur < end_of as")
    case False
    then have "range_loop w fn lst l cur st = Some ((st, None), l)"
      using less.prems(3) as(2) assms(6) by (subst range_loop.simps) (cases "entries as"; auto)
    with False less.prems show ?thesis by auto
  next
    case True
    then have "map_of (entries as) cur \<noteq> None" using map_of_entries_iff [OF ch] less.prems(2) by simp
    then obtain ref s b hs ps l' where f: "findSegmentLocked w l cur = (Inr (Some (ref, s)), l')"
      "own_rep c is_frame w l' segs act" "cfg l' = cfg l" "located c is_frame w l' segs act ref s (b, hs, ps)"
      "(b, hs, ps) \<in> set as" "b \<le> cur" "cur < b + length ps"
      using find_rep [OF less.prems(1), of cur] unfolding as(1) by (auto split: option.splits)
    have sg: "seg_rep c is_frame w s hs ps" "baseIndex s = b" using f(4) by (auto simp: located_def)
    have ne: "ps \<noteq> []" using f(6,7) by auto
    note within = segment_within [OF ch(1) f(5) ne]
    have last: "min (seg_LastIndex s) lst = b + length ps - 1"
      using seg_LastIndex_rep [OF sg(1) ne] sg(2) within(2) assms(6) by simp
    have lim: "u64_add (b + length ps - 1) 1 = b + length ps"
      using seg_repD(3) [OF sg(1)] sg(2) ne by (cases ps) (simp_all add: u64_simps)
    have nxt: "Suc (b + length ps - 1) = b + length ps" using ne by (cases ps) auto
    obtain bl where
      rs: "range_seg w fn s [cur..<b + length ps] st =
        (iterE fn st (map (\<lambda>k. (k, ps ! (k - b))) [cur..<b + length ps]), s\<lparr>s_block := bl\<rparr>)"
      "seg_rep c is_frame w (s\<lparr>s_block := bl\<rparr>) hs ps"
      using range_seg_rep [OF sg(1), of "[cur..<b + length ps]" fn st] f(6) sg(2) by auto
    let ?l = "put_seg ref (s\<lparr>s_block := bl\<rparr>) l'"
    have l: "own_rep c is_frame w ?l segs act" "cfg ?l = cfg l" using put_seg_rep [OF f(2,4) rs(2)] f(3) by auto
    have seg: "map (\<lambda>k. (k, ps ! (k - b))) [cur..<b + length ps] = map (entry_at as) [cur..<b + length ps]"
      using entry_at_mem [OF ch(1) f(5)] f(6) by auto
    have split: "[cur..<end_of as] = [cur..<b + length ps] @ [b + length ps..<end_of as]"
      using within(2) f(7) upt_add_eq_append [of cur "b + length ps" "end_of as - (b + length ps)"] by simp
    obtain st' e where it: "iterE fn st (map (entry_at as) [cur..<b + length ps]) = (st', e)" by fastforce
    have unfold: "range_loop w fn lst l cur st = (case (st', e) of
        (st', Some e) \<Rightarrow> Some ((st', Some e), ?l)
      | (st', None) \<Rightarrow> range_loop w fn lst ?l (b + length ps) st')"
    proof -
      have cur: "\<not> lst < cur" using True assms(6) by linarith
      have r: "range_seg w fn s [cur..<Suc (b + length ps - 1)] st = ((st', e), s\<lparr>s_block := bl\<rparr>)"
        using rs(1) by (simp only: nxt seg it)
      show ?thesis
        by (subst range_loop.simps) (simp add: cur f(1) last lim r del: One_nat_def upt_Suc)
    qed
    show ?thesis
    proof (cases e)
      case (Some e')
      with unfold l it split show ?thesis by (auto simp: iterE_append)
    next
      case None
      have dec: "end_of as - (b + length ps) < end_of as - cur" using True f(7) by linarith
      obtain l'' where "range_loop w fn lst ?l (b + length ps) st' =
          Some (iterE fn st' (map (entry_at as) [b + length ps..<end_of as]), l'')"
        "own_rep c is_frame w l'' segs act" "cfg l'' = cfg ?l"
        using less.hyps [of "b + length ps" ?l st', OF dec l(1)] within f(6) by auto
      with None unfold l(2) it split show ?thesis by (auto simp: iterE_append)
    qed
  qed
qed

lemma own_Range_rep:
  assumes rep: "own_rep c is_frame w l segs act"
  shows "\<exists>l'. own_Range w fn from st l =
      Some (iterE fn st (filter (\<lambda>x. from \<le> fst x) (entries (all_segs segs act))), l') \<and>
    own_rep c is_frame w l' segs act \<and> cfg l' = cfg l"
proof (cases "entries (all_segs segs act) = []")
  case True
  then show ?thesis using rep isEmptyLocked_rep [OF rep] by (auto simp: own_Range_def)
next
  case False
  let ?as = "all_segs segs act"
  have ch: "chain ?as" "?as \<noteq> []" using own_repD(5) [OF rep] False by auto
  have lst: "lastIndexLocked l = end_of ?as - 1" using lastIndexLocked_rep [OF rep False] .
  have fst: "firstIndexLocked l = first_of ?as" using firstIndexLocked_rep [OF rep False] .
  have eq: "own_Range w fn from st l = range_loop w fn (end_of ?as - 1) l (max from (first_of ?as)) st"
    using isEmptyLocked_rep [OF rep] False by (simp add: own_Range_def lst fst)
  show ?thesis
  proof (cases "max from (first_of ?as) \<le> end_of ?as")
    case True
    then show ?thesis
      using range_loop_rep [OF rep refl False _ True refl, where fn = fn and st = st] eq
      by (simp add: filter_entries_ge [OF ch])
  next
    case gt: False
    then have "end_of ?as - 1 < max from (first_of ?as)" by linarith
    then have "own_Range w fn from st l = Some ((st, None), l)"
      unfolding eq by (subst range_loop.simps) simp
    moreover have "filter (\<lambda>x. from \<le> fst x) (entries ?as) = []"
      using gt by (simp add: filter_entries_ge [OF ch])
    ultimately show ?thesis using rep by simp
  qed
qed

lemma disk_Range_rep:
  "dlog_rep c is_frame w d a \<Longrightarrow>
   \<exists>d'. disk_Range w fn from st d = Some (a_Range fn from st a, d') \<and> dlog_rep c is_frame w d' a"
proof (induction d arbitrary: a fn)
  case (DLog l pa)
  obtain segs act fb pb where a: "a = ALog segs act fb pb" by (cases a) auto
  have rep: "own_rep c is_frame w l segs act" and fb: "forkBase l = fb" using DLog.prems a by auto
  show ?case
  proof (cases "from < fb \<and> pa \<noteq> None")
    case True
    then obtain p q where pq: "pa = Some p" "pb = Some q" "dlog_rep c is_frame w p q"
      using DLog.prems a by (auto split: option.splits)
    then obtain p' where p': "disk_Range w (boundary fb fn) from st p = Some (a_Range (boundary fb fn) from st q, p')"
      "dlog_rep c is_frame w p' q"
      using DLog.IH [of p q] by auto
    obtain st' e where ar: "a_Range (boundary fb fn) from st q = (st', e)" by fastforce
    show ?thesis
    proof (cases "e \<noteq> None \<and> e \<noteq> Some ErrRangeBoundary")
      case err: True
      with True pq p' ar a fb DLog.prems show ?thesis by auto
    next
      case False
      obtain l' where "own_Range w fn fb st' l =
          Some (iterE fn st' (filter (\<lambda>x. fb \<le> fst x) (entries (all_segs segs act))), l')"
        "own_rep c is_frame w l' segs act" "cfg l' = cfg l"
        using own_Range_rep [OF rep, of fn fb st'] by blast
      with False True pq p' ar a fb DLog.prems show ?thesis by (auto simp: cfg_def)
    qed
  next
    case False
    then have sel: "\<not> (from < fb \<and> pb \<noteq> None)" using DLog.prems a by (auto split: option.splits)
    obtain l' where "own_Range w fn from st l =
        Some (iterE fn st (filter (\<lambda>x. from \<le> fst x) (entries (all_segs segs act))), l')"
      "own_rep c is_frame w l' segs act" "cfg l' = cfg l"
      using own_Range_rep [OF rep, of fn "from" st] by blast
    with False sel a fb DLog.prems show ?thesis by (auto simp: cfg_def split: option.splits bool.split)
  qed
qed

lemma scan_loop_rep:
  assumes "own_rep c is_frame w l segs act" and as: "as = all_segs segs act"
    and "\<And>k. k \<in> set is \<Longrightarrow> map_of (entries as) k \<noteq> None"
  shows "\<exists>l'. scan_loop w fn is st l = (iterE fn st (map (entry_at as) is), l') \<and>
    own_rep c is_frame w l' segs act \<and> cfg l' = cfg l"
  using assms(1,3)
proof (induction "is" arbitrary: l st)
  case Nil
  then show ?case by simp
next
  case (Cons k ks)
  obtain ref s b hs ps l' where f: "findSegmentLocked w l k = (Inr (Some (ref, s)), l')"
    "own_rep c is_frame w l' segs act" "cfg l' = cfg l" "located c is_frame w l' segs act ref s (b, hs, ps)"
    "b \<le> k" "k < b + length ps" "map_of (entries as) k = Some (ps ! (k - b))"
    using find_rep [OF Cons.prems(1), of k] Cons.prems(2) [of k] unfolding as by (auto split: option.splits)
  obtain s' where s': "seg_ReadIndex w s (u64_sub k (baseIndex s)) = (Inr (ps ! (k - b)), s')"
    "own_rep c is_frame w (put_seg ref s' l') segs act"
    using located_read [OF f(2,4-6)] by blast
  have at: "entry_at as k = (k, ps ! (k - b))" using f(7) by (simp add: entry_at_def)
  obtain st' e where fn: "fn st (k, ps ! (k - b)) = (st', e)" by fastforce
  show ?case
  proof (cases e)
    case None
    obtain l'' where "scan_loop w fn ks st' (put_seg ref s' l') = (iterE fn st' (map (entry_at as) ks), l'')"
      "own_rep c is_frame w l'' segs act" "cfg l'' = cfg l"
      using Cons.IH [OF s'(2), of st'] Cons.prems(2) f(3) by auto
    then show ?thesis using f(1) s'(1) fn None at by simp
  qed (use f s' fn at in simp)
qed

lemma own_ScanFromEnd_rep:
  assumes rep: "own_rep c is_frame w l segs act"
  shows "\<exists>l'. own_ScanFromEnd w fn from st l =
      (iterE fn st (rev (filter (\<lambda>x. fst x \<le> from) (entries (all_segs segs act)))), l') \<and>
    own_rep c is_frame w l' segs act \<and> cfg l' = cfg l"
proof (cases "entries (all_segs segs act) = []")
  case True
  then show ?thesis using rep isEmptyLocked_rep [OF rep] by (auto simp: own_ScanFromEnd_def)
next
  case False
  let ?as = "all_segs segs act"
  have ch: "chain ?as" "?as \<noteq> []" using own_repD(5) [OF rep] False by auto
  have rng: "[firstIndexLocked l..<Suc (min from (lastIndexLocked l))] = [first_of ?as..<min (Suc from) (end_of ?as)]"
    using firstIndexLocked_rep [OF rep False] lastIndexLocked_rep [OF rep False] False
    by (cases "entries ?as") (simp_all add: min_Suc_Suc [symmetric] del: upt_Suc min_Suc_Suc)
  have "map_of (entries ?as) k \<noteq> None" if "k \<in> set (rev [first_of ?as..<min (Suc from) (end_of ?as)])" for k
    using that map_of_entries_iff [OF ch, of k] by auto
  then show ?thesis
    using scan_loop_rep [OF rep refl, of "rev [first_of ?as..<min (Suc from) (end_of ?as)]" fn st] isEmptyLocked_rep [OF rep] False
    by (simp add: own_ScanFromEnd_def rng filter_entries_le [OF ch] rev_map del: upt_Suc)
qed

lemma disk_ScanFromEnd_rep:
  "dlog_rep c is_frame w d a \<Longrightarrow>
   \<exists>d'. disk_ScanFromEnd w fn from st d = (a_ScanFromEnd fn from st a, d') \<and> dlog_rep c is_frame w d' a"
proof (induction d arbitrary: a "from" st)
  case (DLog l pa)
  obtain segs act fb pb where a: "a = ALog segs act fb pb" by (cases a) auto
  have rep: "own_rep c is_frame w l segs act" and fb: "forkBase l = fb" using DLog.prems a by auto
  show ?case
  proof (cases "from < fb \<and> pa \<noteq> None")
    case True
    then obtain p q where pq: "pa = Some p" "pb = Some q" "dlog_rep c is_frame w p q"
      using DLog.prems a by (auto split: option.splits)
    then obtain p' where "disk_ScanFromEnd w fn from st p = (a_ScanFromEnd fn from st q, p')" "dlog_rep c is_frame w p' q"
      using DLog.IH [of p q "from" st] by auto
    with True pq a fb DLog.prems show ?thesis by auto
  next
    case False
    then have sel: "\<not> (from < fb \<and> pb \<noteq> None)" using DLog.prems a by (auto split: option.splits)
    obtain l' where l': "own_ScanFromEnd w fn from st l =
        (iterE fn st (rev (filter (\<lambda>x. fst x \<le> from) (entries (all_segs segs act)))), l')"
      "own_rep c is_frame w l' segs act" "cfg l' = cfg l"
      using own_ScanFromEnd_rep [OF rep, of fn "from" st] by blast
    obtain st' e where it: "iterE fn st (rev (filter (\<lambda>x. fst x \<le> from) (entries (all_segs segs act)))) = (st', e)"
      by fastforce
    show ?thesis
    proof (cases "e = None \<and> pa \<noteq> None")
      case True
      then obtain p q where pq: "pa = Some p" "pb = Some q" "dlog_rep c is_frame w p q"
        using DLog.prems a by (auto split: option.splits)
      then obtain p' where "disk_ScanFromEnd w fn (fb - 1) st' p = (a_ScanFromEnd fn (fb - 1) st' q, p')"
        "dlog_rep c is_frame w p' q"
        using DLog.IH [of p q "fb - 1" st'] by auto
      with True False sel pq a fb l' it DLog.prems show ?thesis by (auto simp: cfg_def)
    next
      case stop: False
      with False sel a fb l' it DLog.prems show ?thesis
        by (auto simp: cfg_def split: option.splits bool.split)
    qed
  qed
qed

end

section \<open>Iterations visit what a log shows\<close>

text \<open>
  A callback that answers with the boundary error exactly on an upward closed set of indices, without
  touching its state.
\<close>

definition bounded_by :: "nat set \<Rightarrow> ('s \<Rightarrow> nat \<times> bytes \<Rightarrow> 's \<times> err option) \<Rightarrow> bool" where
  "bounded_by S fn \<longleftrightarrow> (\<forall>i\<in>S. \<forall>j. i \<le> j \<longrightarrow> j \<in> S) \<and>
     (\<forall>st x. if fst x \<in> S then fn st x = (st, Some ErrRangeBoundary) else snd (fn st x) \<noteq> Some ErrRangeBoundary)"

definition swallow :: "'s \<times> err option \<Rightarrow> 's \<times> err option" where
  "swallow r = (fst r, if snd r = Some ErrRangeBoundary then None else snd r)"

lemma bounded_by_boundary: "bounded_by S fn \<Longrightarrow> bounded_by (S \<union> {fb..}) (boundary fb fn)"
  by (auto simp: bounded_by_def boundary_def)

lemma iterE_bounded:
  assumes "bounded_by S fn" "sorted (map fst xs)"
  shows "swallow (iterE fn st xs) = iterE fn st (filter (\<lambda>x. fst x \<notin> S) xs)"
  using assms(2)
proof (induction xs arbitrary: st)
  case Nil
  then show ?case by (simp add: swallow_def)
next
  case (Cons x xs)
  show ?case
  proof (cases "fst x \<in> S")
    case True
    then have "\<forall>y\<in>set xs. fst y \<in> S"
      using Cons.prems assms(1) by (auto simp: bounded_by_def)
    then have "filter (\<lambda>x. fst x \<notin> S) xs = []" by (simp add: filter_empty_conv)
    moreover have "fn st x = (st, Some ErrRangeBoundary)"
      using True assms(1) by (cases x) (auto simp: bounded_by_def)
    ultimately show ?thesis using True by (simp add: swallow_def)
  next
    case False
    obtain st' e where fn: "fn st x = (st', e)" by fastforce
    have "e \<noteq> Some ErrRangeBoundary"
      using False assms(1) fn by (metis (mono_tags, lifting) bounded_by_def snd_conv)
    with False fn Cons show ?thesis by (cases e) (auto simp: swallow_def)
  qed
qed

lemma iterE_boundary_outside:
  "(\<And>x. x \<in> set xs \<Longrightarrow> fst x < fb) \<Longrightarrow> iterE (boundary fb fn) st xs = iterE fn st xs"
  by (rule iterE_cong) (force simp: boundary_def)

fun chains :: "alog \<Rightarrow> bool" where
  "chains (ALog segs act fb pb) \<longleftrightarrow> chain (all_segs segs act) \<and> (case pb of None \<Rightarrow> True | Some q \<Rightarrow> chains q)"

lemma dlog_rep_chains: "dlog_rep c F w d a \<Longrightarrow> chains a"
proof (induction d arbitrary: a)
  case (DLog l pa)
  then show ?case by (cases a) (auto simp: own_repD split: option.splits)
qed

lemma visible_sorted: "chains a \<Longrightarrow> sorted (map fst (visible a)) \<and> distinct (map fst (visible a))"
proof (induction a)
  case (ALog segs act fb pb)
  note e = entries_sorted [of "all_segs segs act"]
  show ?case
  proof (cases pb)
    case (Some q)
    then have "sorted (map fst (visible q)) \<and> distinct (map fst (visible q))" using ALog by auto
    then show ?thesis
      using e ALog.prems Some
      by (auto simp: sorted_append sorted_filter distinct_map_filter)
  qed (use e ALog.prems in simp)
qed

lemma a_Range_swallow:
  "chains a \<Longrightarrow> bounded_by S fn \<Longrightarrow>
   swallow (a_Range fn from st a) = iterE fn st (filter (\<lambda>x. fst x \<notin> S) (filter (\<lambda>x. from \<le> fst x) (visible a)))"
proof (induction a arbitrary: fn S)
  case (ALog segs act fb pb)
  let ?es = "entries (all_segs segs act)"
  have own: "swallow (iterE fn st' (filter P ?es)) = iterE fn st' (filter (\<lambda>x. fst x \<notin> S) (filter P ?es))" for st' P
    using entries_sorted [of "all_segs segs act"] ALog.prems
    by (intro iterE_bounded) (auto intro: sorted_filter)
  show ?case
  proof (cases "from < fb \<and> pb \<noteq> None")
    case True
    then obtain q where q: "pb = Some q" "chains q" using ALog.prems by auto
    let ?A = "filter (\<lambda>x. fst x \<notin> S) (filter (\<lambda>x. from \<le> fst x) (filter (\<lambda>x. fst x < fb) (visible q)))"
    obtain st' e where ar: "a_Range (boundary fb fn) from st q = (st', e)" by fastforce
    have "swallow (st', e) = iterE (boundary fb fn) st
        (filter (\<lambda>x. fst x \<notin> S \<union> {fb..}) (filter (\<lambda>x. from \<le> fst x) (visible q)))"
      using ALog.IH [of q "S \<union> {fb..}" "boundary fb fn"] q ALog.prems bounded_by_boundary ar by fastforce
    also have "filter (\<lambda>x. fst x \<notin> S \<union> {fb..}) (filter (\<lambda>x. from \<le> fst x) (visible q)) = ?A"
      by (auto intro: filter_cong)
    also have "iterE (boundary fb fn) st ?A = iterE fn st ?A"
      by (rule iterE_boundary_outside) auto
    finally have A: "iterE fn st ?A = swallow (st', e)" by simp
    have B: "filter (\<lambda>x. from \<le> fst x) (filter (\<lambda>x. fb \<le> fst x) ?es) = filter (\<lambda>x. fb \<le> fst x) ?es"
      using True by (auto intro!: filter_cong)
    show ?thesis
    proof (cases "e \<noteq> None \<and> e \<noteq> Some ErrRangeBoundary")
      case err: True
      with True q ar A B show ?thesis by (auto simp: iterE_append swallow_def)
    next
      case False
      then have "iterE fn st ?A = (st', None)" using A by (auto simp: swallow_def)
      with False True q ar B own [of st'] show ?thesis by (auto simp: iterE_append)
    qed
  next
    case False
    show ?thesis
    proof (cases pb)
      case None
      then show ?thesis using own by (simp split: bool.split)
    next
      case (Some q)
      then have "filter (\<lambda>x. from \<le> fst x) (filter (\<lambda>x. fst x < fb) (visible q)) = []"
        "filter (\<lambda>x. from \<le> fst x) (filter (\<lambda>x. fb \<le> fst x) ?es) = filter (\<lambda>x. from \<le> fst x) ?es"
        using False by (auto simp: filter_empty_conv intro!: filter_cong)
      with Some False own show ?thesis by simp
    qed
  qed
qed

lemma a_Range_no_boundary:
  "(\<And>st x. snd (fn st x) \<noteq> Some ErrRangeBoundary) \<Longrightarrow> snd (a_Range fn from st a) \<noteq> Some ErrRangeBoundary"
proof -
  assume h: "\<And>st x. snd (fn st x) \<noteq> Some ErrRangeBoundary"
  have it: "snd (iterE fn st xs) \<noteq> Some ErrRangeBoundary" for st xs
  proof (induction xs arbitrary: st)
    case (Cons x xs)
    then show ?case using h [of st x] by (auto split: prod.split option.split)
  qed simp
  show ?thesis by (cases a) (auto simp: it split: option.split bool.split prod.split)
qed

lemma a_Range_visible:
  assumes "chains a" "\<And>st x. snd (fn st x) \<noteq> Some ErrRangeBoundary"
  shows "a_Range fn from st a = iterE fn st (filter (\<lambda>x. from \<le> fst x) (visible a))"
proof -
  have "bounded_by {} fn" using assms(2) by (simp add: bounded_by_def)
  from a_Range_swallow [OF assms(1) this, of "from" st] show ?thesis
    using a_Range_no_boundary [of fn "from" st a, OF assms(2)] by (simp add: swallow_def prod_eq_iff)
qed

text \<open>The descending scan, where every fork holds nothing below its base.\<close>

fun own_above :: "alog \<Rightarrow> bool" where
  "own_above (ALog segs act fb pb) \<longleftrightarrow> (case pb of None \<Rightarrow> True | Some q \<Rightarrow>
     0 < fb \<and> list_all (\<lambda>x. fb \<le> fst x) (entries (all_segs segs act)) \<and> own_above q)"

lemma a_ScanFromEnd_visible:
  "own_above a \<Longrightarrow> a_ScanFromEnd fn from st a = iterE fn st (rev (filter (\<lambda>x. fst x \<le> from) (visible a)))"
proof (induction a arbitrary: "from" st)
  case (ALog segs act fb pb)
  let ?es = "entries (all_segs segs act)"
  show ?case
  proof (cases pb)
    case None
    then show ?thesis by (auto split: bool.split prod.split option.split)
  next
    case (Some q)
    then have q: "0 < fb" "\<forall>x\<in>set ?es. fb \<le> fst x" "own_above q"
      using ALog.prems by (auto simp: list_all_iff)
    have own: "filter (\<lambda>x. fb \<le> fst x) ?es = ?es" using q(2) by simp
    show ?thesis
    proof (cases "from < fb")
      case True
      have "filter (\<lambda>x. fst x \<le> from) ?es = []" using q(2) True by (auto simp: filter_empty_conv)
      moreover have "filter (\<lambda>x. fst x \<le> from) (filter (\<lambda>x. fst x < fb) (visible q)) = filter (\<lambda>x. fst x \<le> from) (visible q)"
        using True by (auto intro!: filter_cong)
      ultimately show ?thesis using Some True ALog.IH [of q "from" st] q own by simp
    next
      case False
      have "filter (\<lambda>x. fst x \<le> from) (filter (\<lambda>x. fst x < fb) (visible q)) = filter (\<lambda>x. fst x \<le> fb - 1) (visible q)"
        using False q(1) by (auto intro!: filter_cong)
      then show ?thesis
        using Some False ALog.IH [of q "fb - 1"] q own by (auto simp: iterE_append split: prod.split option.split)
    qed
  qed
qed

end
