(* ===== verification/Disk_Write.thy ===== *)
theory Disk_Write
  imports Disk_Log_Spec
begin

text \<open>
  Appending to a disk log: a write at the expected index adds exactly that record at the end of the log,
  whether it fits the active segment, makes it rotate, or creates the first segment. In header mode every
  new segment starts with the fold of the one before, so the state at an index is the fold of all records
  up to it.
\<close>

section \<open>What a write touches\<close>

definition seg_file :: "string \<Rightarrow> bool" where
  "seg_file n \<longleftrightarrow> (\<exists>e\<in>set knownExts. HasSuffix n e)"

definition only_in :: "path \<Rightarrow> sys \<Rightarrow> sys \<Rightarrow> bool" where
  "only_in dir w w' \<longleftrightarrow> cacheLimit w' = cacheLimit w \<and>
     (\<forall>q. stat w' q \<noteq> stat w q \<longrightarrow> q \<noteq> [] \<and> butlast q = dir \<and> seg_file (last q) \<and> stat w q \<noteq> Some Dir \<and> stat w' q \<noteq> Some Dir)"

lemma only_in_refl [simp]: "only_in dir w w"
  by (simp add: only_in_def)

lemma only_in_trans: "only_in dir w1 w2 \<Longrightarrow> only_in dir w2 w3 \<Longrightarrow> only_in dir w1 w3"
  unfolding only_in_def by metis

lemma only_in_put: "stat w (dir @ [n]) \<noteq> Some Dir \<Longrightarrow> seg_file n \<Longrightarrow> only_in dir w (put (dir @ [n]) (File b) w)"
  by (auto simp: only_in_def stat_put)

lemma only_in_dir: "only_in dir w w' \<Longrightarrow> stat w q = Some Dir \<longleftrightarrow> stat w' q = Some Dir"
  unfolding only_in_def by metis

lemma only_in_other: "only_in dir w w' \<Longrightarrow> d \<noteq> dir \<Longrightarrow> stat w' (d @ [n]) = stat w (d @ [n])"
  unfolding only_in_def by (metis butlast_snoc)

lemma segName_inj: "segName l b = segName l b' \<longleftrightarrow> b = b'"
  by (simp add: segName_def dec_pad_inj)

lemma seg_file_segName: "dir_rep w l as \<Longrightarrow> seg_file (segName l b)"
  unfolding dir_rep_def seg_file_def segName_def by (intro bexI [of _ "l_ext l"]) simp_all

lemma only_in_name: "only_in dir w w' \<Longrightarrow> \<not> seg_file n \<Longrightarrow> stat w' (d @ [n]) = stat w (d @ [n])"
  unfolding only_in_def by (metis last_snoc)

section \<open>Frames\<close>

lemma seg_rep_frame:
  "seg_rep c F w s hs ps \<Longrightarrow> stat w' (s_path s) = stat w (s_path s) \<Longrightarrow> seg_rep c F w' s hs ps"
  using seg_rep_cong by blast

lemma sealed_rep_frame:
  assumes "sealed_rep c F w l ss a" "stat w' (ss_path ss) = stat w (ss_path ss)"
  shows "sealed_rep c F w' l ss a"
proof -
  obtain b hs ps where a: "a = (b, hs, ps)" by (cases a) auto
  have "seg_rep c F w' s hs ps" if "ss_seg ss = Some s" for s
  proof -
    have "seg_rep c F w s hs ps" "s_path s = ss_path ss" using that assms(1) a by (auto simp: sealed_rep_def)
    then show ?thesis using seg_rep_frame assms(2) by simp
  qed
  then show ?thesis
    using assms a by (auto simp: sealed_rep_def file_rep_def split: option.splits)
qed

lemma own_rep_frame:
  assumes "own_rep c F w l segs act" "\<And>n. stat w' (l_dir l @ [n]) = stat w (l_dir l @ [n])"
  shows "own_rep c F w' l segs act"
proof -
  have "sealed_rep c F w l ss a \<Longrightarrow> sealed_rep c F w' l ss a" for ss a
    using sealed_rep_frame [of c F w l ss a w'] assms(2) by (cases a) (auto simp: sealed_repD)
  then have "list_all2 (sealed_rep c F w' l) (sealed l) segs"
    using own_repD(3) [OF assms(1)] by (rule list_all2_mono [rotated]) blast
  moreover have "active_rep c F w' l (active l) act"
    using own_repD(4) [OF assms(1)] assms(2) seg_rep_frame [of c F w _ _ _ w']
    unfolding active_rep_iff by metis
  ultimately show ?thesis using assms(1) by (simp add: own_rep_def)
qed

fun dirs :: "dlog \<Rightarrow> path list" where
  "dirs (DLog l pa) = l_dir l # (case pa of None \<Rightarrow> [] | Some p \<Rightarrow> dirs p)"

text \<open>What happens in a directory outside the chain does not matter to a log.\<close>

lemma dlog_rep_frame:
  "dlog_rep c F w d a \<Longrightarrow> only_in dir w w' \<Longrightarrow> dir \<notin> set (dirs d) \<Longrightarrow> dlog_rep c F w' d a"
proof (induction d arbitrary: a)
  case (DLog l pa)
  obtain segs act fb pb where a: "a = ALog segs act fb pb" by (cases a) auto
  have dir: "l_dir l \<noteq> dir" using DLog.prems(3) by auto
  have rep: "own_rep c F w l segs act" using DLog.prems(1) a by simp
  have "own_rep c F w' l segs act"
    using own_rep_frame [OF rep, of w'] only_in_other [OF DLog.prems(2) dir] by blast
  with DLog a show ?case by (auto split: option.splits)
qed

section \<open>Changing the active segment\<close>

text \<open>The active segment comes after all the sealed ones.\<close>

lemma active_base_new:
  assumes "own_rep c F w l segs act" "chain (segs @ [(b, hs, ps)])" "(b', hs', ps') \<in> set segs"
  shows "b' \<noteq> b" "b' + length ps' \<le> b"
proof -
  obtain i where i: "i < length segs" "segs ! i = (b', hs', ps')" using assms(3) by (metis in_set_conv_nth)
  have "b' + length ps' \<le> b"
    using chain_lasts [OF assms(2), of i "length segs" b' hs' ps' b hs ps] i by (simp add: nth_append)
  moreover have "ps' \<noteq> []" using own_rep_sealed_nonempty [OF assms(1,3)] .
  ultimately show "b' \<noteq> b" "b' + length ps' \<le> b" by (cases ps'; simp)+
qed

lemma sealed_reps_put:
  assumes rep: "own_rep c F w l segs act" and new: "stat w' = (stat w)(l_dir l @ [segName l b] \<mapsto> File f)"
    and ch: "chain (segs @ [(b, hs, ps)])"
  shows "list_all2 (sealed_rep c F w' l) (sealed l) segs"
proof -
  have "sealed_rep c F w' l ss a" if "sealed_rep c F w l ss a" "a \<in> set segs" for ss a
  proof (rule sealed_rep_frame [OF that(1)])
    obtain b' hs' ps' where a: "a = (b', hs', ps')" by (cases a) auto
    have "ss_path ss = l_dir l @ [segName l b']" using that(1) a by (simp add: sealed_repD)
    moreover have "b' \<noteq> b" using active_base_new(1) [OF rep ch] that(2) a by blast
    ultimately show "stat w' (ss_path ss) = stat w (ss_path ss)" by (simp add: new segName_inj)
  qed
  then show ?thesis using own_repD(3) [OF rep] by (auto simp: list_all2_conv_all_nth)
qed

lemma own_rep_set_active:
  assumes rep: "own_rep c F w l segs act"
    and new: "stat w' = (stat w)(l_dir l @ [segName l b] \<mapsto> File f)"
    and seg: "seg_rep c F w' s hs ps" "s_path s = l_dir l @ [segName l b]" "baseIndex s = b" "\<not> readOnly s"
      "maxSize s = SegmentSize (l_opts l)" "hasHeader s = headerMode l" "seg_wf (headerMode l) (b, hs, ps)"
    and ch: "chain (segs @ [(b, hs, ps)])" "headers_ok (OnSegmentOpen (l_opts l)) (segs @ [(b, hs, ps)])"
  shows "own_rep c F w' (l\<lparr>active := Some s\<rparr>) segs (Some (b, hs, ps))"
  using rep sealed_reps_put [OF rep new ch(1)] seg ch by (auto simp: own_rep_def active_rep_iff)

lemma own_rep_put_new:
  assumes rep: "own_rep c F w l segs None"
    and new: "stat w' = (stat w)(l_dir l @ [segName l b] \<mapsto> File f)" "chain (segs @ [(b, hs, ps)])"
  shows "own_rep c F w' l segs None"
  using rep sealed_reps_put [OF rep new] by (auto simp: own_rep_def active_rep_iff)

lemma segName_free:
  assumes rep: "own_rep c F w l segs None" and dir: "dir_rep w l segs"
    and ch: "chain (segs @ [(b, hs, ps)])"
  shows "stat w (l_dir l @ [segName l b]) = None"
proof (rule ccontr)
  assume "stat w (l_dir l @ [segName l b]) \<noteq> None"
  moreover have "HasSuffix (segName l b) (l_ext l)" by (simp add: segName_def)
  ultimately have "segName l b \<in> segName l ` fst ` set segs" using dir by (auto simp: dir_rep_def)
  then obtain b' hs' ps' where "(b', hs', ps') \<in> set segs" "b' = b" by (force simp: segName_inj)
  then show False using active_base_new(1) [OF rep ch] by blast
qed

lemma dir_rep_set_active:
  assumes d: "dir_rep w l (all_segs segs act)" and new: "stat w' = (stat w)(l_dir l @ [segName l b] \<mapsto> File f)"
    and old: "act = None \<or> (\<exists>hs0 ps0. act = Some (b, hs0, ps0))"
  shows "dir_rep w' l (segs @ [(b, hs, ps)])"
proof -
  have "stat w' (l_dir l) = Some Dir" using d by (auto simp: new dir_rep_def dest: arg_cong [of _ _ length])
  moreover have "n \<in> segName l ` fst ` set (segs @ [(b, hs, ps)])"
    if "stat w' (l_dir l @ [n]) \<noteq> None" "\<exists>e\<in>set knownExts. HasSuffix n e" for n
  proof (cases "n = segName l b")
    case False
    then have "stat w (l_dir l @ [n]) \<noteq> None" using that(1) by (simp add: new)
    then have "n \<in> segName l ` fst ` set (all_segs segs act)" using d that(2) by (simp add: dir_rep_def)
    then show ?thesis using old False by (auto simp: all_segs_def)
  qed (simp add: image_iff)
  ultimately show ?thesis using d by (simp add: dir_rep_def)
qed

section \<open>The state at an index\<close>

text \<open>All logs of a chain fold in the same way.\<close>

fun folds :: "(bytes \<Rightarrow> bytes list \<Rightarrow> err + bytes) option \<Rightarrow> dlog \<Rightarrow> bool" where
  "folds f (DLog l pa) \<longleftrightarrow> OnSegmentOpen (l_opts l) = f \<and> (case pa of None \<Rightarrow> True | Some p \<Rightarrow> folds f p)"

definition find_seg :: "aseg list \<Rightarrow> nat \<Rightarrow> aseg option" where
  "find_seg as idx = find (\<lambda>(b, hs, ps). b \<le> idx \<and> idx < b + length ps) as"

fun a_StateAt :: "(bytes \<Rightarrow> bytes list \<Rightarrow> err + bytes) \<Rightarrow> nat \<Rightarrow> alog \<Rightarrow> err + bytes" where
  "a_StateAt f idx (ALog segs act fb pb) = (case (idx < fb, pb) of
     (True, Some q) \<Rightarrow> a_StateAt f idx q
   | _ \<Rightarrow> (case find_seg (all_segs segs act) idx of
       None \<Rightarrow> Inl ErrNotFound
     | Some (b, hs, ps) \<Rightarrow> f (concat hs) (take (Suc idx - b) ps)))"

lemma find_seg_mem:
  assumes "chain as" "(b, hs, ps) \<in> set as" "b \<le> idx" "idx < b + length ps"
  shows "find_seg as idx = Some (b, hs, ps)"
proof -
  obtain j where j: "j < length as" "as ! j = (b, hs, ps)" using assms(2) by (metis in_set_conv_nth)
  have "\<not> (b' \<le> idx \<and> idx < b' + length ps')" if "i < j" "as ! i = (b', hs', ps')" for i b' hs' ps'
    using chain_lasts [OF assms(1) that(1) j(1) that(2) j(2)] assms(3) by auto
  then have "\<forall>i<j. \<not> (case as ! i of (b, hs, ps) \<Rightarrow> b \<le> idx \<and> idx < b + length ps)"
    by (auto split: prod.splits)
  then show ?thesis
    unfolding find_seg_def find_Some_iff using j assms(3,4) by (intro exI [of _ j]) auto
qed

lemma find_seg_None:
  "map_of (entries as) idx = None \<Longrightarrow> chain as \<Longrightarrow> find_seg as idx = None"
  using map_of_entries_mem [of as] by (fastforce simp: find_seg_def find_None_iff)

text \<open>
  The header a new segment gets, \<open>None\<close> without header mode: the fold of the segment before, of the
  parent's state at the fork point, or of nothing.
\<close>

definition next_header :: "(bytes \<Rightarrow> bytes list \<Rightarrow> err + bytes) option \<Rightarrow> alog \<Rightarrow> err + bytes list" where
  "next_header fo a = (case fo of
     None \<Rightarrow> Inr []
   | Some f \<Rightarrow> (case a of ALog segs act fb pb \<Rightarrow>
       rbind (if all_segs segs act \<noteq> [] then (case last (all_segs segs act) of (b, hs, ps) \<Rightarrow> f (concat hs) ps)
              else (case pb of Some q \<Rightarrow> if fb > 1 then rbind (a_StateAt f (fb - 1) q) (\<lambda>h. f h []) else f [] []
                    | None \<Rightarrow> f [] []))
         (\<lambda>h. Inr [h])))"

text \<open>The header of the segment a record would start in when it does not fit behind others.\<close>

definition fresh_header :: "(bytes \<Rightarrow> bytes list \<Rightarrow> err + bytes) option \<Rightarrow> alog \<Rightarrow> err + bytes list" where
  "fresh_header fo a = (case a of
     ALog segs (Some (b, hs, [])) fb pb \<Rightarrow> Inr hs
   | _ \<Rightarrow> next_header fo a)"

lemma end_of_snoc: "chain (segs @ [(b, hs, ps)]) \<Longrightarrow> end_of (segs @ [(b, hs, ps)]) = b + length ps"
  by (induction segs rule: chain.induct) (auto simp: seg_entries_def)

lemma chain_snoc_empty:
  assumes "chain segs" "segs \<noteq> [] \<Longrightarrow> idx = end_of segs"
  shows "chain (segs @ [(idx, hs, [])])"
proof (cases segs rule: rev_cases)
  case (snoc segs' a)
  obtain b hs ps where a: "a = (b, hs, ps)" by (cases a) auto
  have "end_of segs = b + length ps" using assms(1) end_of_snoc snoc a by blast
  with assms snoc a show ?thesis by (simp add: chain_append)
qed simp

lemma headers_ok_snoc:
  "headers_ok fo segs \<Longrightarrow> (\<And>f segs' b' hs' ps'. fo = Some f \<Longrightarrow> segs = segs' @ [(b', hs', ps')] \<Longrightarrow> f (concat hs') ps' = Inr (concat hs)) \<Longrightarrow>
   headers_ok fo (segs @ [(b, hs, ps)])"
proof (induction fo segs rule: headers_ok.induct [case_names Step NoFold Empty Single])
  case (Step f b0 hs0 ps0 b1 hs1 ps1 r)
  then show ?case by auto
next
  case (Empty fo)
  then show ?case by (cases fo) auto
next
  case (Single fo v)
  then show ?case by (cases fo; cases v) auto
qed auto

section \<open>A log in good order\<close>

text \<open>
  What every operation of an open log keeps, beside the representation of its records: the directory holds
  nothing else that looks like a segment, no directory occurs twice in the chain, all logs of the chain fold
  headers alike, and an empty active segment without sealed ones sits where the log starts.
\<close>

fun log_ok :: "codec \<Rightarrow> (bytes \<Rightarrow> bytes \<Rightarrow> bool) \<Rightarrow> sys \<Rightarrow> dlog \<Rightarrow> alog \<Rightarrow> bool" where
  "log_ok c F w (DLog l pa) (ALog segs act fb pb) \<longleftrightarrow>
     dlog_rep c F w (DLog l pa) (ALog segs act fb pb) \<and> dir_rep w l (all_segs segs act) \<and>
     distinct (dirs (DLog l pa)) \<and> folds (OnSegmentOpen (l_opts l)) (DLog l pa) \<and>
     (entries (all_segs segs act) = [] \<and> act \<noteq> None \<longrightarrow> fst (the act) = max 1 fb)"

text \<open>The index the next record gets.\<close>

definition next_index :: "alog \<Rightarrow> nat" where
  "next_index a = (case a of ALog segs act fb pb \<Rightarrow>
     if entries (all_segs segs act) = [] then max 1 fb else end_of (all_segs segs act))"

text \<open>What an operation leaves alone: all files but those of the log's own directory, and the log's settings.\<close>

fun same_log :: "sys \<Rightarrow> dlog \<Rightarrow> sys \<Rightarrow> dlog \<Rightarrow> bool" where
  "same_log w (DLog l pa) w' (DLog l' pa') \<longleftrightarrow>
     only_in (l_dir l) w w' \<and> cfg l' = cfg l \<and> dirs (DLog l' pa') = dirs (DLog l pa)"

lemma same_log_refl [simp]: "same_log w d w d"
  by (cases d) simp

lemma same_log_trans: "same_log w1 d1 w2 d2 \<Longrightarrow> same_log w2 d2 w3 d3 \<Longrightarrow> same_log w1 d1 w3 d3"
  by (cases d1; cases d2; cases d3) (auto simp: cfg_def intro: only_in_trans)

lemma expectedIndex_rep:
  assumes rep: "dlog_rep c F w (DLog l pa) (ALog segs act fb pb)" and b: "next_index (ALog segs act fb pb) < u64_lim"
  shows "expectedIndex l = next_index (ALog segs act fb pb)"
proof -
  have own: "own_rep c F w l segs act" "forkBase l = fb" using rep by auto
  show ?thesis
  proof (cases "entries (all_segs segs act) = []")
    case True
    with own isEmptyLocked_rep [OF own(1)] show ?thesis by (simp add: expectedIndex_def next_index_def)
  next
    case False
    then show ?thesis
      using own b isEmptyLocked_rep [OF own(1)] lastIndexLocked_rep [OF own(1) False]
      by (cases "entries (all_segs segs act)") (auto simp: expectedIndex_def next_index_def u64_simps)
  qed
qed

lemma entries_append_active:
  "entries (all_segs segs (Some (b, hs, ps @ [p]))) = entries (all_segs segs (Some (b, hs, ps))) @ [(b + length ps, p)]"
  by (simp add: all_segs_def seg_entries_def enumerate_append_eq)

text \<open>Room for a record in a segment that holds what \<open>qs\<close> says, its header included.\<close>

definition fits :: "(bytes \<Rightarrow> bytes \<Rightarrow> bool) \<Rightarrow> options \<Rightarrow> bytes list \<Rightarrow> bytes \<Rightarrow> bool" where
  "fits F opts qs p \<longleftrightarrow> SegmentSize opts \<le> 0 \<or>
     (\<forall>fs f. list_all2 F fs qs \<longrightarrow> F f p \<longrightarrow> int (length (concat fs) + length f) \<le> SegmentSize opts)"

lemma active_count_rep:
  assumes "own_rep c F w l segs (Some (b, hs, ps))"
  shows "activeCount (DLog l pa) = length ps"
proof -
  obtain s where "active l = Some s" "seg_rep c F w s hs ps"
    using own_repD(4) [OF assms] by (auto simp: active_rep_iff)
  then show ?thesis using seg_repD(2) by (fastforce simp: activeCount_def)
qed

lemma headers_ok_last: "headers_ok fo (segs @ [(b, hs, ps)]) \<Longrightarrow> headers_ok fo (segs @ [(b, hs, qs)])"
proof (induction fo segs rule: headers_ok.induct [case_names Step NoFold Empty Single])
  case (Empty fo)
  then show ?case by (cases fo) auto
next
  case (Single fo v)
  then show ?case by (cases fo; cases v) auto
qed auto

context lawful_codec
begin

lemma disk_StateAt_rep:
  "dlog_rep c is_frame w d a \<Longrightarrow> folds (Some f) d \<Longrightarrow>
   \<exists>d'. disk_StateAt w idx d = (a_StateAt f idx a, d') \<and> dlog_rep c is_frame w d' a \<and> dirs d' = dirs d \<and>
     folds (Some f) d'"
proof (induction d arbitrary: a)
  case (DLog l pa)
  obtain segs act fb pb where a: "a = ALog segs act fb pb" by (cases a) auto
  have rep: "own_rep c is_frame w l segs act" and fb: "forkBase l = fb" and f: "OnSegmentOpen (l_opts l) = Some f"
    using DLog.prems a by auto
  show ?case
  proof (cases "idx < fb \<and> pa \<noteq> None")
    case True
    then obtain p q where pq: "pa = Some p" "pb = Some q" "dlog_rep c is_frame w p q" "folds (Some f) p"
      using DLog.prems a by (auto split: option.splits)
    then obtain p' where "disk_StateAt w idx p = (a_StateAt f idx q, p')" "dlog_rep c is_frame w p' q"
      "dirs p' = dirs p" "folds (Some f) p'"
      using DLog.IH [of p q] by auto
    with True pq a fb f DLog.prems show ?thesis by auto
  next
    case False
    then have sel: "\<not> (idx < fb \<and> pb \<noteq> None)" using DLog.prems a by (auto split: option.splits)
    let ?as = "all_segs segs act"
    have ch: "chain ?as" using own_repD(5) [OF rep] .
    obtain r l' where fi: "findSegmentLocked w l idx = (Inr r, l')" "own_rep c is_frame w l' segs act" "cfg l' = cfg l"
      and m: "case map_of (entries ?as) idx of
         None \<Rightarrow> r = None
       | Some p \<Rightarrow> \<exists>ref s b hs ps. r = Some (ref, s) \<and> located c is_frame w l' segs act ref s (b, hs, ps) \<and>
           (b, hs, ps) \<in> set ?as \<and> b \<le> idx \<and> idx < b + length ps \<and> p = ps ! (idx - b)"
      using find_rep [OF rep, of idx] by blast
    show ?thesis
    proof (cases "map_of (entries ?as) idx")
      case None
      with m fi find_seg_None [OF None ch] False sel a fb f DLog.prems show ?thesis
        by (auto simp: cfg_def split: option.splits bool.split)
    next
      case (Some p)
      with m obtain ref s b hs ps where q: "r = Some (ref, s)" "located c is_frame w l' segs act ref s (b, hs, ps)"
        "(b, hs, ps) \<in> set ?as" "b \<le> idx" "idx < b + length ps" by auto
      have sg: "seg_rep c is_frame w s hs ps" "baseIndex s = b" using q(2) by (auto simp: located_def)
      have "k < length ps" if "k \<in> set [0..<Suc idx - b]" for k using that q(4,5) by auto
      then obtain bl where bl: "read_list w s [0..<Suc idx - b] = (Inr (map ((!) ps) [0..<Suc idx - b]), s\<lparr>s_block := bl\<rparr>)"
        "seg_rep c is_frame w (s\<lparr>s_block := bl\<rparr>) hs ps"
        using read_list_rep [OF sg(1), of "[0..<Suc idx - b]"] by blast
      have ps: "map ((!) ps) [0..<Suc idx - b] = take (Suc idx - b) ps"
        using q(4,5) by (intro nth_equalityI) (auto simp del: upt_Suc)
      have "own_rep c is_frame w (put_seg ref (s\<lparr>s_block := bl\<rparr>) l') segs act"
        using put_seg_rep [OF fi(2) q(2) bl(2)] by simp
      moreover have "disk_StateAt w idx (DLog l pa) = (a_StateAt f idx a, DLog (put_seg ref (s\<lparr>s_block := bl\<rparr>) l') pa)"
        using False sel a fb f fi(1) q bl(1) ps sg(2) seg_repD(4) [OF sg(1)] find_seg_mem [OF ch q(3-5)]
        by (auto split: option.split bool.split simp del: upt_Suc)
      moreover have "cfg (put_seg ref (s\<lparr>s_block := bl\<rparr>) l') = cfg l" using fi(3) by simp
      ultimately show ?thesis using a DLog.prems by (auto simp: cfg_def)
    qed
  qed
qed

text \<open>The segment sealed last, as the fold of the next header sees it.\<close>

lemma sealedState_rep:
  assumes rep: "own_rep c is_frame w l segs act" and last: "segs = segs' @ [(b, hs, ps)]"
  shows "\<exists>l'. sealedState w l = (Inr (concat hs, ps), l') \<and> own_rep c is_frame w l' segs act \<and> cfg l' = cfg l \<and>
    active l' = active l"
proof -
  let ?n = "length (sealed l) - 1"
  have n: "?n < length segs" "segs ! ?n = (b, hs, ps)" using own_repD(7) [OF rep] last by auto
  obtain s l1 where o: "openSealed w l ?n = (Inr (Some s), l1)" "own_rep c is_frame w l1 segs act" "cfg l1 = cfg l"
    "active l1 = active l" "located c is_frame w l1 segs act (SealedAt ?n) s (b, hs, ps)"
    using openSealed_rep [OF rep n(1)] n(2) by auto
  have sg: "seg_rep c is_frame w s hs ps" using o(5) by (simp add: located_def)
  obtain bl where bl: "segPayloads w s = (Inr ps, s\<lparr>s_block := bl\<rparr>)" "seg_rep c is_frame w (s\<lparr>s_block := bl\<rparr>) hs ps"
    using segPayloads_rep [OF sg] by blast
  have "own_rep c is_frame w (put_seg (SealedAt ?n) (s\<lparr>s_block := bl\<rparr>) l1) segs act"
    using put_seg_rep [OF o(2,5) bl(2)] by simp
  moreover have "active (put_seg (SealedAt ?n) (s\<lparr>s_block := bl\<rparr>) l1) = active l" using o(4) by (simp add: put_seg_def)
  moreover have "sealedState w l = (Inr (concat hs, ps), put_seg (SealedAt ?n) (s\<lparr>s_block := bl\<rparr>) l1)"
    using o(1) bl(1) seg_repD(4) [OF sg] by (simp add: sealedState_def Let_def)
  ultimately show ?thesis using o(3) by simp
qed

lemma prevState_rep:
  assumes "dlog_rep c is_frame w (DLog l pa) (ALog segs None fb pb)" "folds (Some f) (DLog l pa)"
    "next_header (Some f) (ALog segs None fb pb) = Inr [h]"
  shows "\<exists>l' pa' prev ps. prevState w (DLog l pa) = (Inr (prev, ps), DLog l' pa') \<and> f prev ps = Inr h \<and>
    dlog_rep c is_frame w (DLog l' pa') (ALog segs None fb pb) \<and> cfg l' = cfg l \<and>
    dirs (DLog l' pa') = dirs (DLog l pa) \<and> folds (Some f) (DLog l' pa')"
proof -
  have rep: "own_rep c is_frame w l segs None" and fb: "forkBase l = fb" using assms(1) by auto
  have len: "sealed l = [] \<longleftrightarrow> segs = []" using own_repD(7) [OF rep] by auto
  show ?thesis
  proof (cases segs rule: rev_cases)
    case (snoc segs' a)
    then obtain b hs ps where a: "segs = segs' @ [(b, hs, ps)]" by (cases a) auto
    obtain l' where "sealedState w l = (Inr (concat hs, ps), l')" "own_rep c is_frame w l' segs None" "cfg l' = cfg l"
      using sealedState_rep [OF rep a] by blast
    with assms a len show ?thesis by (auto simp: prevState_def next_header_def cfg_def rbind_eq_Inr)
  next
    case Nil
    show ?thesis
    proof (cases "pa \<noteq> None \<and> fb > 1")
      case True
      then obtain p q where pq: "pa = Some p" "pb = Some q" "dlog_rep c is_frame w p q" "folds (Some f) p"
        using assms(1,2) by (auto split: option.splits)
      obtain p' where "disk_StateAt w (fb - 1) p = (a_StateAt f (fb - 1) q, p')" "dlog_rep c is_frame w p' q"
        "dirs p' = dirs p" "folds (Some f) p'"
        using disk_StateAt_rep [OF pq(3,4)] by blast
      with True Nil len pq assms fb show ?thesis
        by (auto simp: prevState_def next_header_def rbind_eq_Inr)
    next
      case False
      then have "\<not> (pb \<noteq> None \<and> fb > 1)" using assms(1) by (auto split: option.splits)
      with False Nil len assms fb show ?thesis
        by (auto simp: prevState_def next_header_def rbind_eq_Inr split: option.splits if_splits)
    qed
  qed
qed

text \<open>Creating the next active segment.\<close>

lemma openActive_rep:
  assumes d: "dlog_rep c is_frame w (DLog l pa) (ALog segs None fb pb)" and dir: "dir_rep w l segs"
    and f: "folds (OnSegmentOpen (l_opts l)) (DLog l pa)" and dist: "distinct (dirs (DLog l pa))"
    and idx: "segs \<noteq> [] \<Longrightarrow> idx = end_of segs" "1 \<le> idx" "idx < u64_lim"
    and h: "next_header (OnSegmentOpen (l_opts l)) (ALog segs None fb pb) = Inr hs" "list_all stable hs"
  shows "\<exists>w' l' pa'. openActiveLocked w (DLog l pa) idx = (Inr (), w', DLog l' pa') \<and>
    dlog_rep c is_frame w' (DLog l' pa') (ALog segs (Some (idx, hs, [])) fb pb) \<and> cfg l' = cfg l \<and>
    only_in (l_dir l) w w' \<and> dir_rep w' l' (segs @ [(idx, hs, [])]) \<and> dirs (DLog l' pa') = dirs (DLog l pa) \<and>
    folds (OnSegmentOpen (l_opts l)) (DLog l' pa')"
proof -
  let ?p = "l_dir l @ [segName l idx]" and ?s = "seg_new (l_dir l @ [segName l idx]) c idx (SegmentSize (l_opts l)) False False"
  have rep: "own_rep c is_frame w l segs None" using d by simp
  have ch: "chain (segs @ [(idx, hs, [])])"
    using own_repD(5) [OF rep] idx(1) by (intro chain_snoc_empty) auto
  have free: "stat w ?p = None" using segName_free [OF rep dir ch] .
  have cr: "seg_Create w ?p c idx (SegmentSize (l_opts l)) = (Inr ?s, put ?p (File []) w)"
    "seg_rep c is_frame (put ?p (File []) w) ?s [] []"
    using seg_Create_rep [of w ?p idx "SegmentSize (l_opts l)"] free dir idx(3) by (simp_all add: dir_rep_def)
  have put: "stat (put ?p (File b) w) = (stat w)(?p \<mapsto> File b)" for b by (auto simp: fun_eq_iff stat_put)
  have only: "only_in (l_dir l) w (put ?p (File b) w)" for b using free seg_file_segName [OF dir] by (intro only_in_put) simp_all
  have dir': "dir_rep (put ?p (File b) w) l (segs @ [(idx, hs, [])])" for b
    using dir_rep_set_active [of w l segs None, OF _ put] dir by simp
  have codec: "l_codec l = c" using own_repD(1) [OF rep] .
  show ?thesis
  proof (cases "OnSegmentOpen (l_opts l)")
    case None
    then have hs: "hs = []" "\<not> headerMode l" using h by (auto simp: next_header_def headerMode_def)
    have "own_rep c is_frame (put ?p (File []) w) (l\<lparr>active := Some ?s\<rparr>) segs (Some (idx, hs, []))"
      using cr(2) hs idx(2,3) ch None by (intro own_rep_set_active [OF rep put]) (auto simp: seg_new_def seg_wf_def)
    moreover have "openActiveLocked w (DLog l pa) idx = (Inr (), put ?p (File []) w, DLog (l\<lparr>active := Some ?s\<rparr>) pa)"
      using cr(1) None codec by (simp add: openActiveLocked_def)
    moreover have "dlog_rep c is_frame (put ?p (File []) w) p q" if "pa = Some p" "pb = Some q" for p q
      using dlog_rep_frame [OF _ only, of c is_frame p q "[]"] that d dist by auto
    ultimately show ?thesis
      using d only dir' f hs(1) by (auto split: option.splits)
  next
    case (Some g)
    then have hm: "headerMode l" by (simp add: headerMode_def)
    obtain hd where hd: "hs = [hd]" "stable hd" using h Some by (auto simp: next_header_def rbind_eq_Inr)
    let ?w1 = "put ?p (File []) w"
    have d1: "dlog_rep c is_frame ?w1 (DLog l pa) (ALog segs None fb pb)"
      using own_rep_put_new [OF rep put ch] dlog_rep_frame [OF _ only, of c is_frame] d dist
      by (auto split: option.splits)
    obtain l' pa' prev ps where pv: "prevState ?w1 (DLog l pa) = (Inr (prev, ps), DLog l' pa')" "g prev ps = Inr hd"
      "dlog_rep c is_frame ?w1 (DLog l' pa') (ALog segs None fb pb)" "cfg l' = cfg l"
      "dirs (DLog l' pa') = dirs (DLog l pa)" "folds (Some g) (DLog l' pa')"
      using prevState_rep [OF d1, of g hd] f h(1) Some hd(1) by auto
    obtain hf s' where wh: "c_Frame c 0 hd = Inr hf" "seg_WriteHeader ?w1 ?s hd = (Inr s', put ?p (File hf) ?w1)"
      "seg_rep c is_frame (put ?p (File hf) ?w1) s' [hd] []" "s' = ?s\<lparr>size := length hf, hasHeader := True, s_header := hd\<rparr>"
      using seg_WriteHeader_rep [OF cr(2) _ hd(2)] by (auto simp: seg_new_def)
    let ?w2 = "put ?p (File hf) ?w1"
    have put2: "stat ?w2 = (stat ?w1)(?p \<mapsto> File hf)" by (auto simp: fun_eq_iff stat_put)
    have same: "l_dir l' = l_dir l" "segName l' = segName l" "l_opts l' = l_opts l" "headerMode l'"
      using pv(4) hm by (auto simp: cfg_def segName_def headerMode_def fun_eq_iff)
    have rep1: "own_rep c is_frame ?w1 l' segs None" using pv(3) by simp
    have hok: "headers_ok (OnSegmentOpen (l_opts l')) (segs @ [(idx, hs, [])])"
      using own_repD(6) [OF rep1] h(1) Some same(3) hd(1)
      by (intro headers_ok_snoc) (auto simp: next_header_def rbind_eq_Inr)
    have "own_rep c is_frame ?w2 (l'\<lparr>active := Some s'\<rparr>) segs (Some (idx, hs, []))"
      using wh(3,4) hd idx(2,3) ch hok same
      by (intro own_rep_set_active [OF rep1, where f = hf]) (auto simp: seg_new_def seg_wf_def put2)
    moreover have "openActiveLocked w (DLog l pa) idx = (Inr (), ?w2, DLog (l'\<lparr>active := Some s'\<rparr>) pa')"
      using cr(1) Some codec pv(1,2) wh(2) by (simp add: openActiveLocked_def)
    moreover have only2: "only_in (l_dir l) ?w1 ?w2" using seg_file_segName [OF dir] by (intro only_in_put) simp_all
    moreover have "dlog_rep c is_frame ?w2 p q" if "pa' = Some p" "pb = Some q" for p q
      using dlog_rep_frame [OF _ only2, of c is_frame p q] that pv(3,5) dist by (auto split: option.splits)
    moreover have "dir_rep ?w2 l (segs @ [(idx, hs, [])])"
      using dir' by (intro dir_rep_set_active [where act = "Some (idx, hs, [])", OF _ put2]) (auto simp: all_segs_def)
    then have "dir_rep ?w2 (l'\<lparr>active := Some s'\<rparr>) (segs @ [(idx, hs, [])])"
      using dir_rep_cong [OF pv(4)] by simp
    moreover have "dlog_rep c is_frame ?w2 (DLog (l'\<lparr>active := Some s'\<rparr>) pa') (ALog segs (Some (idx, hs, [])) fb pb)"
      using calculation(1,4) pv(3) by (auto split: option.splits)
    moreover have "only_in (l_dir l) w ?w2" using only_in_trans [OF only only2] .
    moreover have "cfg (l'\<lparr>active := Some s'\<rparr>) = cfg l" "l_dir l' = l_dir l" using pv(4) same(1) by simp_all
    moreover have "folds (OnSegmentOpen (l_opts l)) (DLog (l'\<lparr>active := Some s'\<rparr>) pa')"
      "dirs (DLog (l'\<lparr>active := Some s'\<rparr>) pa') = dirs (DLog l pa)"
      using pv(5,6) Some by simp_all
    ultimately show ?thesis
      by (intro exI [of _ ?w2] exI [of _ "l'\<lparr>active := Some s'\<rparr>"] exI [of _ pa'] conjI) simp_all
  qed
qed

text \<open>The two outcomes of an append to the active segment.\<close>

lemma appendActive_rep:
  assumes ok: "log_ok c is_frame w (DLog l pa) (ALog segs (Some (b, hs, ps)) fb pb)"
    and p: "stable p" and lim: "b + length ps + 1 < u64_lim" and d: "d = DLog l pa"
  shows "appendActive w d p = (Inl ErrFull, w, d) \<and> \<not> fits is_frame (l_opts l) (hs @ ps) p \<or>
    (\<exists>w' d'. appendActive w d p = (Inr (), w', d') \<and>
      log_ok c is_frame w' d' (ALog segs (Some (b, hs, ps @ [p])) fb pb) \<and> same_log w d w' d')"
proof -
  have rep: "own_rep c is_frame w l segs (Some (b, hs, ps))" using ok by simp
  obtain s where s: "active l = Some s" and a: "seg_wf (headerMode l) (b, hs, ps)" "seg_rep c is_frame w s hs ps"
    "s_path s = l_dir l @ [segName l b]"
    "baseIndex s = b" "\<not> readOnly s" "maxSize s = SegmentSize (l_opts l)" "hasHeader s = headerMode l"
    using own_repD(4) [OF rep] by (auto simp: active_rep_iff)
  have idx: "u64_add (baseIndex s) (count s) = b + length ps" using a(4) seg_repD(2) [OF a(2)] lim by (simp add: u64_simps)
  have codec: "s_codec s = c" using seg_repD(1) [OF a(2)] .
  obtain f where f: "c_Frame c (b + length ps) p = Inr f" "is_frame f p" using frame_stable [OF p] by blast
  show ?thesis
  proof (cases "SegmentSize (l_opts l) > 0 \<and> int (size s) + int (length f) > SegmentSize (l_opts l)")
    case True
    then have "seg_Append w s p = (Inl ErrFull, w)"
      using a idx codec f by (simp add: seg_Append_def)
    moreover obtain fs where "list_all2 is_frame fs (hs @ ps)" "size s = length (concat fs)"
      using a(2,5) by (auto simp: seg_rep_def)
    then have "\<not> fits is_frame (l_opts l) (hs @ ps) p" using True f(2) by (force simp: fits_def)
    ultimately show ?thesis using True s d by (simp add: appendActive_def)
  next
    case False
    have hh: "hasHeader s \<longrightarrow> hs \<noteq> []" using a(1,7) by (auto simp: seg_wf_def)
    obtain f0 s' where s': "stat w (s_path s) = Some (File f0)"
      "seg_Append w s p = (Inr (size s, s'), put (s_path s) (File (f0 @ f)) w)"
      "seg_rep c is_frame (put (s_path s) (File (f0 @ f)) w) s' hs (ps @ [p])"
      "\<exists>bl. s' = s\<lparr>size := size s + length f, offsets := offsets s @ [size s], count := count s + 1, s_block := bl\<rparr>"
      using seg_Append_rep [OF a(2,5) p hh, of f] idx f lim False a(4,6) by auto
    let ?w = "put (l_dir l @ [segName l b]) (File (f0 @ f)) w"
    have put: "stat ?w = (stat w)(l_dir l @ [segName l b] \<mapsto> File (f0 @ f))" by (auto simp: fun_eq_iff stat_put)
    have ch: "chain (segs @ [(b, hs, ps @ [p])])"
      using own_repD(5) [OF rep] by (simp add: all_segs_def chain_append)
    have hok: "headers_ok (OnSegmentOpen (l_opts l)) (segs @ [(b, hs, ps @ [p])])"
      using own_repD(6) [OF rep] headers_ok_last by (simp add: all_segs_def)
    have "own_rep c is_frame ?w (l\<lparr>active := Some s'\<rparr>) segs (Some (b, hs, ps @ [p]))"
      using s'(3,4) a lim ch hok by (intro own_rep_set_active [OF rep put]) (auto simp: seg_wf_def)
    moreover have only: "only_in (l_dir l) w ?w" using s'(1) a(3) seg_file_segName ok by (intro only_in_put) (simp_all, blast)
    moreover have "dlog_rep c is_frame ?w pp q" if "pa = Some pp" "pb = Some q" for pp q
      using dlog_rep_frame [OF _ only, of c is_frame pp q] that ok by auto
    moreover have "dir_rep ?w l (segs @ [(b, hs, ps @ [p])])"
      using ok by (intro dir_rep_set_active [where act = "Some (b, hs, ps)", OF _ put]) auto
    ultimately show ?thesis
      using s s'(2) ok a(3) d by (auto simp: appendActive_def all_segs_def split: option.splits)
  qed
qed

text \<open>Sealing the active segment, and opening the next one behind it.\<close>

lemma seal_rep:
  assumes rep: "own_rep c is_frame w l segs (Some (b, hs, ps))" and ne: "ps \<noteq> []" and s: "active l = Some s"
  shows "own_rep c is_frame w (l\<lparr>sealed := sealed l @ [wrapOpen s], active := None\<rparr>) (segs @ [(b, hs, ps)]) None"
proof -
  have a: "seg_wf (headerMode l) (b, hs, ps)" "seg_rep c is_frame w s hs ps" "s_path s = l_dir l @ [segName l b]"
    "baseIndex s = b" "\<not> readOnly s"
    using own_repD(4) [OF rep] s by (auto simp: active_rep_iff)
  have "file_rep is_frame w (s_path s) (hs @ ps)" using a(2,5) by (auto simp: seg_rep_def file_rep_def)
  then have "sealed_rep c is_frame w l (wrapOpen s) (b, hs, ps)"
    using a ne seg_LastIndex_rep [OF a(2) ne] seg_repD(2) [OF a(2)] by (auto simp: sealed_rep_def wrapOpen_def)
  with rep show ?thesis
    by (auto simp: own_rep_def all_segs_def active_rep_iff intro!: list_all2_appendI)
qed

text \<open>A record put into a segment that was just opened.\<close>

lemma open_append_rep:
  assumes ok: "log_ok c is_frame w (DLog l pa) (ALog segs None fb pb)"
    and idx: "idx = next_index (ALog segs None fb pb)" "idx + 1 < u64_lim"
    and h: "next_header (OnSegmentOpen (l_opts l)) (ALog segs None fb pb) = Inr hs" "list_all stable hs"
    and p: "stable p"
  shows "\<exists>w1 d1. openActiveLocked w (DLog l pa) idx = (Inr (), w1, d1) \<and> activeCount d1 = 0 \<and>
    log_ok c is_frame w1 d1 (ALog segs (Some (idx, hs, [])) fb pb) \<and> same_log w (DLog l pa) w1 d1 \<and>
    (appendActive w1 d1 p = (Inl ErrFull, w1, d1) \<and> \<not> fits is_frame (l_opts l) hs p \<or>
     (\<exists>w' d'. appendActive w1 d1 p = (Inr (), w', d') \<and>
       log_ok c is_frame w' d' (ALog segs (Some (idx, hs, [p])) fb pb) \<and> same_log w (DLog l pa) w' d'))"
proof -
  have rep: "own_rep c is_frame w l segs None" and d: "dlog_rep c is_frame w (DLog l pa) (ALog segs None fb pb)"
    and dir: "dir_rep w l segs" and f: "folds (OnSegmentOpen (l_opts l)) (DLog l pa)" "distinct (dirs (DLog l pa))"
    using ok by (simp_all add: all_segs_def)
  have i1: "segs \<noteq> [] \<Longrightarrow> idx = end_of segs"
    using idx(1) entries_sealed_nonempty [OF rep] by (simp add: next_index_def all_segs_def)
  have i2: "1 \<le> idx"
  proof (cases segs)
    case Nil
    then show ?thesis using idx(1) by (simp add: next_index_def all_segs_def)
  next
    case (Cons a r)
    then have "1 \<le> fst a" using own_rep_wf [OF rep, of a] by (cases a) (simp add: all_segs_def seg_wf_def)
    then show ?thesis using i1 Cons by simp
  qed
  have i3: "idx < u64_lim" using idx(2) by simp
  obtain w1 l1 pa1 where o: "openActiveLocked w (DLog l pa) idx = (Inr (), w1, DLog l1 pa1)"
    "dlog_rep c is_frame w1 (DLog l1 pa1) (ALog segs (Some (idx, hs, [])) fb pb)" "cfg l1 = cfg l"
    "only_in (l_dir l) w w1" "dir_rep w1 l1 (segs @ [(idx, hs, [])])" "dirs (DLog l1 pa1) = dirs (DLog l pa)"
    "folds (OnSegmentOpen (l_opts l)) (DLog l1 pa1)"
    using openActive_rep [OF d dir f i1 i2 i3 h] by blast
  let ?d1 = "DLog l1 pa1"
  have st: "entries (all_segs segs (Some (idx, hs, []))) = [] \<Longrightarrow> idx = max 1 fb"
    using idx(1) by (simp add: next_index_def all_segs_def)
  have ok1: "log_ok c is_frame w1 ?d1 (ALog segs (Some (idx, hs, [])) fb pb)"
    using o f st by (simp add: all_segs_def cfg_def)
  have "activeCount ?d1 = 0"
    using active_count_rep [of c is_frame w1 l1 segs idx hs "[]" pa1] o(2) by simp
  moreover have same: "same_log w (DLog l pa) w1 ?d1" using o(3,4,6) by simp
  moreover have "l_opts l1 = l_opts l" using o(3) by (simp add: cfg_def)
  ultimately show ?thesis
    using appendActive_rep [OF ok1 p _ refl] idx(2) o(1) ok1 same_log_trans [OF same]
    by (simp del: log_ok.simps same_log.simps) blast
qed

lemma write_rotated_rep:
  assumes ok: "log_ok c is_frame w (DLog l pa) (ALog segs (Some (b, hs0, ps)) fb pb)"
    and idx: "idx = b + length ps" "idx + 1 < u64_lim"
    and h: "next_header (OnSegmentOpen (l_opts l)) (ALog segs (Some (b, hs0, ps)) fb pb) = Inr hs" "list_all stable hs"
    and p: "stable p" and full: "appendActive w (DLog l pa) p = (Inl ErrFull, w, DLog l pa)" and ne: "ps \<noteq> []"
  shows "\<exists>r w' d' segs' act'. writeActive w (DLog l pa) idx p = (r, w', d') \<and>
    log_ok c is_frame w' d' (ALog segs' act' fb pb) \<and> same_log w (DLog l pa) w' d' \<and>
    (r = Inr () \<and> entries (all_segs segs' act') = entries (all_segs segs (Some (b, hs0, ps))) @ [(idx, p)] \<or>
     r = Inl ErrPayloadTooLarge \<and> \<not> fits is_frame (l_opts l) hs p \<and>
       entries (all_segs segs' act') = entries (all_segs segs (Some (b, hs0, ps))))"
proof -
  have rep: "own_rep c is_frame w l segs (Some (b, hs0, ps))" using ok by simp
  have cnt: "activeCount (DLog l pa) \<noteq> 0" using active_count_rep [OF rep] ne by simp
  obtain s where s: "active l = Some s" using own_repD(4) [OF rep] by (auto simp: active_rep_iff)
  let ?l = "l\<lparr>sealed := sealed l @ [wrapOpen s], active := None\<rparr>" and ?segs = "segs @ [(b, hs0, ps)]"
  have okS: "log_ok c is_frame w (DLog ?l pa) (ALog ?segs None fb pb)"
    using ok seal_rep [OF rep ne s] by (simp add: all_segs_def)
  have ch: "chain ?segs" using own_repD(5) [OF rep] by (simp add: all_segs_def)
  have ni: "idx = next_index (ALog ?segs None fb pb)"
    using end_of_snoc [OF ch] idx(1) ne by (simp add: next_index_def all_segs_def)
  have nh: "next_header (OnSegmentOpen (l_opts ?l)) (ALog ?segs None fb pb) = Inr hs"
    using h(1) by (cases "OnSegmentOpen (l_opts l)") (simp_all add: next_header_def all_segs_def)
  obtain w1 d1 where o: "openActiveLocked w (DLog ?l pa) idx = (Inr (), w1, d1)"
    "log_ok c is_frame w1 d1 (ALog ?segs (Some (idx, hs, [])) fb pb)" "same_log w (DLog ?l pa) w1 d1"
    and app: "appendActive w1 d1 p = (Inl ErrFull, w1, d1) \<and> \<not> fits is_frame (l_opts ?l) hs p \<or>
     (\<exists>w' d'. appendActive w1 d1 p = (Inr (), w', d') \<and>
       log_ok c is_frame w' d' (ALog ?segs (Some (idx, hs, [p])) fb pb) \<and> same_log w (DLog ?l pa) w' d')"
    using open_append_rep [OF okS ni idx(2) nh h(2) p] by blast
  have rot: "rotateLocked w (DLog l pa) idx = (Inr (), w1, d1)" using s(1) o(1) by (simp add: rotateLocked_def)
  have same: "same_log w (DLog l pa) w' d'" if "same_log w (DLog ?l pa) w' d'" for w' d'
    using that by (cases d') simp
  have ent: "entries (all_segs ?segs (Some (idx, hs, qs))) = entries (all_segs segs (Some (b, hs0, ps))) @ enumerate idx qs" for qs
    by (simp add: all_segs_def seg_entries_def)
  from app show ?thesis
  proof (elim disjE conjE exE)
    assume "appendActive w1 d1 p = (Inl ErrFull, w1, d1)" and nf: "\<not> fits is_frame (l_opts ?l) hs p"
    then have "writeActive w (DLog l pa) idx p = (Inl ErrPayloadTooLarge, w1, d1)"
      using full cnt rot by (simp add: writeActive_def)
    moreover have "\<not> fits is_frame (l_opts l) hs p" using nf by simp
    ultimately show ?thesis using o(2) same [OF o(3)] ent [of "[]"] by (metis append_Nil2 enumerate_simps(1))
  next
    fix w' d' assume a: "appendActive w1 d1 p = (Inr (), w', d')"
      "log_ok c is_frame w' d' (ALog ?segs (Some (idx, hs, [p])) fb pb)" "same_log w (DLog ?l pa) w' d'"
    have "writeActive w (DLog l pa) idx p = (Inr (), w', d')" using full cnt rot a(1) by (simp add: writeActive_def)
    then show ?thesis using a(2) same [OF a(3)] ent [of "[p]"] by (metis enumerate_simps)
  qed
qed

text \<open>
  A write to a log with an active segment: appended, or appended to the next segment after rotating, or
  refused because it would not even fit an empty segment.
\<close>

lemma writeActive_rep:
  assumes ok: "log_ok c is_frame w (DLog l pa) (ALog segs (Some (b, hs0, ps)) fb pb)"
    and idx: "idx = b + length ps" "idx + 1 < u64_lim"
    and h: "ps \<noteq> [] \<Longrightarrow> next_header (OnSegmentOpen (l_opts l)) (ALog segs (Some (b, hs0, ps)) fb pb) = Inr hs"
      "list_all stable hs" "ps = [] \<Longrightarrow> hs = hs0" and p: "stable p"
  shows "\<exists>r w' d' segs' act'. writeActive w (DLog l pa) idx p = (r, w', d') \<and>
    log_ok c is_frame w' d' (ALog segs' act' fb pb) \<and> same_log w (DLog l pa) w' d' \<and>
    (r = Inr () \<and> entries (all_segs segs' act') = entries (all_segs segs (Some (b, hs0, ps))) @ [(idx, p)] \<or>
     r = Inl ErrPayloadTooLarge \<and> \<not> fits is_frame (l_opts l) hs p \<and>
       entries (all_segs segs' act') = entries (all_segs segs (Some (b, hs0, ps))))"
proof -
  have rep: "own_rep c is_frame w l segs (Some (b, hs0, ps))" using ok by simp
  have cnt: "activeCount (DLog l pa) = length ps" using active_count_rep [OF rep] .
  consider (full) "appendActive w (DLog l pa) p = (Inl ErrFull, w, DLog l pa)" "\<not> fits is_frame (l_opts l) (hs0 @ ps) p"
    | (app) w' d' where "appendActive w (DLog l pa) p = (Inr (), w', d')"
        "log_ok c is_frame w' d' (ALog segs (Some (b, hs0, ps @ [p])) fb pb)" "same_log w (DLog l pa) w' d'"
    using appendActive_rep [OF ok p _ refl] idx by (auto simp del: log_ok.simps same_log.simps)
  then show ?thesis
  proof cases
    case app
    then have "writeActive w (DLog l pa) idx p = (Inr (), w', d')" by (simp add: writeActive_def)
    with app show ?thesis using entries_append_active idx(1) by blast
  next
    case full
    show ?thesis
    proof (cases "ps = []")
      case True
      then have "writeActive w (DLog l pa) idx p = (Inl ErrPayloadTooLarge, w, DLog l pa)" "\<not> fits is_frame (l_opts l) hs p"
        using full cnt h(3) by (simp_all add: writeActive_def)
      then show ?thesis using assms(1) same_log_refl by blast
    next
      case False
      then show ?thesis using write_rotated_rep [OF ok idx(1,2) h(1,2) p full(1)] by blast
    qed
  qed
qed

text \<open>The index of the next record, seen from the active segment.\<close>

lemma next_index_active:
  assumes "log_ok c F w d (ALog segs (Some (b, hs, ps)) fb pb)"
  shows "next_index (ALog segs (Some (b, hs, ps)) fb pb) = b + length ps"
proof -
  obtain l pa where d: "d = DLog l pa" by (cases d)
  have "own_rep c F w l segs (Some (b, hs, ps))" using assms d by simp
  from own_repD(5) [OF this] have "chain (segs @ [(b, hs, ps)])" by (simp add: all_segs_def)
  from end_of_snoc [OF this] show ?thesis
    using assms d by (auto simp: next_index_def all_segs_def)
qed

lemma disk_Write_rep:
  assumes ok: "log_ok c is_frame w (DLog l pa) (ALog segs act fb pb)"
    and rw: "\<not> l_readOnly l" "hasSubdirs w (l_dir l) = Inr False"
    and idx: "idx = next_index (ALog segs act fb pb)" "idx + 1 < u64_lim"
    and h: "fresh_header (OnSegmentOpen (l_opts l)) (ALog segs act fb pb) = Inr hs" "list_all stable hs" and p: "stable p"
  shows "\<exists>r w' d' segs' act'. disk_Write w (DLog l pa) idx p = (r, w', d') \<and>
    log_ok c is_frame w' d' (ALog segs' act' fb pb) \<and> same_log w (DLog l pa) w' d' \<and>
    (r = Inr () \<and> entries (all_segs segs' act') = entries (all_segs segs act) @ [(idx, p)] \<or>
     r = Inl ErrPayloadTooLarge \<and> \<not> fits is_frame (l_opts l) hs p \<and> entries (all_segs segs' act') = entries (all_segs segs act))"
proof -
  have rep: "dlog_rep c is_frame w (DLog l pa) (ALog segs act fb pb)" "own_rep c is_frame w l segs act" using ok by simp_all
  have ex: "expectedIndex l = idx" using expectedIndex_rep [OF rep(1)] idx by simp
  show ?thesis
  proof (cases act)
    case None
    then have an: "active l = None" using own_repD(4) [OF rep(2)] by (simp add: active_rep_iff)
    have h': "next_header (OnSegmentOpen (l_opts l)) (ALog segs None fb pb) = Inr hs" using h(1) None by (simp add: fresh_header_def)
    have ok': "log_ok c is_frame w (DLog l pa) (ALog segs None fb pb)" "idx = next_index (ALog segs None fb pb)"
      using ok idx(1) None by (simp_all del: log_ok.simps)
    obtain w1 d1 where o: "openActiveLocked w (DLog l pa) idx = (Inr (), w1, d1)" "activeCount d1 = 0"
      "log_ok c is_frame w1 d1 (ALog segs (Some (idx, hs, [])) fb pb)" "same_log w (DLog l pa) w1 d1"
      and app: "appendActive w1 d1 p = (Inl ErrFull, w1, d1) \<and> \<not> fits is_frame (l_opts l) hs p \<or>
       (\<exists>w' d'. appendActive w1 d1 p = (Inr (), w', d') \<and>
       log_ok c is_frame w' d' (ALog segs (Some (idx, hs, [p])) fb pb) \<and> same_log w (DLog l pa) w' d')"
      using open_append_rep [OF ok' idx(2) h' h(2) p] by blast
    have wr: "disk_Write w (DLog l pa) idx p = writeActive w1 d1 idx p" using rw ex an o(1) by (simp add: disk_Write_def)
    have ent: "entries (all_segs segs (Some (idx, hs, qs))) = entries (all_segs segs act) @ enumerate idx qs" for qs
      using None by (simp add: all_segs_def seg_entries_def)
    from app show ?thesis
    proof (elim disjE conjE exE)
      assume "appendActive w1 d1 p = (Inl ErrFull, w1, d1)" and nf: "\<not> fits is_frame (l_opts l) hs p"
      then have "disk_Write w (DLog l pa) idx p = (Inl ErrPayloadTooLarge, w1, d1)" using wr o(2) by (simp add: writeActive_def)
      then show ?thesis using o(3,4) nf ent [of "[]"] by (metis append_Nil2 enumerate_simps(1))
    next
      fix w' d' assume a: "appendActive w1 d1 p = (Inr (), w', d')"
        "log_ok c is_frame w' d' (ALog segs (Some (idx, hs, [p])) fb pb)" "same_log w (DLog l pa) w' d'"
      then have "disk_Write w (DLog l pa) idx p = (Inr (), w', d')" using wr by (simp add: writeActive_def)
      then show ?thesis using a(2,3) ent [of "[p]"] by (metis enumerate_simps)
    qed
  next
    case (Some a)
    obtain b hs0 ps where a: "a = (b, hs0, ps)" by (cases a)
    have "active l \<noteq> None" using own_repD(4) [OF rep(2)] Some by (auto simp: active_rep_iff)
    then have wr: "disk_Write w (DLog l pa) idx p = writeActive w (DLog l pa) idx p" using rw ex by (auto simp: disk_Write_def)
    have ok': "log_ok c is_frame w (DLog l pa) (ALog segs (Some (b, hs0, ps)) fb pb)" using ok Some a by (simp del: log_ok.simps)
    have "idx = b + length ps" using next_index_active [OF ok'] idx(1) Some a by simp
    moreover have "ps \<noteq> [] \<Longrightarrow> next_header (OnSegmentOpen (l_opts l)) (ALog segs (Some (b, hs0, ps)) fb pb) = Inr hs"
      "ps = [] \<Longrightarrow> hs = hs0"
      using h(1) Some a by (auto simp: fresh_header_def split: list.splits)
    ultimately show ?thesis
      using writeActive_rep [OF ok' _ idx(2) _ h(2) _ p] wr Some a by (simp del: log_ok.simps same_log.simps)
  qed
qed

end

end
