(* ===== verification/Disk_Reopen.thy ===== *)
theory Disk_Reopen
  imports Disk_Write
begin

text \<open>
  Opening a directory that a log has written, also after a crash that left only the first bytes of its
  newest segment: the segments are found by their names, the sealed ones are left alone, the newest one is
  cut to the records that are whole, and a header lost with a torn first write is written again.
\<close>

section \<open>The segments of a directory\<close>

lemma seg_bases_ok:
  assumes "\<forall>(n, isDir)\<in>set es. (\<exists>e\<in>set knownExts. HasSuffix n e) \<longrightarrow> \<not> isDir \<and> (\<exists>b<u64_lim. n = dec_pad segNameWidth b @ ext)"
    and "ext \<in> set knownExts"
  shows "\<exists>bs. seg_bases ext es = Inr bs \<and>
    map (\<lambda>b. dec_pad segNameWidth b @ ext) bs = filter (\<lambda>n. HasSuffix n ext) (map fst es)"
  using assms(1)
proof (induction es)
  case (Cons e es)
  obtain n isDir where e: "e = (n, isDir)" by (cases e)
  obtain bs where bs: "seg_bases ext es = Inr bs"
    "map (\<lambda>b. dec_pad segNameWidth b @ ext) bs = filter (\<lambda>n. HasSuffix n ext) (map fst es)"
    using Cons by auto
  have h: "(\<exists>e\<in>set knownExts. HasSuffix n e) \<Longrightarrow> \<not> isDir \<and> (\<exists>b<u64_lim. n = dec_pad segNameWidth b @ ext)"
    using Cons.prems e by auto
  show ?case
  proof (cases "HasSuffix n ext")
    case True
    then obtain b where "b < u64_lim" "n = dec_pad segNameWidth b @ ext" "\<not> isDir" using h assms(2) by auto
    with bs e True show ?thesis by (auto simp: parseSegName_def ParseUint_dec_pad)
  next
    case False
    then have "\<not> (\<exists>e\<in>set knownExts. HasSuffix n e)" using h HasSuffix_append by metis
    then have "\<not> list_ex (\<lambda>other. other \<noteq> ext \<and> HasSuffix n other) knownExts" by (auto simp: list_ex_iff)
    with bs e False show ?thesis by auto
  qed
qed simp

definition sealed_stored :: "(bytes \<Rightarrow> bytes \<Rightarrow> bool) \<Rightarrow> sys \<Rightarrow> log_state \<Rightarrow> aseg \<Rightarrow> bool" where
  "sealed_stored F w l a \<longleftrightarrow> (case a of (b, hs, ps) \<Rightarrow>
     ps \<noteq> [] \<and> file_rep F w (l_dir l @ [segName l b]) (hs @ ps))"

lemma bases_sorted:
  assumes "chain as" "\<forall>(b, hs, ps)\<in>set (butlast as). ps \<noteq> []"
  shows "sorted_wrt (<) (map fst as)"
  using assms
proof (induction as rule: chain.induct)
  case (1 b hs ps b' hs' ps' r)
  then have IH: "sorted_wrt (<) (map fst ((b', hs', ps') # r))" by (auto split: if_splits)
  moreover have "b < b'" using 1 by auto
  ultimately show ?case by auto
qed auto

lemma dir_bases:
  assumes d: "dir_rep w l as" and ch: "chain as" "\<forall>(b, hs, ps)\<in>set (butlast as). ps \<noteq> []"
    and wf: "\<forall>(b, hs, ps)\<in>set as. b < u64_lim"
    and f: "\<forall>(b, hs, ps)\<in>set as. \<exists>f. stat w (l_dir l @ [segName l b]) = Some (File f)"
  shows "\<exists>bs. rbind (os_ReadDir w (l_dir l)) (seg_bases (l_ext l)) = Inr bs \<and> sort bs = map fst as"
proof -
  let ?es = "map (\<lambda>n. (n, stat w (l_dir l @ [n]) = Some Dir)) (dir_names w (l_dir l))"
  let ?nm = "\<lambda>b. dec_pad segNameWidth b @ l_ext l"
  have nm: "segName l = ?nm" by (simp add: fun_eq_iff segName_def)
  have rd: "os_ReadDir w (l_dir l) = Inr ?es" using d by (simp add: os_ReadDir_def dir_rep_def)
  have isf: "stat w (l_dir l @ [?nm b]) \<noteq> Some Dir" "b < u64_lim" if "b \<in> fst ` set as" for b
  proof -
    obtain hs ps where m: "(b, hs, ps) \<in> set as" using \<open>b \<in> fst ` set as\<close> by auto
    then show "stat w (l_dir l @ [?nm b]) \<noteq> Some Dir" "b < u64_lim" using bspec [OF f m] bspec [OF wf m] nm by auto
  qed
  have mem: "n \<in> ?nm ` fst ` set as" if "stat w (l_dir l @ [n]) \<noteq> None" "\<exists>e\<in>set knownExts. HasSuffix n e" for n
    using that d nm by (auto simp: dir_rep_def)
  have es: "\<forall>(n, isDir)\<in>set ?es. (\<exists>e\<in>set knownExts. HasSuffix n e) \<longrightarrow> \<not> isDir \<and> (\<exists>b<u64_lim. n = ?nm b)"
  proof (intro ballI, clarify)
    fix n isDir e assume "(n, isDir) \<in> set ?es" "e \<in> set knownExts" "HasSuffix n e"
    moreover from this obtain b where "b \<in> fst ` set as" "n = ?nm b" using mem [of n] by (auto simp: set_dir_names)
    ultimately show "\<not> isDir \<and> (\<exists>b<u64_lim. n = ?nm b)" using isf [of b] by auto
  qed
  have ext: "l_ext l \<in> set knownExts" using d by (simp add: dir_rep_def)
  obtain bs where bs: "seg_bases (l_ext l) ?es = Inr bs" "map ?nm bs = filter (\<lambda>n. HasSuffix n (l_ext l)) (map fst ?es)"
    using seg_bases_ok [OF es ext] by blast
  have "distinct (map ?nm bs)" unfolding bs(2) by (simp add: o_def)
  then have dist: "distinct bs" by (simp add: distinct_map)
  have "set (map ?nm bs) = ?nm ` fst ` set as"
  proof
    show "set (map ?nm bs) \<subseteq> ?nm ` fst ` set as" unfolding bs(2) using mem ext by (auto simp: set_dir_names)
    show "?nm ` fst ` set as \<subseteq> set (map ?nm bs)" 
    proof clarify
      fix b hs ps assume m: "(b, hs, ps) \<in> set as"
      have "stat w (l_dir l @ [?nm b]) \<noteq> None" using bspec [OF f m] nm by auto
      then show "?nm (fst (b, hs, ps)) \<in> set (map ?nm bs)" unfolding bs(2) by (auto simp: set_dir_names image_iff)
    qed
  qed
  then have "set bs = fst ` set as" using dec_pad_inj [of segNameWidth] by (simp add: inj_image_eq_iff inj_def)
  then have "sort bs = map fst as"
    using dist bases_sorted [OF ch] strict_sorted_iff [of "map fst as"]
    by (intro sorted_distinct_set_unique) auto
  with rd bs(1) show ?thesis by auto
qed

lemma sealed_of_rep:
  assumes "chain as" "\<forall>a\<in>set as. seg_wf (headerMode l) a" "\<forall>a\<in>set (butlast as). sealed_stored F w l a"
  shows "list_all2 (sealed_rep c F w l) (sealed_of l (map fst as)) (butlast as)"
  using assms
proof (induction as rule: chain.induct [case_names Step Empty Single])
  case (Step b hs ps b' hs' ps' r)
  have st: "sealed_stored F w l (b, hs, ps)" using Step by simp
  have "b' < u64_lim" "1 \<le> b'" using Step(3) by (auto simp: seg_wf_def)
  then have "sealed_rep c F w l (newSealed b (u64_sub b' 1) (l_dir l @ [segName l b])) (b, hs, ps)"
    using st Step by (auto simp: sealed_rep_def newSealed_def sealed_stored_def u64_simps)
  moreover have "list_all2 (sealed_rep c F w l) (sealed_of l (map fst ((b', hs', ps') # r))) (butlast ((b', hs', ps') # r))"
    using Step by (intro Step(1)) (auto split: if_splits)
  ultimately show ?case by simp
next
  case (Single v)
  then show ?case by (cases v) simp
qed simp

section \<open>What a crash leaves\<close>

text \<open>
  The files of a log whose newest segment file was cut after \<open>n\<close> bytes. With \<open>n\<close> large enough nothing
  is missing.
\<close>

definition stored :: "codec \<Rightarrow> (bytes \<Rightarrow> bytes \<Rightarrow> bool) \<Rightarrow> sys \<Rightarrow> log_state \<Rightarrow> aseg list \<Rightarrow> aseg \<Rightarrow> bytes list \<Rightarrow> nat \<Rightarrow> bool" where
  "stored c F w l segs a fs n \<longleftrightarrow> dir_rep w l (segs @ [a]) \<and> l_codec l = c \<and> l_ext l = c_FileExt c \<and>
     chain (segs @ [a]) \<and> headers_ok (OnSegmentOpen (l_opts l)) (segs @ [a]) \<and>
     (\<forall>a\<in>set (segs @ [a]). seg_wf (headerMode l) a) \<and> (\<forall>a\<in>set segs. sealed_stored F w l a) \<and>
     (case a of (b, hs, ps) \<Rightarrow> stat w (l_dir l @ [segName l b]) = Some (File (take n (concat fs))) \<and>
        list_all2 F fs (hs @ ps))"

lemma stored_bases:
  assumes "stored c F w l segs (b, hs, ps) fs n"
  shows "\<exists>bs. rbind (os_ReadDir w (l_dir l)) (seg_bases (l_ext l)) = Inr bs \<and> sort bs = map fst segs @ [b]"
proof -
  have st: "\<exists>f. stat w (l_dir l @ [segName l b']) = Some (File f)" "ps' \<noteq> []" if "(b', hs', ps') \<in> set segs" for b' hs' ps'
    using assms that by (auto simp: stored_def sealed_stored_def file_rep_def dest!: bspec)
  have "\<forall>(b, hs, ps)\<in>set (segs @ [(b, hs, ps)]). b < u64_lim"
    using assms by (fastforce simp: stored_def seg_wf_def)
  moreover have "\<forall>(b, hs, ps)\<in>set (segs @ [(b, hs, ps)]). \<exists>f. stat w (l_dir l @ [segName l b]) = Some (File f)"
    using st(1) assms by (auto simp: stored_def)
  moreover have "\<forall>(b, hs, ps)\<in>set (butlast (segs @ [(b, hs, ps)])). ps \<noteq> []" using st(2) by auto
  ultimately show ?thesis
    using dir_bases [of w l "segs @ [(b, hs, ps)]"] assms by (simp add: stored_def)
qed

lemma headers_ok_appendD: "headers_ok fo (as @ bs) \<Longrightarrow> headers_ok fo as"
proof (induction fo as rule: headers_ok.induct [case_names Step NoFold Empty Single])
  case (Empty fo)
  then show ?case by (cases fo) auto
next
  case (Single fo v)
  then show ?case by (cases fo; cases v) auto
qed auto

lemma stored_sealed:
  assumes "stored c F w l segs (b, hs, ps) fs n"
  shows "own_rep c F w (l\<lparr>sealed := sealed_of l (map fst segs @ [b]), active := None\<rparr>) segs None"
proof -
  have "list_all2 (sealed_rep c F w l) (sealed_of l (map fst segs @ [b])) segs"
    using sealed_of_rep [of "segs @ [(b, hs, ps)]" l F w c] assms by (simp add: stored_def)
  moreover have "headers_ok (OnSegmentOpen (l_opts l)) segs"
    using assms headers_ok_appendD by (auto simp: stored_def)
  ultimately show ?thesis using assms by (auto simp: stored_def own_rep_def active_rep_iff all_segs_def chain_append)
qed

lemma stat_put_or_same:
  "w' = w \<or> w' = put p (File x) w \<Longrightarrow> stat w' p = Some (File f) \<Longrightarrow> p \<noteq> [] \<Longrightarrow> stat w' = (stat w)(p \<mapsto> File f)"
  by (auto simp: fun_eq_iff stat_put)

lemma sealedState_active:
  "sealedState w (l\<lparr>active := y\<rparr>) = apsnd (\<lambda>l'. l'\<lparr>active := y\<rparr>) (sealedState w l)"
  by (auto simp: sealedState_def openSealed_def put_seg_def Let_def apsnd_def map_prod_def split: prod.splits sum.splits option.splits)

context lawful_codec
begin

lemma open_newest:
  assumes st: "stored c is_frame w l segs (b, hs, ps) fs n" and k: "k = whole n (map length fs)"
    and p: "p = l_dir l @ [segName l b]"
  shows "\<exists>w' s f. seg_openRW w p c b (SegmentSize (l_opts l)) (headerMode l) = (Inr s, w') \<and>
    stat w' = (stat w)(p \<mapsto> File f) \<and> only_in (l_dir l) w w' \<and>
    seg_rep c is_frame w' s (take k hs) (take (k - length hs) ps) \<and> s_path s = p \<and> baseIndex s = b \<and>
    \<not> readOnly s \<and> maxSize s = SegmentSize (l_opts l) \<and> hasHeader s = headerMode l \<and> size s = length (concat (take k fs))"
proof -
  let ?hm = "headerMode l" and ?qs = "hs @ ps"
  have f: "stat w p = Some (File (take n (concat fs)))" "list_all2 is_frame fs ?qs" and wf: "seg_wf ?hm (b, hs, ps)"
    using st p by (auto simp: stored_def)
  have lim: "b + length (if ?hm then drop 1 ?qs else ?qs) < u64_lim" "length ?qs < u64_lim"
    using wf by (auto simp: seg_wf_def split: if_splits)
  have q: "(if ?hm then take 1 (take k ?qs) else []) = take k hs"
    "(if ?hm then drop 1 (take k ?qs) else take k ?qs) = take (k - length hs) ps"
    using wf by (cases hs; cases k; simp add: seg_wf_def split: if_splits)+
  let ?s = "seg_indexed p c b (SegmentSize (l_opts l)) False ?hm (take k fs) (take k hs) (take (k - length hs) ps)"
  obtain w' where w': "seg_openRW w p c b (SegmentSize (l_opts l)) ?hm = (Inr ?s, w')"
    "w' = w \<or> w' = put p (File (concat (take k fs))) w"
    "seg_rep c is_frame w' ?s (take k hs) (take (k - length hs) ps)"
    using seg_openRW_crash [OF f lim k, of "SegmentSize (l_opts l)"] unfolding q by blast
  have "only_in (l_dir l) w w'" using w'(2) f(1) p seg_file_segName [of w l "segs @ [(b, hs, ps)]" b] st by (auto simp: stored_def intro: only_in_put)
  moreover obtain x where "stat w' p = Some (File x)" using w'(3) by (auto simp: seg_rep_def seg_indexed_def)
  then have "stat w' = (stat w)(p \<mapsto> File x)" using stat_put_or_same [OF w'(2)] p by simp
  ultimately show ?thesis using w'(1,3) by (intro exI conjI) (auto simp: seg_indexed_def)
qed

text \<open>The newest segment with its header, if it has one, in place: everything whole survives.\<close>

lemma loadSegments_kept:
  assumes st: "stored c is_frame w l segs (b, hs, ps) fs n" and k: "k = whole n (map length fs)"
    and kept: "headerMode l \<Longrightarrow> k \<noteq> 0"
  shows "\<exists>w' l'. loadSegments w l = (Inr l', w') \<and> own_rep c is_frame w' l' segs (Some (b, hs, take (k - length hs) ps)) \<and>
    cfg l' = cfg l \<and> only_in (l_dir l) w w' \<and> dir_rep w' l' (segs @ [(b, hs, take (k - length hs) ps)])"
proof -
  let ?l = "l\<lparr>sealed := sealed_of l (map fst segs @ [b])\<rparr>" and ?ps = "take (k - length hs) ps"
  let ?l0 = "?l\<lparr>active := None\<rparr>"
  have wf: "seg_wf (headerMode l) (b, hs, ps)" using st by (simp add: stored_def)
  have hs: "take k hs = hs" using wf kept by (cases k) (auto simp: seg_wf_def split: if_splits)
  obtain w' s f where o: "seg_openRW w (l_dir l @ [segName l b]) c b (SegmentSize (l_opts l)) (headerMode l) = (Inr s, w')"
    "stat w' = (stat w)(l_dir l @ [segName l b] \<mapsto> File f)" "only_in (l_dir l) w w'"
    "seg_rep c is_frame w' s hs ?ps" "s_path s = l_dir l @ [segName l b]" "baseIndex s = b"
    "\<not> readOnly s" "maxSize s = SegmentSize (l_opts l)" "hasHeader s = headerMode l" "size s = length (concat (take k fs))"
    using open_newest [OF st k refl] unfolding hs by blast
  have "own_rep c is_frame w' (?l0\<lparr>active := Some s\<rparr>) segs (Some (b, hs, ?ps))"
    using o wf st headers_ok_last
    by (intro own_rep_set_active [OF stored_sealed [OF st], of w' b f])
      (auto simp: seg_wf_def stored_def chain_append)
  moreover have "dir_rep w' l (segs @ [(b, hs, ?ps)])"
    using st by (intro dir_rep_set_active [where act = "Some (b, hs, ps)", OF _ o(2)]) (auto simp: stored_def all_segs_def)
  moreover have "size s \<noteq> 0" if "headerMode l"
  proof -
    have "hs \<noteq> []" using wf that by (auto simp: seg_wf_def)
    then obtain f0 h0 where "fs = f0 # tl fs" "is_frame f0 h0"
      using st by (cases hs) (auto simp: stored_def list_all2_Cons2)
    then have "take k fs = f0 # take (k - 1) (tl fs)" "f0 \<noteq> []"
      using kept [OF that] is_frame_nonempty by (cases k; metis take_Suc_Cons diff_Suc_1)+
    then show ?thesis using o(10) by simp
  qed
  then have "reseedEmptyActiveHeader w' (?l\<lparr>active := Some s\<rparr>) = (Inr (?l\<lparr>active := Some s\<rparr>), w')"
    by (auto simp: reseedEmptyActiveHeader_def headerMode_def split: option.splits)
  moreover obtain bs where "rbind (os_ReadDir w (l_dir l)) (seg_bases (l_ext l)) = Inr bs" "sort bs = map fst segs @ [b]"
    using stored_bases [OF st] by blast
  moreover have "l_codec l = c" using st by (simp add: stored_def)
  ultimately show ?thesis
    using o(1,3) by (auto simp: loadSegments_def Let_def)
qed

text \<open>The header was torn: the newest segment is empty, and gets the header it would have got.\<close>

lemma loadSegments_torn:
  assumes st: "stored c is_frame w l segs (b, hs, ps) fs n" and k: "whole n (map length fs) = 0"
    and torn: "OnSegmentOpen (l_opts l) = Some f" "\<not> l_readOnly l"
    and h: "next_header (Some f) (ALog segs None 0 None) = Inr [h]" "stable h"
  shows "\<exists>w' l'. loadSegments w l = (Inr l', w') \<and> own_rep c is_frame w' l' segs (Some (b, [h], [])) \<and>
    cfg l' = cfg l \<and> only_in (l_dir l) w w' \<and> dir_rep w' l' (segs @ [(b, [h], [])])"
proof -
  let ?l = "l\<lparr>sealed := sealed_of l (map fst segs @ [b])\<rparr>" and ?p = "l_dir l @ [segName l b]"
  let ?l0 = "?l\<lparr>active := None\<rparr>"
  have wf: "seg_wf (headerMode l) (b, hs, ps)" and ch: "chain (segs @ [(b, [h], [])])"
    using st by (auto simp: stored_def chain_append)
  obtain w1 s x where o: "seg_openRW w ?p c b (SegmentSize (l_opts l)) (headerMode l) = (Inr s, w1)"
    "stat w1 = (stat w)(?p \<mapsto> File x)" "only_in (l_dir l) w w1"
    "seg_rep c is_frame w1 s [] []" "s_path s = ?p" "baseIndex s = b"
    "\<not> readOnly s" "maxSize s = SegmentSize (l_opts l)" "hasHeader s = headerMode l" "size s = 0"
    using open_newest [OF st k [symmetric] refl] by auto
  have own: "own_rep c is_frame w1 ?l0 segs None"
    using own_rep_put_new [OF stored_sealed [OF st], of w1 b x] o(2) ch by simp
  have "\<exists>l2 prev qs. (if sealed ?l \<noteq> [] then sealedState w1 ?l0 else (Inr ([], []), ?l0)) = (Inr (prev, qs), l2) \<and>
    own_rep c is_frame w1 l2 segs None \<and> cfg l2 = cfg l \<and> f prev qs = Inr h"
  proof (cases segs rule: rev_cases)
    case Nil
    then have "sealed ?l = []" using own_repD(7) [OF own] by simp
    then show ?thesis using own h(1) Nil by (auto simp: next_header_def all_segs_def rbind_eq_Inr)
  next
    case (snoc segs' a)
    obtain b' hs' ps' where a: "a = (b', hs', ps')" by (cases a)
    have "f (concat hs') ps' = Inr h" using h(1) snoc a by (auto simp: next_header_def all_segs_def rbind_eq_Inr)
    moreover have "sealed ?l \<noteq> []" using own_repD(7) [OF own] snoc by auto
    ultimately show ?thesis using sealedState_rep [OF own, of segs' b' hs' ps'] snoc a by auto
  qed
  then obtain l2 prev qs where p: "(if sealed ?l \<noteq> [] then sealedState w1 ?l0 else (Inr ([], []), ?l0)) = (Inr (prev, qs), l2)"
    "own_rep c is_frame w1 l2 segs None" "cfg l2 = cfg l" "f prev qs = Inr h" by blast
  have p': "(if sealed ?l \<noteq> [] then sealedState w1 (?l\<lparr>active := Some s\<rparr>) else (Inr ([], []), ?l\<lparr>active := Some s\<rparr>)) =
      (Inr (prev, qs), l2\<lparr>active := Some s\<rparr>)"
    using p(1) sealedState_active [where w = w1 and l = ?l0 and y = "Some s"] by (auto split: if_splits)
  obtain hf s' where wh: "seg_WriteHeader w1 s h = (Inr s', put ?p (File hf) w1)"
    "seg_rep c is_frame (put ?p (File hf) w1) s' [h] []" "s' = s\<lparr>size := length hf, hasHeader := True, s_header := h\<rparr>"
    using seg_WriteHeader_rep [OF o(4,7) h(2)] o(5) by auto
  let ?w = "put ?p (File hf) w1" and ?l' = "l2\<lparr>active := Some s'\<rparr>"
  have re: "reseedEmptyActiveHeader w1 (?l\<lparr>active := Some s\<rparr>) = (Inr ?l', ?w)"
    using torn o(4,7,10) seg_repD(2) [OF o(4)] p' p(4) wh(1) by (auto simp: reseedEmptyActiveHeader_def split: if_splits)
  have same: "l_dir l2 = l_dir l" "segName l2 = segName l" "l_opts l2 = l_opts l" "headerMode l2"
    using p(3) torn(1) by (auto simp: cfg_def segName_def headerMode_def fun_eq_iff)
  have put: "stat ?w = (stat w1)(?p \<mapsto> File hf)" by (auto simp: fun_eq_iff stat_put)
  have hok: "headers_ok (OnSegmentOpen (l_opts l2)) (segs @ [(b, [h], [])])"
    using own_repD(6) [OF p(2)] h(1) torn(1) same(3)
    by (intro headers_ok_snoc) (auto simp: next_header_def rbind_eq_Inr all_segs_def)
  have "own_rep c is_frame ?w ?l' segs (Some (b, [h], []))"
    using wh(2,3) o wf ch hok same
    by (intro own_rep_set_active [OF p(2), where f = hf]) (auto simp: seg_wf_def put)
  moreover have "only_in (l_dir l) w ?w"
    using only_in_trans [OF o(3) only_in_put] o(2) seg_file_segName [of w l "segs @ [(b, hs, ps)]" b] st by (simp add: stored_def)
  moreover have "dir_rep ?w l (segs @ [(b, [h], [])])"
    using st dir_rep_set_active [where act = "Some (b, hs, ps)", OF _ o(2)]
    by (intro dir_rep_set_active [where act = "Some (b, [h], [])", OF _ put]) (auto simp: stored_def all_segs_def)
  then have "dir_rep ?w ?l' (segs @ [(b, [h], [])])" using dir_rep_cong [OF p(3)] by simp
  moreover obtain bs where "rbind (os_ReadDir w (l_dir l)) (seg_bases (l_ext l)) = Inr bs" "sort bs = map fst segs @ [b]"
    using stored_bases [OF st] by blast
  moreover have "l_codec l = c" using st by (simp add: stored_def)
  ultimately show ?thesis
    using o(1) re p(3) by (auto simp: loadSegments_def Let_def)
qed

end

section \<open>Opening\<close>

text \<open>The state \<^verbatim>\<open>Open\<close> starts from.\<close>

definition fresh_log :: "path \<Rightarrow> options \<Rightarrow> codec \<Rightarrow> nat \<Rightarrow> log_state" where
  "fresh_log dir opts c fb = \<lparr>l_dir = dir, l_opts = opts, l_codec = c, l_ext = c_FileExt c, sealed = [],
     active = None, ownsParent = False, forkBase = fb, l_readOnly = False\<rparr>"

lemma fresh_log_eq:
  assumes "l_codec l = c" "l_ext l = c_FileExt c" "\<not> ownsParent l" "\<not> l_readOnly l"
  shows "cfg (fresh_log (l_dir l) (l_opts l) c (forkBase l)) = cfg l"
  using assms by (simp add: fresh_log_def cfg_def)

text \<open>A directory that can be opened without its parent being opened first.\<close>

definition openable :: "sys \<Rightarrow> path \<Rightarrow> options \<Rightarrow> codec \<Rightarrow> nat \<Rightarrow> dlog option \<Rightarrow> bool" where
  "openable w dir opts c fb pa \<longleftrightarrow> dirs_above w dir \<and> SegmentSize opts \<noteq> 0 \<and> o_Codec opts = Some c \<and>
     hasSubdirs w dir = Inr False \<and> \<not> hasForkPending w dir \<and> readForkMarker w dir = Inr fb \<and>
     (pa = None \<longrightarrow> fb = 0)"

lemma disk_Open_of_load:
  assumes load: "loadSegments w (fresh_log dir opts c fb) = (Inr l', w')"
    and rep: "own_rep c F w' l' segs act" and pre: "openable w dir opts c fb pa"
    and base: "0 < fb \<Longrightarrow> all_segs segs act \<noteq> [] \<Longrightarrow> first_of (all_segs segs act) \<le> fb"
  shows "disk_Open w dir opts pa = (Inr (DLog l' pa), w')"
proof -
  have first: "(case sealed l' of ss # _ \<Rightarrow> Some (ss_base ss) | [] \<Rightarrow> map_option baseIndex (active l')) =
      (if all_segs segs act = [] then None else Some (first_of (all_segs segs act)))"
  proof (cases segs)
    case Nil
    then have "sealed l' = []" using own_repD(7) [OF rep] by simp
    with Nil own_repD(4) [OF rep] show ?thesis by (auto simp: active_rep_iff all_segs_def)
  next
    case (Cons a r)
    then obtain ss sss where "sealed l' = ss # sss" "sealed_rep c F w' l' ss a"
      using own_repD(3) [OF rep] by (auto simp: list_all2_Cons2)
    with Cons show ?thesis by (cases a) (simp add: sealed_repD all_segs_def)
  qed
  have "open_own w dir opts c fb pa False = (Inr (DLog l' pa), w')"
    using load pre base first by (cases "all_segs segs act = []") (auto simp: open_own_def openable_def fresh_log_def)
  moreover have eq: "opts\<lparr>o_Codec := Some c\<rparr> = opts" using pre by (simp add: openable_def)
  ultimately show ?thesis
    using pre by (subst disk_Open.simps)
      (auto simp: eq openable_def os_MkdirAll_noop open_codec_def Let_def split: option.splits bool.splits)
qed

text \<open>How many records of the newest segment survive when only its first \<open>n\<close> bytes do.\<close>

definition survivors :: "nat \<Rightarrow> bytes list \<Rightarrow> bytes list \<Rightarrow> nat" where
  "survivors n fs hs = whole n (map length fs) - length hs"

context lawful_codec
begin

lemma disk_Open_crash:
  assumes st: "stored c is_frame w l segs (b, hs, ps) fs n" and l: "l = fresh_log dir opts c fb"
    and h: "headerMode l \<Longrightarrow> next_header (OnSegmentOpen opts) (ALog segs None 0 None) = Inr hs"
    and pre: "openable w dir opts c fb pa" and base: "0 < fb \<Longrightarrow> first_of (segs @ [(b, hs, ps)]) \<le> fb"
  shows "\<exists>w' l'. disk_Open w dir opts pa = (Inr (DLog l' pa), w') \<and> cfg l' = cfg l \<and> only_in dir w w' \<and>
    own_rep c is_frame w' l' segs (Some (b, hs, take (survivors n fs hs) ps)) \<and>
    dir_rep w' l' (segs @ [(b, hs, take (survivors n fs hs) ps)])"
proof -
  have wf: "seg_wf (headerMode l) (b, hs, ps)" and fr: "list_all2 is_frame fs (hs @ ps)" using st by (auto simp: stored_def)
  have "\<exists>w' l'. loadSegments w l = (Inr l', w') \<and>
    own_rep c is_frame w' l' segs (Some (b, hs, take (survivors n fs hs) ps)) \<and>
    cfg l' = cfg l \<and> only_in (l_dir l) w w' \<and> dir_rep w' l' (segs @ [(b, hs, take (survivors n fs hs) ps)])"
  proof (cases "headerMode l \<and> whole n (map length fs) = 0")
    case True
    then obtain f h0 where f: "OnSegmentOpen (l_opts l) = Some f" "hs = [h0]"
      using wf by (cases hs) (auto simp: headerMode_def seg_wf_def)
    moreover have "stable h0" using fr f(2) is_frame_stable by (auto simp: list_all2_Cons2)
    ultimately show ?thesis
      using loadSegments_torn [OF st conjunct2 [OF True] f(1), of h0] h True l
      by (simp add: survivors_def fresh_log_def)
  next
    case False
    then show ?thesis using loadSegments_kept [OF st refl] by (auto simp: survivors_def)
  qed
  then obtain w' l' where load: "loadSegments w (fresh_log dir opts c fb) = (Inr l', w')"
    "own_rep c is_frame w' l' segs (Some (b, hs, take (survivors n fs hs) ps))"
    "cfg l' = cfg l" "only_in dir w w'" "dir_rep w' l' (segs @ [(b, hs, take (survivors n fs hs) ps)])"
    using l by (auto simp: fresh_log_def)
  have "disk_Open w dir opts pa = (Inr (DLog l' pa), w')"
    using disk_Open_of_load [OF load(1,2) pre] base by (cases segs) (auto simp: all_segs_def)
  with load show ?thesis by blast
qed

text \<open>The files of a log that is in good order, with the newest one cut.\<close>

lemma stored_cut:
  assumes rep: "own_rep c is_frame w l segs (Some (b, hs, ps))" and dir: "dir_rep w l (segs @ [(b, hs, ps)])"
    and f: "stat w (l_dir l @ [segName l b]) = Some (File x)" and l': "cfg l' = cfg l"
  shows "\<exists>fs. x = concat fs \<and> list_all2 is_frame fs (hs @ ps) \<and>
    stored c is_frame (put (l_dir l @ [segName l b]) (File (take n x)) w) l' segs (b, hs, ps) fs n"
proof -
  let ?p = "l_dir l @ [segName l b]"
  let ?w = "put ?p (File (take n x)) w"
  have put: "stat ?w = (stat w)(?p \<mapsto> File (take n x))" by (auto simp: fun_eq_iff stat_put)
  have same: "l_dir l' = l_dir l" "segName l' = segName l" "l_opts l' = l_opts l" "headerMode l' = headerMode l"
    "l_codec l' = l_codec l" "l_ext l' = l_ext l"
    using l' by (auto simp: cfg_def segName_def headerMode_def fun_eq_iff)
  obtain s where "seg_rep c is_frame w s hs ps" "s_path s = ?p" "\<not> readOnly s"
    using own_repD(4) [OF rep] by (auto simp: active_rep_iff)
  then obtain fs where fs: "x = concat fs" "list_all2 is_frame fs (hs @ ps)" using f by (auto simp: seg_rep_def)
  have ch: "chain (segs @ [(b, hs, ps)])" using own_repD(5) [OF rep] by (simp add: all_segs_def)
  have "sealed_stored is_frame ?w l a" if a: "a \<in> set segs" for a
  proof -
    obtain ss where "sealed_rep c is_frame ?w l ss a"
      using sealed_reps_put [OF rep put ch] a by (metis in_set_conv_nth list_all2_conv_all_nth)
    then show ?thesis by (auto simp: sealed_rep_def sealed_stored_def split: prod.splits)
  qed
  moreover have "dir_rep ?w l (segs @ [(b, hs, ps)])"
    using dir by (intro dir_rep_set_active [where act = "Some (b, hs, ps)", OF _ put]) (auto simp: all_segs_def)
  then have "dir_rep ?w l' (segs @ [(b, hs, ps)])" using dir_rep_cong [OF l'] by simp
  ultimately show ?thesis
    using fs own_repD [OF rep] own_rep_wf [OF rep] same put
    by (intro exI [of _ fs]) (auto simp: stored_def all_segs_def sealed_stored_def)
qed

end

end
