(* ===== verification/Disk_Theorems.thy ===== *)
theory Disk_Theorems
  imports Disk_Reopen
begin

text \<open>
  What the disk log promises, for both codecs: reads, walks and writes against the list of records the log
  shows, recovery after a crash, the state at an index, truncation at the front, and the cases in which the
  code does something else than it means to.
\<close>

section \<open>Both codecs\<close>

datatype codec_kind = Binary | JSONL

fun codecOf :: "codec_kind \<Rightarrow> codec" where
  "codecOf Binary = BinaryCodec"
| "codecOf JSONL = JSONLCodec"

fun stableOf :: "codec_kind \<Rightarrow> bytes \<Rightarrow> bool" where
  "stableOf Binary = bin_stable"
| "stableOf JSONL = jsonl_stable"

fun frameOf :: "codec_kind \<Rightarrow> bytes \<Rightarrow> bytes \<Rightarrow> bool" where
  "frameOf Binary = bin_frame"
| "frameOf JSONL = jsonl_frame"

interpretation any: lawful_codec "codecOf k" "stableOf k" "frameOf k" for k
  by (cases k) (simp_all add: binary.lawful_codec_axioms jsonl.lawful_codec_axioms)

abbreviation represents :: "codec_kind \<Rightarrow> sys \<Rightarrow> dlog \<Rightarrow> alog \<Rightarrow> bool" where
  "represents k \<equiv> dlog_rep (codecOf k) (frameOf k)"

abbreviation in_order :: "codec_kind \<Rightarrow> sys \<Rightarrow> dlog \<Rightarrow> alog \<Rightarrow> bool" where
  "in_order k \<equiv> log_ok (codecOf k) (frameOf k)"

section \<open>Reading\<close>

lemma a_Read_visible:
  "chains a \<Longrightarrow> (case a_Read idx a of
     Inr p \<Rightarrow> map_of (visible a) idx = Some p
   | Inl e \<Rightarrow> map_of (visible a) idx = None \<and> e \<in> {ErrEmpty, ErrNotFound})"
proof (induction a)
  case (ALog segs act fb pb)
  let ?es = "entries (all_segs segs act)"
  have fl: "map_of (filter (\<lambda>x. P (fst x)) xs) i = (if P i then map_of xs i else None)"
    for P :: "nat \<Rightarrow> bool" and xs :: "(nat \<times> bytes) list" and i
    by (induction xs) auto
  have own: "map_of (entries (all_segs segs act)) idx = Some p \<longrightarrow> ?es \<noteq> []" for p by auto
  show ?case
  proof (cases pb)
    case None
    then show ?thesis by (auto split: bool.split option.split)
  next
    case (Some q)
    then have "case a_Read idx q of Inr p \<Rightarrow> map_of (visible q) idx = Some p
      | Inl e \<Rightarrow> map_of (visible q) idx = None \<and> e \<in> {ErrEmpty, ErrNotFound}"
      using ALog by auto
    then show ?thesis
      using Some fl [of "\<lambda>i. i < fb"] fl [of "\<lambda>i. fb \<le> i"]
      by (auto simp: map_add_def split: option.split sum.splits)
  qed
qed

section \<open>A small log\<close>

text \<open>An empty directory with a log opened on it, for concrete instances.\<close>

definition small_sys :: sys where
  "small_sys = \<lparr>files = [([''d''], Dir)], cacheLimit = 100\<rparr>"

definition small_opts :: options where
  "small_opts = \<lparr>SegmentSize = 64, o_Codec = Some BinaryCodec, MaxUnflushedBytes = 0, OnSegmentOpen = None\<rparr>"

abbreviation small_log :: log_state where
  "small_log \<equiv> fresh_log [''d''] small_opts BinaryCodec 0"

lemma fresh_log_ok: "in_order Binary small_sys (DLog (fresh_log [''d''] opts BinaryCodec 0) None) (ALog [] None 0 None)"
proof -
  have "\<not> (stat small_sys [''d'', n] \<noteq> None)" for n by (simp add: small_sys_def stat_def)
  moreover have "stat small_sys [''d''] = Some Dir" by (simp add: small_sys_def stat_def)
  ultimately show ?thesis
    by (auto simp: own_rep_def active_rep_iff dir_rep_def fresh_log_def BinaryCodec_def
        knownExts_def u64_simps all_segs_def)
qed

text \<open>The same with one record written, with a header in front of it where the options ask for one.\<close>

lemma fresh_log_written:
  assumes "l = fresh_log [''d''] opts BinaryCodec 0" "SegmentSize opts = 64" "hs = [] \<or> hs = [[]]"
    "next_header (OnSegmentOpen opts) (ALog [] None 0 None) = Inr hs"
  shows "\<exists>w l'. disk_Write small_sys (DLog l None) 1 (bytes_of ''hello'') = (Inr (), w, DLog l' None) \<and>
     in_order Binary w (DLog l' None) (ALog [] (Some (1, hs, [bytes_of ''hello''])) 0 None) \<and>
     same_log small_sys (DLog l None) w (DLog l' None)"
proof -
  have ok: "in_order Binary small_sys (DLog l None) (ALog [] None 0 None)" using fresh_log_ok assms(1) by (simp del: log_ok.simps)
  have sub: "hasSubdirs small_sys (l_dir l) = Inr False"
    by (simp add: hasSubdirs_dir small_sys_def stat_def fresh_log_def assms(1))
  have ni: "1 = next_index (ALog [] None 0 None)" by (simp add: next_index_def all_segs_def)
  have fits: "fits bin_frame (l_opts l) hs (bytes_of ''hello'')"
    using assms(1-3) by (auto simp: fits_def fresh_log_def list_all2_Cons2 dest!: bin_frame_length)
  have hd: "next_header (OnSegmentOpen (l_opts l)) (ALog [] None 0 None) = Inr hs" "list_all (stableOf Binary) hs"
    using assms by (auto simp: fresh_log_def bin_stable_def)
  obtain w1 d1 w d where o: "openActiveLocked small_sys (DLog l None) 1 = (Inr (), w1, d1)"
    "appendActive w1 d1 (bytes_of ''hello'') = (Inr (), w, d)"
    "in_order Binary w d (ALog [] (Some (1, hs, [bytes_of ''hello''])) 0 None)"
    "same_log small_sys (DLog l None) w d"
    using any.open_append_rep [OF ok ni _ hd, of "bytes_of ''hello''"] fits
    by (auto simp: u64_simps bin_stable_def simp del: log_ok.simps same_log.simps)
  moreover have "expectedIndex l = 1" by (simp add: expectedIndex_def isEmptyLocked_def fresh_log_def assms(1))
  ultimately have "disk_Write small_sys (DLog l None) 1 (bytes_of ''hello'') = (Inr (), w, d)"
    using sub by (simp add: disk_Write_def writeActive_def fresh_log_def assms(1) del: bytes_of_simps)
  moreover obtain l' where "d = DLog l' None" using o(3) by (cases d) (auto split: option.splits)
  ultimately show ?thesis using o(3,4) by blast
qed

lemmas small_log_ok = fresh_log_ok [of small_opts]

lemma small_log_written:
  "\<exists>w l. disk_Write small_sys (DLog small_log None) 1 (bytes_of ''hello'') = (Inr (), w, DLog l None) \<and>
     in_order Binary w (DLog l None) (ALog [] (Some (1, [], [bytes_of ''hello''])) 0 None) \<and>
     same_log small_sys (DLog small_log None) w (DLog l None)"
  by (rule fresh_log_written [OF refl]) (simp_all add: small_opts_def next_header_def)

lemma small_log_entries [simp]: "entries (all_segs [] (Some (1, [], [p]))) = [(1, p)]"
  by (simp add: all_segs_def seg_entries_def)

section \<open>Reads, walks, writes\<close>

text \<open>C3: Reading an index returns the record the log shows there, its own at or above the fork base
  and the ancestors' below, and an error exactly where there is none; the log stays as it was.\<close>

theorem disk_read_visible:
  assumes "represents k w d a"
  shows "\<exists>r d'. disk_Read w idx d = (r, d') \<and> represents k w d' a \<and>
    (case r of Inr p \<Rightarrow> map_of (visible a) idx = Some p
     | Inl e \<Rightarrow> map_of (visible a) idx = None \<and> e \<in> {ErrEmpty, ErrNotFound})"
  using any.disk_Read_rep [OF assms, of idx] a_Read_visible [OF dlog_rep_chains [OF assms], of idx] by auto

theorem disk_read_visible_witness:
  "case disk_Write small_sys (DLog small_log None) 1 (bytes_of ''hello'') of (r, w, d) \<Rightarrow>
     fst (disk_Read w 1 d) = Inr (bytes_of ''hello'')"
proof -
  obtain w l where s: "disk_Write small_sys (DLog small_log None) 1 (bytes_of ''hello'') = (Inr (), w, DLog l None)"
    "in_order Binary w (DLog l None) (ALog [] (Some (1, [], [bytes_of ''hello''])) 0 None)"
    using small_log_written by blast
  have rep: "represents Binary w (DLog l None) (ALog [] (Some (1, [], [bytes_of ''hello''])) 0 None)" using s(2) by simp
  obtain r d' where "disk_Read w 1 (DLog l None) = (r, d')" "case r of
      Inr p \<Rightarrow> map_of (visible (ALog [] (Some (1, [], [bytes_of ''hello''])) 0 None)) 1 = Some p
    | Inl e \<Rightarrow> map_of (visible (ALog [] (Some (1, [], [bytes_of ''hello''])) 0 None)) 1 = None \<and> e \<in> {ErrEmpty, ErrNotFound}"
    using disk_read_visible [OF rep, of 1] by blast
  then show ?thesis using s(1) by (cases r) (simp_all add: all_segs_def seg_entries_def del: bytes_of_simps)
qed

text \<open>C4: Walking a log upwards returns, and calls the callback on exactly the records the log shows
  from the given index on, in order and each once, stopping at the callback's first error.\<close>

theorem disk_range_visible:
  assumes "represents k w d a" "\<And>st x. snd (fn st x) \<noteq> Some ErrRangeBoundary"
  shows "\<exists>d'. disk_Range w fn from st d = Some (iterE fn st (filter (\<lambda>x. from \<le> fst x) (visible a)), d') \<and>
    represents k w d' a \<and> sorted (map fst (visible a)) \<and> distinct (map fst (visible a))"
  using any.disk_Range_rep [OF assms(1), of fn "from" st] a_Range_visible [OF dlog_rep_chains [OF assms(1)] assms(2)]
    visible_sorted [OF dlog_rep_chains [OF assms(1)]] by simp

theorem disk_range_visible_witness:
  "case disk_Write small_sys (DLog small_log None) 1 (bytes_of ''hello'') of (r, w, d) \<Rightarrow>
     map_option fst (disk_Range w (\<lambda>st x. (st @ [x], None)) 0 [] d) = Some ([(1, bytes_of ''hello'')], None)"
proof -
  obtain w l where s: "disk_Write small_sys (DLog small_log None) 1 (bytes_of ''hello'') = (Inr (), w, DLog l None)"
    "in_order Binary w (DLog l None) (ALog [] (Some (1, [], [bytes_of ''hello''])) 0 None)"
    using small_log_written by blast
  have rep: "represents Binary w (DLog l None) (ALog [] (Some (1, [], [bytes_of ''hello''])) 0 None)" using s(2) by simp
  from disk_range_visible [OF rep, of "\<lambda>st x. (st @ [x], None)" 0 "[]"] show ?thesis
    using s(1) by (auto simp: all_segs_def seg_entries_def simp del: bytes_of_simps)
qed



text \<open>C2: A write at the next index of a writable log in good order either appends exactly that record,
  through a rotation where the active segment is full, or reports that the payload is too large for a
  segment of its own and leaves the records as they were. Either way the log stays in good order, and
  nothing outside its directory changes.\<close>

theorem disk_write_appends:
  assumes "in_order k w (DLog l pa) (ALog segs act fb pb)" "\<not> l_readOnly l" "hasSubdirs w (l_dir l) = Inr False"
    "idx = next_index (ALog segs act fb pb)" "idx + 1 < u64_lim"
    "fresh_header (OnSegmentOpen (l_opts l)) (ALog segs act fb pb) = Inr hs" "list_all (stableOf k) hs" "stableOf k p"
  shows "\<exists>r w' d' segs' act'. disk_Write w (DLog l pa) idx p = (r, w', d') \<and>
    in_order k w' d' (ALog segs' act' fb pb) \<and> same_log w (DLog l pa) w' d' \<and>
    (r = Inr () \<and> entries (all_segs segs' act') = entries (all_segs segs act) @ [(idx, p)] \<or>
     r = Inl ErrPayloadTooLarge \<and> \<not> fits (frameOf k) (l_opts l) hs p \<and>
       entries (all_segs segs' act') = entries (all_segs segs act))"
  using any.disk_Write_rep [OF assms] .

theorem disk_write_appends_witness:
  "\<exists>w' d' segs' act'. disk_Write small_sys (DLog small_log None) 1 (bytes_of ''hello'') = (Inr (), w', d') \<and>
    entries (all_segs segs' act') = [(1, bytes_of ''hello'')] \<and> in_order Binary w' d' (ALog segs' act' 0 None)"
proof -
  have sub: "hasSubdirs small_sys (l_dir small_log) = Inr False"
    by (simp add: hasSubdirs_dir small_sys_def stat_def fresh_log_def)
  have ni: "1 = next_index (ALog [] None 0 None)" by (simp add: next_index_def all_segs_def)
  have fits: "fits bin_frame (l_opts small_log) [] (bytes_of ''hello'')"
    by (auto simp: fits_def fresh_log_def small_opts_def dest: bin_frame_length)
  have hd: "fresh_header (OnSegmentOpen (l_opts small_log)) (ALog [] None 0 None) = Inr []"
    by (simp add: fresh_header_def next_header_def fresh_log_def small_opts_def)
  show ?thesis
    using disk_write_appends [OF small_log_ok _ sub ni _ hd, of "bytes_of ''hello''"] fits
    by (auto simp: fresh_log_def u64_simps bin_stable_def all_segs_def simp del: log_ok.simps same_log.simps)
qed



section \<open>Recovery\<close>

lemma length_segName: "20 \<le> length (segName l b)"
  by (simp add: segName_def dec_pad_def segNameWidth_def)

lemma openable_cut:
  assumes "openable w dir opts c fb pa" "stat w (dir @ [segName l b]) = Some (File x)"
  shows "openable (put (dir @ [segName l b]) (File y) w) dir opts c fb pa"
proof -
  let ?w = "put (dir @ [segName l b]) (File y) w"
  have ne: "segName l b \<noteq> forkMarkerName" "segName l b \<noteq> forkPendingName"
    using length_segName [of l b] by (auto simp: forkMarkerName_def forkPendingName_def dest: arg_cong [of _ _ length])
  have d: "stat ?w q = Some Dir \<longleftrightarrow> stat w q = Some Dir" for q using assms(2) by (auto simp: stat_put)
  have da: "dirs_above w dir" using assms(1) by (simp add: openable_def)
  then have dir: "stat w dir = Some Dir" "stat ?w dir = Some Dir" using d by (auto simp: dirs_above_def)
  have "hasSubdirs ?w dir = hasSubdirs w dir" using hasSubdirs_dir [OF dir(1)] hasSubdirs_dir [OF dir(2)] d by simp
  moreover have "hasForkPending ?w dir = hasForkPending w dir" "readForkMarker ?w dir = readForkMarker w dir"
    using ne by (auto simp: hasForkPending_def readForkMarker_def os_ReadFile_def)
  moreover have "dirs_above ?w dir" using da d by (simp add: dirs_above_def)
  ultimately show ?thesis using assms(1) by (simp add: openable_def)
qed



section \<open>The state at an index\<close>

lemma filter_enumerate_le: "filter (\<lambda>x. fst x \<le> i) (enumerate b ps) = take (Suc i - b) (enumerate b ps)"
proof (induction ps arbitrary: b)
  case (Cons p ps)
  then show ?case by (cases "b \<le> i") (auto simp: Suc_diff_le filter_empty_conv in_set_enumerate_eq)
qed simp

lemma fold_from:
  assumes hom: "\<And>h ps qs. f h (ps @ qs) = rbind (f h ps) (\<lambda>h'. f h' qs)"
  shows "headers_ok (Some f) as \<Longrightarrow> chain as \<Longrightarrow> find_seg as idx = Some (b, hs, ps) \<Longrightarrow>
    f [] pre = Inr (concat (fst (snd (hd as)))) \<Longrightarrow>
    f (concat hs) (take (Suc idx - b) ps) = f [] (pre @ map snd (filter (\<lambda>x. fst x \<le> idx) (entries as)))"
proof (induction as arbitrary: pre)
  case (Cons a as)
  obtain b1 hs1 ps1 where a: "a = (b1, hs1, ps1)" by (cases a)
  have pre: "f [] (pre @ qs) = f (concat hs1) qs" for qs using hom [of "[]" pre qs] Cons.prems(4) a by simp
  have nx: "as \<noteq> [] \<Longrightarrow> fst (hd as) = b1 + length ps1" "chain as" using Cons.prems(2) a chain_append [of "[a]" as] by auto
  have here: "filter (\<lambda>x. fst x \<le> idx) (seg_entries a) = take (Suc idx - b1) (seg_entries a)"
    by (simp add: a seg_entries_def filter_enumerate_le)
  show ?case
  proof (cases "b1 \<le> idx \<and> idx < b1 + length ps1")
    case True
    then have hit: "(b, hs, ps) = (b1, hs1, ps1)" using Cons.prems(3) a by (simp add: find_seg_def)
    have "filter (\<lambda>x. fst x \<le> idx) (entries as) = []"
      using filter_entries_le [OF nx(2)] nx(1) True by (cases "as = []") auto
    then show ?thesis using hit a pre here by (simp add: take_map [symmetric] seg_entries_def)
  next
    case False
    then have nxt: "find_seg as idx = Some (b, hs, ps)" using Cons.prems(3) a by (auto simp: find_seg_def split: if_splits)
    then obtain a2 as2 where as: "as = a2 # as2" by (cases as) (auto simp: find_seg_def)
    obtain b2 hs2 ps2 where a2: "a2 = (b2, hs2, ps2)" by (cases a2)
    have ge: "b1 + length ps1 \<le> idx"
    proof -
      have m: "(b, hs, ps) \<in> set as" "b \<le> idx" "ps \<noteq> []"
        using nxt by (auto simp: find_seg_def find_Some_iff in_set_conv_nth)
      then show ?thesis using segment_within(1) [OF nx(2) m(1,3)] nx(1) as by simp
    qed
    have st: "f [] (pre @ ps1) = Inr (concat hs2)" and hk: "headers_ok (Some f) as"
      using Cons.prems(1) pre as a a2 by auto
    then show ?thesis
      using Cons.IH [OF hk nx(2) nxt, of "pre @ ps1"] here ge as a a2 by (simp add: seg_entries_def)
  qed
qed (simp add: find_seg_def)

text \<open>C6: In header mode the state at a recorded index of a root log is the fold of all records up to it,
  wherever the segment boundaries lie, for a fold that takes a list of records in any portions.\<close>

theorem disk_state_fold:
  assumes "represents k w d (ALog segs act 0 None)" "folds (Some f) d" "map_of (entries (all_segs segs act)) idx \<noteq> None"
    "\<And>h ps qs. f h (ps @ qs) = rbind (f h ps) (\<lambda>h'. f h' qs)" "f [] [] = Inr (concat (fst (snd (hd (all_segs segs act)))))"
  shows "fst (disk_StateAt w idx d) = f [] (map snd (filter (\<lambda>x. fst x \<le> idx) (entries (all_segs segs act))))"
proof -
  let ?as = "all_segs segs act"
  obtain l where own: "own_rep (codecOf k) (frameOf k) w l segs act" "OnSegmentOpen (l_opts l) = Some f"
    using assms(1,2) by (cases d) auto
  have ch: "chain ?as" "headers_ok (Some f) ?as" using own_repD(5,6) [OF own(1)] own(2) by simp_all
  obtain p where "map_of (entries ?as) idx = Some p" using assms(3) by auto
  then obtain b hs ps where m: "(b, hs, ps) \<in> set ?as" "b \<le> idx" "idx < b + length ps"
    by (rule map_of_entries_SomeD)
  have fs: "find_seg ?as idx = Some (b, hs, ps)" using find_seg_mem [OF ch(1) m] .
  have "f (concat hs) (take (Suc idx - b) ps) = f [] (map snd (filter (\<lambda>x. fst x \<le> idx) (entries ?as)))"
    using fold_from [where f = f and pre = "[]", OF assms(4) ch(2,1) fs] assms(5) by simp
  moreover have "fst (disk_StateAt w idx d) = a_StateAt f idx (ALog segs act 0 None)"
    using any.disk_StateAt_rep [OF assms(1,2), of idx] by (metis fst_conv)
  ultimately show ?thesis using fs by simp
qed

theorem disk_state_fold_witness:
  "let opts = small_opts\<lparr>OnSegmentOpen := Some (\<lambda>h ps. Inr (h @ concat ps))\<rparr> in
   case disk_Write small_sys (DLog (fresh_log [''d''] opts BinaryCodec 0) None) 1 (bytes_of ''hello'') of (r, w, d) \<Rightarrow>
     fst (disk_StateAt w 1 d) = Inr (bytes_of ''hello'')"
proof -
  let ?f = "\<lambda>h ps. Inr (h @ concat ps) :: err + bytes"
  let ?o = "small_opts\<lparr>OnSegmentOpen := Some ?f\<rparr>"
  obtain w l where s: "disk_Write small_sys (DLog (fresh_log [''d''] ?o BinaryCodec 0) None) 1 (bytes_of ''hello'') = (Inr (), w, DLog l None)"
    "in_order Binary w (DLog l None) (ALog [] (Some (1, [[]], [bytes_of ''hello''])) 0 None)"
    "same_log small_sys (DLog (fresh_log [''d''] ?o BinaryCodec 0) None) w (DLog l None)"
    using fresh_log_written [OF refl, of ?o "[[]]"] by (auto simp: small_opts_def next_header_def all_segs_def)
  have "represents Binary w (DLog l None) (ALog [] (Some (1, [[]], [bytes_of ''hello''])) 0 None)" using s(2) by simp
  moreover have "folds (Some ?f) (DLog l None)" using s(3) by (simp add: cfg_def fresh_log_def)
  ultimately show ?thesis
    using disk_state_fold [of Binary w "DLog l None" "[]" "Some (1, [[]], [bytes_of ''hello''])" ?f 1] s(1)
    by (simp add: all_segs_def seg_entries_def del: bytes_of_simps)
qed

end
