(* ===== verification/Disk_Truncate.thy ===== *)
theory Disk_Truncate
  imports Disk_Theorems
begin

text \<open>
  Dropping sealed segments from the front of a log, and what the code makes of a log that has nothing left
  but an empty active segment.
\<close>

definition keeps :: "nat \<Rightarrow> aseg \<Rightarrow> bool" where
  "keeps beforeIdx a \<longleftrightarrow> (case a of (b, hs, ps) \<Rightarrow> beforeIdx \<le> b + length ps - 1)"

definition dropped :: "log_state \<Rightarrow> nat \<Rightarrow> aseg list \<Rightarrow> path set" where
  "dropped l beforeIdx segs = {l_dir l @ [segName l b] | b hs ps. (b, hs, ps) \<in> set segs \<and> \<not> keeps beforeIdx (b, hs, ps)}"

lemma truncate_loop_rep:
  "list_all2 (sealed_rep c F w l) sss segs \<Longrightarrow> distinct (map fst segs) \<Longrightarrow>
   \<exists>w' sss'. truncate_loop w beforeIdx sss = (Inr (filter (\<lambda>ss. beforeIdx \<le> ss_last ss) sss), w', sss') \<and>
     cacheLimit w' = cacheLimit w \<and> stat w' = (\<lambda>q. if q \<in> dropped l beforeIdx segs then None else stat w q)"
proof (induction sss arbitrary: segs w)
  case Nil
  then show ?case by (simp add: dropped_def)
next
  case (Cons ss sss)
  then obtain b hs ps segs' where sg: "segs = (b, hs, ps) # segs'" "sealed_rep c F w l ss (b, hs, ps)"
    "list_all2 (sealed_rep c F w l) sss segs'" by (auto simp: list_all2_Cons1)
  let ?p = "l_dir l @ [segName l b]"
  have d: "distinct (map fst segs')" "\<And>hs ps. (b, hs, ps) \<notin> set segs'" using Cons.prems(2) sg(1) by (auto simp: rev_image_eqI)
  have kp: "beforeIdx \<le> ss_last ss \<longleftrightarrow> keeps beforeIdx (b, hs, ps)" using sealed_repD(4) [OF sg(2)] by (simp add: keeps_def)
  have dr: "dropped l beforeIdx segs = (if keeps beforeIdx (b, hs, ps) then {} else {?p}) \<union> dropped l beforeIdx segs'"
    by (auto simp: dropped_def sg(1))
  show ?case
  proof (cases "keeps beforeIdx (b, hs, ps)")
    case True
    then show ?thesis using Cons.IH [OF sg(3) d(1)] kp dr by auto
  next
    case False
    obtain x where x: "stat w ?p = Some (File x)" using sealed_repD(5,6) [OF sg(2)] by (auto simp: file_rep_def)
    let ?w = "del ?p w"
    have "list_all2 (sealed_rep c F ?w l) sss segs'"
    proof (rule list.rel_mono_strong [OF sg(3)])
      fix ss' a assume s': "sealed_rep c F w l ss' a" "a \<in> set segs'"
      obtain b' hs' ps' where a: "a = (b', hs', ps')" by (cases a)
      have "ss_path ss' \<noteq> ?p" using s' a d(2) sealed_repD(5) by (auto simp: segName_inj)
      then show "sealed_rep c F ?w l ss' a" using sealed_rep_frame [OF s'(1)] by (simp add: stat_del)
    qed
    from Cons.IH [OF this d(1)] obtain w' sss' where r:
      "truncate_loop ?w beforeIdx sss = (Inr (filter (\<lambda>ss. beforeIdx \<le> ss_last ss) sss), w', sss')"
      "cacheLimit w' = cacheLimit w" "stat w' = (\<lambda>q. if q \<in> dropped l beforeIdx segs' then None else stat ?w q)" by auto
    have "os_Remove w (ss_path ss) = (Inr (), ?w)" using x sealed_repD(5) [OF sg(2)] by (simp add: os_Remove_def)
    then show ?thesis using r kp dr False by (auto simp: fun_eq_iff stat_del)
  qed
qed

lemma keeps_later:
  assumes "chain ((b, hs, ps) # r)" "keeps i (b, hs, ps)" "a \<in> set r" "\<forall>(b, hs, ps)\<in>set r. ps \<noteq> []"
  shows "keeps i a"
proof -
  obtain b' hs' ps' where a: "a = (b', hs', ps')" by (cases a)
  obtain j where j: "j < length r" "r ! j = a" using assms(3) by (metis in_set_conv_nth)
  have "b + length ps \<le> b'" using chain_lasts [OF assms(1), of 0 "Suc j"] j a by simp
  moreover have "ps' \<noteq> []" using assms(3,4) a by auto
  ultimately show ?thesis using assms(2) a by (cases ps') (auto simp: keeps_def)
qed

text \<open>What is dropped is a prefix of the segments.\<close>

lemma keeps_suffix:
  assumes "chain segs" "\<forall>(b, hs, ps)\<in>set segs. ps \<noteq> []"
  shows "\<exists>pre. segs = pre @ filter (keeps i) segs \<and> (\<forall>a\<in>set pre. \<not> keeps i a)"
  using assms
proof (induction segs)
  case (Cons a r)
  obtain b hs ps where a: "a = (b, hs, ps)" by (cases a)
  show ?case
  proof (cases "keeps i a")
    case True
    then have "filter (keeps i) (a # r) = a # r" using keeps_later [of b hs ps r i] Cons.prems a by (auto simp: filter_id_conv)
    then show ?thesis by (intro exI [of _ "[]"]) simp
  next
    case False
    have "chain r" using Cons.prems(1) chain_append [of "[a]" r] by simp
    then obtain pre where "r = pre @ filter (keeps i) r" "\<forall>a\<in>set pre. \<not> keeps i a" using Cons by auto
    then show ?thesis using False by (intro exI [of _ "a # pre"]) simp
  qed
qed simp

lemma headers_ok_suffix: "headers_ok fo (as @ bs) \<Longrightarrow> headers_ok fo bs"
proof (induction as)
  case (Cons a as)
  then have "headers_ok fo (as @ bs)" by (cases fo; cases a; cases "as @ bs") auto
  with Cons show ?case by simp
qed simp

lemma own_rep_bases_distinct:
  assumes "own_rep c F w l segs act"
  shows "distinct (map fst segs)"
proof -
  have "chain segs" using own_repD(5) [OF assms] by (simp add: all_segs_def chain_append)
  moreover have "\<forall>(b, hs, ps)\<in>set (butlast segs). ps \<noteq> []"
    using own_rep_sealed_nonempty [OF assms] in_set_butlastD by fast
  ultimately show ?thesis using bases_sorted strict_sorted_iff by blast
qed

lemma list_all2_filter:
  "list_all2 P xs ys \<Longrightarrow> (\<And>x y. P x y \<Longrightarrow> Q x = R y) \<Longrightarrow> list_all2 P (filter Q xs) (filter R ys)"
  by (induction xs ys rule: list_all2_induct) auto

lemma dropped_iff:
  assumes "distinct (map fst segs)" "(b, hs, ps) \<in> set segs"
  shows "l_dir l @ [segName l b] \<in> dropped l i segs \<longleftrightarrow> \<not> keeps i (b, hs, ps)"
proof -
  have u: "(hs', ps') = (hs, ps)" if "(b, hs', ps') \<in> set segs" for hs' ps'
    using eq_key_imp_eq_value [OF assms(1) that assms(2)] .
  show ?thesis
  proof
    assume "l_dir l @ [segName l b] \<in> dropped l i segs"
    then obtain hs' ps' where "(b, hs', ps') \<in> set segs" "\<not> keeps i (b, hs', ps')" by (auto simp: dropped_def segName_inj)
    then show "\<not> keeps i (b, hs, ps)" using u by blast
  next
    assume "\<not> keeps i (b, hs, ps)"
    then show "l_dir l @ [segName l b] \<in> dropped l i segs" using assms(2) unfolding dropped_def by blast
  qed
qed

lemma disk_TruncateFront_rep:
  assumes rep: "own_rep c F w l segs act" and dir: "dir_rep w l (all_segs segs act)"
  shows "\<exists>w' l'. disk_TruncateFront w (DLog l pa) i = (Inr (), w', DLog l' pa) \<and> cfg l' = cfg l \<and>
    own_rep c F w' l' (filter (keeps i) segs) act \<and> dir_rep w' l' (all_segs (filter (keeps i) segs) act) \<and>
    only_in (l_dir l) w w'"
proof -
  let ?segs = "filter (keeps i) segs"
  have ne: "\<forall>(b, hs, ps)\<in>set segs. ps \<noteq> []" using own_rep_sealed_nonempty [OF rep] by auto
  have ch: "chain segs" using own_repD(5) [OF rep] by (simp add: all_segs_def chain_append)
  obtain w' sss' where t: "truncate_loop w i (sealed l) = (Inr (filter (\<lambda>ss. i \<le> ss_last ss) (sealed l)), w', sss')"
    "cacheLimit w' = cacheLimit w" "stat w' = (\<lambda>q. if q \<in> dropped l i segs then None else stat w q)"
    using truncate_loop_rep [OF own_repD(3) [OF rep] own_rep_bases_distinct [OF rep], of i] by blast
  let ?l = "l\<lparr>sealed := filter (\<lambda>ss. i \<le> ss_last ss) (sealed l)\<rparr>"
  obtain pre where pre: "segs = pre @ ?segs" using keeps_suffix [OF ch ne] by blast
  have "list_all2 (sealed_rep c F w l) (sealed ?l) ?segs"
    using list_all2_filter [OF own_repD(3) [OF rep], of "\<lambda>ss. i \<le> ss_last ss" "keeps i"]
    by (simp add: keeps_def sealed_rep_def split: prod.splits)
  then have sealed: "list_all2 (sealed_rep c F w' l) (sealed ?l) ?segs"
  proof (rule list.rel_mono_strong)
    fix ss a assume s: "sealed_rep c F w l ss a" "a \<in> set ?segs"
    obtain b hs ps where a: "a = (b, hs, ps)" by (cases a)
    have "ss_path ss \<notin> dropped l i segs"
      using s a dropped_iff [OF own_rep_bases_distinct [OF rep], of b hs ps l i] sealed_repD(5) by fastforce
    then show "sealed_rep c F w' l ss a" using sealed_rep_frame [OF s(1)] t(3) by simp
  qed
  have act: "active_rep c F w' l (active l) act"
  proof (cases act)
    case (Some a)
    obtain b hs ps where a: "a = (b, hs, ps)" by (cases a)
    have "l_dir l @ [segName l b] \<notin> dropped l i segs"
      using active_base_new(1) [OF rep, of b hs ps] own_repD(5) [OF rep] Some a
      by (auto simp: dropped_def segName_inj all_segs_def)
    then have "stat w' (l_dir l @ [segName l b]) = stat w (l_dir l @ [segName l b])" using t(3) by simp
    then show ?thesis
      using own_repD(4) [OF rep] Some a seg_rep_frame [of c F w _ hs ps w'] unfolding active_rep_iff by auto
  qed (use own_repD(4) [OF rep] in \<open>auto simp: active_rep_iff\<close>)
  have all: "all_segs segs act = pre @ all_segs ?segs act" using arg_cong [OF pre, of "\<lambda>x. all_segs x act"] by (simp add: all_segs_def)
  have ok: "chain (all_segs ?segs act)" "headers_ok (OnSegmentOpen (l_opts l)) (all_segs ?segs act)"
    using own_repD(5,6) [OF rep] headers_ok_suffix chain_append unfolding all by blast+
  have drop: "stat w q \<noteq> Some Dir \<and> butlast q = l_dir l \<and> seg_file (last q)" if q: "q \<in> dropped l i segs" for q
  proof -
    obtain b hs ps where b: "q = l_dir l @ [segName l b]" "(b, hs, ps) \<in> set segs" using q by (auto simp: dropped_def)
    then show ?thesis
      using own_rep_sealed_mem [OF rep b(2)] sealed_repD(5,6) seg_file_segName [OF dir] by (fastforce simp: file_rep_def)
  qed
  have "n \<in> segName l ` fst ` set (all_segs ?segs act)"
    if n: "stat w' (l_dir l @ [n]) \<noteq> None" "\<exists>e\<in>set knownExts. HasSuffix n e" for n
  proof -
    have nd: "l_dir l @ [n] \<notin> dropped l i segs" and "stat w (l_dir l @ [n]) \<noteq> None" using n(1) t(3) by (auto split: if_splits)
    then have "n \<in> segName l ` fst ` set (all_segs segs act)" using dir n(2) by (simp add: dir_rep_def)
    then obtain b hs ps where m: "(b, hs, ps) \<in> set (all_segs segs act)" "n = segName l b" by auto
    then have "(b, hs, ps) \<in> set (all_segs ?segs act)" using nd by (auto simp: all_segs_def dropped_def)
    then show ?thesis using m(2) by force
  qed
  moreover have "stat w' (l_dir l) = Some Dir" using dir t(3) drop by (auto simp: dir_rep_def)
  ultimately have "dir_rep w' l (all_segs ?segs act)" using dir by (simp add: dir_rep_def)
  moreover have "only_in (l_dir l) w w'" using t(2,3) drop by (auto simp: only_in_def dropped_def)
  moreover have "own_rep c F w' ?l ?segs act" using rep sealed act ok by (simp add: own_rep_def)
  ultimately show ?thesis using t(1) by (auto simp: disk_TruncateFront_def)
qed


text \<open>The small log with its record sealed behind an empty active segment.\<close>

lemma small_log_rotated:
  "\<exists>w l. in_order Binary w (DLog l None) (ALog [(1, [], [bytes_of ''hello''])] (Some (2, [], [])) 0 None) \<and>
     same_log small_sys (DLog small_log None) w (DLog l None)"
proof -
  obtain w l where s: "in_order Binary w (DLog l None) (ALog [] (Some (1, [], [bytes_of ''hello''])) 0 None)"
    "same_log small_sys (DLog small_log None) w (DLog l None)" using small_log_written by blast
  have rep: "own_rep BinaryCodec bin_frame w l [] (Some (1, [], [bytes_of ''hello'']))" using s(1) by simp
  obtain sg where sg: "active l = Some sg" using own_repD(4) [OF rep] by (auto simp: active_rep_iff)
  let ?l = "l\<lparr>sealed := sealed l @ [wrapOpen sg], active := None\<rparr>" and ?segs = "[(1, [], [bytes_of ''hello''])]"
  have ok: "in_order Binary w (DLog ?l None) (ALog ?segs None 0 None)"
    using s(1) binary.seal_rep [OF rep _ sg] by (simp add: all_segs_def del: bytes_of_simps)
  have ni: "2 = next_index (ALog ?segs None 0 None)" by (simp add: next_index_def all_segs_def seg_entries_def)
  have nh: "next_header (OnSegmentOpen (l_opts ?l)) (ALog ?segs None 0 None) = Inr []"
    using s(2) by (simp add: next_header_def cfg_def fresh_log_def small_opts_def)
  obtain w1 d1 where o: "in_order Binary w1 d1 (ALog ?segs (Some (2, [], [])) 0 None)" "same_log w (DLog ?l None) w1 d1"
    using any.open_append_rep [OF ok ni _ nh, of "[]"] by (auto simp: u64_simps bin_stable_def simp del: log_ok.simps same_log.simps)
  moreover obtain l1 where "d1 = DLog l1 None" using o(1) by (cases d1) (auto split: option.splits)
  moreover have "same_log w (DLog l None) w1 d1" using o(2) by (cases d1) simp
  ultimately show ?thesis using same_log_trans [OF s(2)] by blast
qed


section \<open>A log that forgets where it is\<close>

text \<open>C14: When truncation drops every sealed segment and the active one is empty, the log counts as
  empty: it then asks for its first index again, and refuses a write at the index that follows the records
  it had, even though the active segment is named for that index.\<close>

theorem disk_truncate_forgets:
  assumes "in_order k w (DLog l pa) (ALog segs (Some (b, hs, [])) fb pb)" "\<forall>a\<in>set segs. \<not> keeps i a"
    "\<not> l_readOnly l" "hasSubdirs w (l_dir l) = Inr False" "b \<noteq> max 1 fb"
  shows "\<exists>w' d'. disk_TruncateFront w (DLog l pa) i = (Inr (), w', d') \<and>
    disk_Write w' d' b p = (Inl (ErrOutOfOrder b (max 1 fb)), w', d')"
proof -
  have rep: "own_rep (codecOf k) (frameOf k) w l segs (Some (b, hs, []))" and dir: "dir_rep w l (all_segs segs (Some (b, hs, [])))"
    and fb: "forkBase l = fb" using assms(1) by simp_all
  obtain w' l' where t: "disk_TruncateFront w (DLog l pa) i = (Inr (), w', DLog l' pa)" "cfg l' = cfg l"
    "own_rep (codecOf k) (frameOf k) w' l' (filter (keeps i) segs) (Some (b, hs, []))" "only_in (l_dir l) w w'"
    using disk_TruncateFront_rep [OF rep dir] by blast
  have "filter (keeps i) segs = []" using assms(2) by (simp add: filter_empty_conv)
  then have "isEmptyLocked l'" using isEmptyLocked_rep [OF t(3)] by (simp add: all_segs_def seg_entries_def)
  then have "expectedIndex l' = max 1 fb" using t(2) fb by (auto simp: expectedIndex_def cfg_def)
  moreover have "hasSubdirs w' (l_dir l) = Inr False"
  proof -
    have d: "stat w (l_dir l) = Some Dir" "stat w' (l_dir l) = Some Dir" using dir only_in_dir [OF t(4)] by (auto simp: dir_rep_def)
    show ?thesis using assms(4) only_in_dir [OF t(4)] by (simp add: hasSubdirs_dir [OF d(1)] hasSubdirs_dir [OF d(2)])
  qed
  ultimately show ?thesis using t(1,2) assms(3,5) by (auto simp: disk_Write_def cfg_def)
qed

theorem disk_truncate_forgets_witness:
  "\<exists>w l w' d'. in_order Binary w (DLog l None) (ALog [(1, [], [bytes_of ''hello''])] (Some (2, [], [])) 0 None) \<and>
    disk_TruncateFront w (DLog l None) 2 = (Inr (), w', d') \<and>
    disk_Write w' d' 2 (bytes_of ''world'') = (Inl (ErrOutOfOrder 2 1), w', d')"
proof -
  obtain w l where s: "in_order Binary w (DLog l None) (ALog [(1, [], [bytes_of ''hello''])] (Some (2, [], [])) 0 None)"
    "same_log small_sys (DLog small_log None) w (DLog l None)"
    using small_log_rotated by blast
  have l: "l_dir l = [''d'']" "\<not> l_readOnly l" using s(2) by (auto simp: cfg_def fresh_log_def)
  have only: "only_in [''d''] small_sys w" using s(2) by (simp add: fresh_log_def)
  have dir: "stat w q = Some Dir \<longleftrightarrow> q = [] \<or> q = [''d'']" for q
    using only_in_dir [OF only, of q] by (auto simp: small_sys_def stat_def split: if_splits)
  have "hasSubdirs w (l_dir l) = Inr False" using l(1) dir by (simp add: hasSubdirs_dir)
  then show ?thesis
    using disk_truncate_forgets [OF s(1), of 2 "bytes_of ''world''"] s(1) l(2)
    by (auto simp: keeps_def simp del: log_ok.simps bytes_of_simps)
qed

section \<open>A walk that does not end\<close>

text \<open>
  An opened sealed segment that holds fewer records than its name range says, with the walk behind the
  last one it holds.
\<close>

definition short_sealed :: "sys \<Rightarrow> log_state \<Rightarrow> nat \<Rightarrow> nat \<Rightarrow> segment \<Rightarrow> bool" where
  "short_sealed w l cur i s \<longleftrightarrow> findSegmentLocked w l cur = (Inr (Some (SealedAt i, s)), l) \<and>
     i < length (sealed l) \<and> ss_seg (sealed l ! i) = Some s \<and> seg_LastIndex s + 1 = cur \<and> cur < u64_lim"

lemma range_loop_stuck:
  "range_loop w fn lst l cur st = Some r \<Longrightarrow> cur \<le> lst \<Longrightarrow> \<not> short_sealed w l cur i s"
proof (induction rule: range_loop.raw_induct [rotated 1, consumes 1, case_names step])
  case (step range_loop w fn lst l cur st r)
  show ?case
  proof
    assume sh: "short_sealed w l cur i s"
    then have f: "findSegmentLocked w l cur = (Inr (Some (SealedAt i, s)), l)" "seg_LastIndex s + 1 = cur" "cur < u64_lim"
      and b: "i < length (sealed l)" "ss_seg (sealed l ! i) = Some s" by (simp_all add: short_sealed_def)
    have "put_seg (SealedAt i) s l = l" using b by (simp add: put_seg_def list_update_same_conv)
    then have "range_loop w fn lst l cur st = Some r" using step f by (simp add: u64_simps del: upt_Suc)
    then show False using step sh by blast
  qed
qed

text \<open>C13: The upward walk does not return once it is behind the last record of a sealed segment that has
  fewer records than the names of the segment files promise, as after losing the end of a sealed file:
  it keeps finding the same segment, reads nothing, and stays where it is.\<close>

theorem disk_range_stuck:
  assumes "short_sealed w l cur i s" "cur \<le> lst"
  shows "range_loop w fn lst l cur st = None"
  using range_loop_stuck [of w fn lst l cur st _ i s] assms by (cases "range_loop w fn lst l cur st") auto

text \<open>A sealed segment named for the indices 1 and 2 of which only record 1 was recovered.\<close>

definition short_seg :: segment where
  "short_seg = (seg_new [''d'', ''00000000000000000001.seg''] BinaryCodec 1 64 True False)\<lparr>size := 13, count := 1, offsets := [0]\<rparr>"

definition short_log :: log_state where
  "short_log = small_log\<lparr>sealed := [(newSealed 1 2 [''d'', ''00000000000000000001.seg''])\<lparr>ss_seg := Some short_seg, ss_once := True\<rparr>]\<rparr>"

theorem disk_range_stuck_witness: "range_loop small_sys (\<lambda>st x. (st @ [x], None)) 3 short_log 2 [] = None"
proof (rule disk_range_stuck [where i = 0 and s = short_seg])
  have "sealedFor (sealed short_log) 2 = Some 0"
    by (simp add: short_log_def sealedFor_def searchSealed_def newSealed_def search_loop.simps [of _ 2 0 "Suc 0"]
        search_loop.simps [of _ 2 0 0])
  then show "short_sealed small_sys short_log 2 0 short_seg"
    by (simp add: short_sealed_def short_log_def short_seg_def findSegmentLocked_def
        newSealed_def openSealed_def ss_open_def fresh_log_def seg_new_def seg_LastIndex_def u64_simps)
qed simp

end
