(* ===== verification/Disk_Fork.thy ===== *)
theory Disk_Fork
  imports Disk_Truncate
begin

text \<open>
  Forking a log (\<^verbatim>\<open>disk/fork.go\<close>): the log keeps the records below an index and becomes
  read-only, those from the index on move into a directory of their own, the old future, and a new empty
  child starts at the index. The steps are the phases of \<^verbatim>\<open>forkImpl\<close> in their order. What a
  failing step leaves behind stays; the sentinel file is taken away again as the code does. That a file handle
  is closed is not part of the state.
\<close>

section \<open>What is asked for\<close>

datatype segAction = ActKeep | ActMove | ActSplit

definition path_Base :: "path \<Rightarrow> string" where
  "path_Base p = (if p = [] then ''/'' else last p)"

definition fork_index_ok :: "log_state \<Rightarrow> nat \<Rightarrow> err + unit" where
  "fork_index_ok l atIdx =
     (let first = firstIndexLocked l; lst = lastIndexLocked l in
      if isEmptyLocked l then
        if atIdx \<noteq> (if forkBase l = 0 then 1 else forkBase l) then Inl (ErrMsg ''fork index invalid for empty log'')
        else Inr ()
      else if \<not> (atIdx > first \<or> forkBase l > 0 \<and> atIdx = first) \<or> atIdx > u64_add lst 1
      then Inl (ErrMsg ''fork index out of range'')
      else Inr ())"

text \<open>The name of the old future and the children there are, or why the fork is refused.\<close>

definition fork_admit :: "sys \<Rightarrow> log_state \<Rightarrow> nat \<Rightarrow> string \<Rightarrow> string \<Rightarrow> err + string \<times> string list" where
  "fork_admit w l atIdx childName oldFutureName =
     rbind (validateForkName childName) (\<lambda>_.
     rbind (if oldFutureName = '''' then Inr (path_Base (l_dir l))
            else rbind (validateForkName oldFutureName) (\<lambda>_. Inr oldFutureName)) (\<lambda>old.
     if childName = old then Inl ErrForkConflict
     else rbind (fork_index_ok l atIdx) (\<lambda>_.
       if pathExists w (l_dir l @ [childName]) then Inl ErrForkConflict
       else rbind (childSubdirs w (l_dir l)) (\<lambda>kids. Inr (old, kids)))))"

section \<open>The plan\<close>

definition sealActive :: "log_state \<Rightarrow> log_state" where
  "sealActive l = (case active l of
     Some s \<Rightarrow> if count s > 0 then l\<lparr>sealed := sealed l @ [wrapOpen s], active := None\<rparr> else l
   | None \<Rightarrow> l)"

text \<open>The state at the fork point, which the new branches start from in header mode.\<close>

definition fork_watermark :: "sys \<Rightarrow> dlog \<Rightarrow> nat \<Rightarrow> bool \<Rightarrow> (err + bytes) \<times> dlog" where
  "fork_watermark w d atIdx noRecords = (case d of DLog l pa \<Rightarrow>
     (case OnSegmentOpen (l_opts l) of
        None \<Rightarrow> (Inr [], d)
      | Some f \<Rightarrow>
          if noRecords then (case active l of
              Some s \<Rightarrow> (Inr (s_header s), d)
            | None \<Rightarrow> (case pa of
                Some p \<Rightarrow> if atIdx > 1
                  then (case disk_StateAt w (atIdx - 1) p of (r, p') \<Rightarrow> (r, DLog l (Some p')))
                  else (f [] [], d)
              | None \<Rightarrow> (f [] [], d)))
          else disk_StateAt w (u64_sub atIdx 1) d))"

definition segActionOf :: "nat \<Rightarrow> sealedSeg \<Rightarrow> segAction" where
  "segActionOf atIdx ss =
     (if ss_last ss < atIdx then ActKeep else if ss_base ss \<ge> atIdx then ActMove else ActSplit)"

record fork_plan =
  fp_actions :: "segAction list"
  fp_rehome :: "string list"
  fp_old :: string
  fp_create :: bool

definition fork_plan_of :: "sys \<Rightarrow> log_state \<Rightarrow> nat \<Rightarrow> string \<Rightarrow> bool \<Rightarrow> string list \<Rightarrow> string list \<Rightarrow> bool \<Rightarrow>
    err + fork_plan" where
  "fork_plan_of w l atIdx old explicit kids rehome autoRehome =
     (let actions = map (segActionOf atIdx) (sealed l);
          dataMoves = ActMove \<in> set actions \<or> ActSplit \<in> set actions;
          rehomeChildren = (if autoRehome then (if dataMoves then kids else [])
                            else filter (\<lambda>name. pathExists w (l_dir l @ [name])) rehome);
          create = explicit \<or> dataMoves \<or> rehomeChildren \<noteq> [] in
      if create \<and> pathExists w (l_dir l @ [old]) then Inl ErrForkConflict
      else Inr \<lparr>fp_actions = actions, fp_rehome = rehomeChildren, fp_old = old, fp_create = create\<rparr>)"

section \<open>The steps\<close>

definition writeWatermarkSeg :: "sys \<Rightarrow> log_state \<Rightarrow> nat \<Rightarrow> bytes \<Rightarrow> path \<Rightarrow> (err + unit) \<times> sys" where
  "writeWatermarkSeg w l atIdx wm dir =
     sbind (seg_Create w (dir @ [segName l atIdx]) (l_codec l) atIdx (SegmentSize (l_opts l))) (\<lambda>s w.
     sbind (seg_WriteHeader w s wm) (\<lambda>_ w. (Inr (), w)))"

definition fork_watermarks :: "sys \<Rightarrow> log_state \<Rightarrow> fork_plan \<Rightarrow> nat \<Rightarrow> bytes \<Rightarrow> path \<Rightarrow> path \<Rightarrow> (err + unit) \<times> sys" where
  "fork_watermarks w l fp atIdx wm newDir oldDir =
     (if \<not> headerMode l then (Inr (), w)
      else sbind (writeWatermarkSeg w l atIdx wm newDir) (\<lambda>_ w.
        let boundary = ActSplit \<in> set (fp_actions fp) \<or>
              list_ex (\<lambda>(a, ss). a = ActMove \<and> ss_base ss = atIdx) (zip (fp_actions fp) (sealed l)) in
        if fp_create fp \<and> \<not> boundary then writeWatermarkSeg w l atIdx wm oldDir else (Inr (), w)))"

text \<open>Copying records of a segment into a new file, behind a header in header mode.\<close>

fun copy_records :: "sys \<Rightarrow> segment \<Rightarrow> segment \<Rightarrow> nat list \<Rightarrow> (err + unit) \<times> sys \<times> segment" where
  "copy_records w s dst [] = (Inr (), w, s)"
| "copy_records w s dst (j # js) = (case seg_ReadIndex w s j of
     (Inl e, s') \<Rightarrow> (Inl e, w, s')
   | (Inr p, s') \<Rightarrow> (case seg_Append w dst p of
       (Inl e, w) \<Rightarrow> (Inl e, w, s')
     | (Inr (_, dst'), w) \<Rightarrow> copy_records w s' dst' js))"

definition write_part :: "sys \<Rightarrow> path \<Rightarrow> codec \<Rightarrow> nat \<Rightarrow> bytes option \<Rightarrow> segment \<Rightarrow> nat list \<Rightarrow>
    (err + unit) \<times> sys \<times> segment" where
  "write_part w p c base hdr s js = (case seg_Create w p c base 0 of
     (Inl e, w) \<Rightarrow> (Inl e, w, s)
   | (Inr dst, w) \<Rightarrow> (case hdr of
       None \<Rightarrow> copy_records w s dst js
     | Some h \<Rightarrow> (case seg_WriteHeader w dst h of
         (Inl e, w) \<Rightarrow> (Inl e, w, s)
       | (Inr dst', w) \<Rightarrow> copy_records w s dst' js)))"

definition tmp_of :: "path \<Rightarrow> path" where
  "tmp_of p = butlast p @ [last p @ ''.tmp'']"

text \<open>The boundary segment: its first records stay in a file that replaces it, the others go to the old future.\<close>

definition split_segment :: "sys \<Rightarrow> log_state \<Rightarrow> segment \<Rightarrow> nat \<Rightarrow> path \<Rightarrow> bytes \<Rightarrow> (err + segment) \<times> sys \<times> segment" where
  "split_segment w l s atIdx oldDir wm =
     (let cut = u64_sub atIdx (baseIndex s); prefixPath = s_path s; hm = headerMode l in
      case write_part w (tmp_of prefixPath) (l_codec l) (baseIndex s) (if hm then Some (s_header s) else None) s [0..<cut] of
        (Inl e, w, s) \<Rightarrow> (Inl e, w, s)
      | (Inr _, w, s) \<Rightarrow>
        (case write_part w (oldDir @ [segName l atIdx]) (l_codec l) atIdx (if hm then Some wm else None) s [cut..<count s] of
           (Inl e, w, s) \<Rightarrow> (Inl e, w, s)
         | (Inr _, w, s) \<Rightarrow>
           (case os_Rename w (tmp_of prefixPath) prefixPath of
              (Inl e, w) \<Rightarrow> (Inl e, w, seg_Close s)
            | (Inr _, w) \<Rightarrow> (case seg_openRO w prefixPath (l_codec l) (baseIndex s) hm of
                (r, w) \<Rightarrow> (r, w, seg_Close s)))))"

definition first_split :: "segAction list \<Rightarrow> nat option" where
  "first_split acts = (if ActSplit \<in> set acts then Some (length (takeWhile (\<lambda>a. a \<noteq> ActSplit) acts)) else None)"

definition fork_split :: "sys \<Rightarrow> log_state \<Rightarrow> fork_plan \<Rightarrow> nat \<Rightarrow> path \<Rightarrow> bytes \<Rightarrow>
    (err + segment option) \<times> sys \<times> log_state" where
  "fork_split w l fp atIdx oldDir wm = (case first_split (fp_actions fp) of
     None \<Rightarrow> (Inr None, w, l)
   | Some i \<Rightarrow> (case ss_seg (sealed l ! i) of
       None \<Rightarrow> (Inl (ErrMsg ''nil segment''), w, l)
     | Some s \<Rightarrow> (case split_segment w l s atIdx oldDir wm of
         (r, w, s') \<Rightarrow> (rbind r (\<lambda>pre. Inr (Some pre)), w, put_seg (SealedAt i) s' l))))"

fun move_segs :: "sys \<Rightarrow> path \<Rightarrow> (segAction \<times> sealedSeg) list \<Rightarrow> (err + unit) \<times> sys" where
  "move_segs w oldDir [] = (Inr (), w)"
| "move_segs w oldDir ((a, ss) # r) =
     (if a \<noteq> ActMove then move_segs w oldDir r
      else (case ss_seg ss of
          None \<Rightarrow> (Inl (ErrMsg ''nil segment''), w)
        | Some s \<Rightarrow> sbind (os_Rename w (s_path s) (oldDir @ [last (s_path s)])) (\<lambda>_ w. move_segs w oldDir r)))"

fun rehome_all :: "sys \<Rightarrow> path \<Rightarrow> path \<Rightarrow> string list \<Rightarrow> (err + unit) \<times> sys" where
  "rehome_all w dir oldDir [] = (Inr (), w)"
| "rehome_all w dir oldDir (n # ns) =
     sbind (os_Rename w (dir @ [n]) (oldDir @ [n])) (\<lambda>_ w. rehome_all w dir oldDir ns)"

text \<open>The sealed segments that stay, with the split one replaced by its first part.\<close>

definition rebuilt :: "fork_plan \<Rightarrow> segment option \<Rightarrow> sealedSeg list \<Rightarrow> sealedSeg list" where
  "rebuilt fp pre sss = concat (map (\<lambda>(a, ss). case a of
     ActKeep \<Rightarrow> [ss]
   | ActSplit \<Rightarrow> (case pre of Some s \<Rightarrow> [wrapOpen s] | None \<Rightarrow> [])
   | ActMove \<Rightarrow> []) (zip (fp_actions fp) sss))"

definition pending_body :: "nat \<Rightarrow> string \<Rightarrow> string \<Rightarrow> bytes" where
  "pending_body atIdx childName old =
     bytes_of (''at='' @ dec atIdx @ [CHR 10] @ ''child='' @ childName @ [CHR 10] @ ''old='' @ old @ [CHR 10])"

text \<open>The changes on disk between the sentinel and its removal.\<close>

definition fork_apply :: "sys \<Rightarrow> log_state \<Rightarrow> fork_plan \<Rightarrow> nat \<Rightarrow> string \<Rightarrow> bytes \<Rightarrow> (err + unit) \<times> sys \<times> log_state" where
  "fork_apply w l fp atIdx childName wm =
     (let oldDir = l_dir l @ [fp_old fp]; newDir = l_dir l @ [childName] in
      case sbind (if fp_create fp then os_MkdirAll w oldDir else (Inr (), w)) (\<lambda>_ w.
           sbind (os_MkdirAll w newDir) (\<lambda>_ w. fork_watermarks w l fp atIdx wm newDir oldDir)) of
        (Inl e, w) \<Rightarrow> (Inl e, w, l)
      | (Inr _, w) \<Rightarrow>
        (case fork_split w l fp atIdx oldDir wm of
           (Inl e, w, l) \<Rightarrow> (Inl e, w, l)
         | (Inr pre, w, l) \<Rightarrow>
           (case sbind (move_segs w oldDir (zip (fp_actions fp) (sealed l))) (\<lambda>_ w.
                 sbind (rehome_all w (l_dir l) oldDir (fp_rehome fp)) (\<lambda>_ w.
                 sbind (if fp_create fp then writeForkMarker w oldDir atIdx else (Inr (), w)) (\<lambda>_ w.
                 writeForkMarker w newDir atIdx))) of
              (Inl e, w) \<Rightarrow> (Inl e, w, l)
            | (Inr _, w) \<Rightarrow>
              (Inr (), w, l\<lparr>sealed := rebuilt fp pre (sealed l), active := None, l_readOnly := True\<rparr>))))"

definition forkImpl :: "sys \<Rightarrow> dlog \<Rightarrow> nat \<Rightarrow> string \<Rightarrow> string \<Rightarrow> bool \<Rightarrow> string list \<Rightarrow> bool \<Rightarrow>
    (err + dlog) \<times> sys \<times> dlog" where
  "forkImpl w d atIdx childName oldFutureName explicit rehome autoRehome = (case d of DLog l pa \<Rightarrow>
     (case fork_admit w l atIdx childName oldFutureName of
        Inl e \<Rightarrow> (Inl e, w, d)
      | Inr (old, kids) \<Rightarrow>
        (case materializeLocked w (sealActive l) of
           (Inl e, l) \<Rightarrow> (Inl e, w, DLog l pa)
         | (Inr _, l1) \<Rightarrow>
           (case fork_watermark w (DLog l1 pa) atIdx (isEmptyLocked l) of
              (Inl e, d) \<Rightarrow> (Inl e, w, d)
            | (Inr wm, DLog l pa) \<Rightarrow>
              (case fork_plan_of w l atIdx old explicit kids rehome autoRehome of
                 Inl e \<Rightarrow> (Inl e, w, DLog l pa)
               | Inr fp \<Rightarrow>
                 let pending = l_dir l @ [forkPendingName] in
                 (case os_WriteFile w pending (pending_body atIdx childName old) of
                    (Inl e, w) \<Rightarrow> (Inl e, w, DLog l pa)
                  | (Inr _, w) \<Rightarrow>
                    (case fork_apply w l fp atIdx childName wm of
                       (Inl e, w, l) \<Rightarrow> (Inl e, snd (os_Remove w pending), DLog l pa)
                     | (Inr _, w, l) \<Rightarrow>
                       (case os_Remove w pending of
                          (Inl e, w) \<Rightarrow> (Inl e, w, DLog l pa)
                        | (Inr _, w) \<Rightarrow>
                          (case disk_Open w (l_dir l @ [childName]) (l_opts l) (Some (DLog l pa)) of
                             (r, w) \<Rightarrow> (r, w, DLog l pa)))))))))) "

definition disk_Fork :: "sys \<Rightarrow> dlog \<Rightarrow> nat \<Rightarrow> string \<Rightarrow> string list \<Rightarrow> (err + dlog) \<times> sys \<times> dlog" where
  "disk_Fork w d atIdx childName opt =
     (if length opt > 1 then (Inl (ErrMsg ''Fork: at most one oldFutureName override permitted''), w, d)
      else let old = (if length opt = 1 then opt ! 0 else '''') in
        forkImpl w d atIdx childName old (old \<noteq> '''') [] True)"

definition disk_ForkRehome :: "sys \<Rightarrow> dlog \<Rightarrow> nat \<Rightarrow> string \<Rightarrow> string \<Rightarrow> string list \<Rightarrow> (err + dlog) \<times> sys \<times> dlog" where
  "disk_ForkRehome w d atIdx childName oldFutureName rehome =
     forkImpl w d atIdx childName oldFutureName (oldFutureName \<noteq> '''') rehome False"

end
