(* ===== verification/Disk_Store.thy ===== *)
theory Disk_Store
  imports Disk_Log
begin

text \<open>
  The store of open logs (\<^verbatim>\<open>disk/store.go\<close>): logs by directory, each opened once, parents
  through the same store. Paths are absolute and clean, so \<^verbatim>\<open>filepath.Abs\<close> and
  \<^verbatim>\<open>filepath.Clean\<close> do nothing here. At the root directory, which is its own parent, a
  marker would make the recursion endless; the model has an error there.
\<close>

record dstore =
  ds_logs :: "(path \<times> dlog) list"
  ds_closed :: bool

definition NewStore :: dstore where
  "NewStore = \<lparr>ds_logs = [], ds_closed = False\<rparr>"

function store_Open :: "sys \<Rightarrow> dstore \<Rightarrow> path \<Rightarrow> options \<Rightarrow> dlog option \<Rightarrow> (err + dlog) \<times> sys \<times> dstore" where
  "store_Open w st dir opts par =
     (if ds_closed st then (Inl (ErrMsg ''log store is closed''), w, st)
      else (case map_of (ds_logs st) dir of
          Some l \<Rightarrow> (Inr l, w, st)
        | None \<Rightarrow>
          (case (case par of
                   Some p \<Rightarrow> (Inr (Some p), w, st)
                 | None \<Rightarrow> (case readForkMarker w dir of
                     Inl e \<Rightarrow> (Inl e, w, st)
                   | Inr base \<Rightarrow>
                       if base > 0 then
                         if dir = [] then (Inl (ErrMsg ''stack overflow''), w, st)
                         else (case store_Open w st (butlast dir) opts None of
                             (Inl e, w, st) \<Rightarrow> (Inl e, w, st)
                           | (Inr p, w, st) \<Rightarrow> (Inr (Some p), w, st))
                       else (Inr None, w, st))) of
             (Inl e, w, st) \<Rightarrow> (Inl e, w, st)
           | (Inr par', w, st) \<Rightarrow>
             (case disk_Open w dir opts par' of
                (Inl e, w) \<Rightarrow> (Inl e, w, st)
              | (Inr l, w) \<Rightarrow> (case map_of (ds_logs st) dir of
                  Some existing \<Rightarrow> (Inr existing, w, st)
                | None \<Rightarrow> (Inr l, w, st\<lparr>ds_logs := (dir, l) # ds_logs st\<rparr>))))))"
  by pat_completeness auto
termination
  by (relation "measure (\<lambda>(w, st, dir, opts, par). length dir)") auto

declare store_Open.simps [simp del]

text \<open>The logs the store held are closed; it holds none any more.\<close>

definition store_Close :: "dstore \<Rightarrow> dlog list \<times> dstore" where
  "store_Close st =
     (if ds_closed st then ([], st)
      else (map (disk_Close \<circ> snd) (ds_logs st), \<lparr>ds_logs = [], ds_closed = True\<rparr>))"

text \<open>The parent of a log that is opened, through the store.\<close>

definition store_parent :: "sys \<Rightarrow> dstore \<Rightarrow> path \<Rightarrow> options \<Rightarrow> dlog option \<Rightarrow> (err + dlog option) \<times> sys \<times> dstore" where
  "store_parent w st dir opts par = (case par of
     Some p \<Rightarrow> (Inr (Some p), w, st)
   | None \<Rightarrow> (case readForkMarker w dir of
       Inl e \<Rightarrow> (Inl e, w, st)
     | Inr base \<Rightarrow>
         if base > 0 then
           if dir = [] then (Inl (ErrMsg ''stack overflow''), w, st)
           else (case store_Open w st (butlast dir) opts None of
               (Inl e, w, st) \<Rightarrow> (Inl e, w, st)
             | (Inr p, w, st) \<Rightarrow> (Inr (Some p), w, st))
         else (Inr None, w, st)))"

lemma store_Open_eq:
  "store_Open w st dir opts par =
     (if ds_closed st then (Inl (ErrMsg ''log store is closed''), w, st)
      else (case map_of (ds_logs st) dir of
          Some l \<Rightarrow> (Inr l, w, st)
        | None \<Rightarrow> (case store_parent w st dir opts par of
             (Inl e, w, st) \<Rightarrow> (Inl e, w, st)
           | (Inr par', w, st) \<Rightarrow>
             (case disk_Open w dir opts par' of
                (Inl e, w) \<Rightarrow> (Inl e, w, st)
              | (Inr l, w) \<Rightarrow> (case map_of (ds_logs st) dir of
                  Some existing \<Rightarrow> (Inr existing, w, st)
                | None \<Rightarrow> (Inr l, w, st\<lparr>ds_logs := (dir, l) # ds_logs st\<rparr>))))))"
  unfolding store_parent_def by (rule store_Open.simps)

definition store_grows :: "dstore \<Rightarrow> dstore \<Rightarrow> bool" where
  "store_grows st st' \<longleftrightarrow> ds_closed st' = ds_closed st \<and> map_of (ds_logs st) \<subseteq>\<^sub>m map_of (ds_logs st')"

lemma store_grows_refl [simp]: "store_grows st st"
  by (simp add: store_grows_def)

lemma store_grows_add:
  "store_grows st st' \<Longrightarrow> map_of (ds_logs st') dir = None \<Longrightarrow> store_grows st (st'\<lparr>ds_logs := (dir, l) # ds_logs st'\<rparr>)"
  by (auto simp: store_grows_def map_le_def dom_def)

text \<open>What the store holds is never replaced, and what it returns it holds.\<close>

lemma store_Open_keeps:
  "store_Open w st dir opts par = (r, w', st') \<Longrightarrow>
   store_grows st st' \<and> (\<forall>l. r = Inr l \<longrightarrow> map_of (ds_logs st') dir = Some l \<and> \<not> ds_closed st')"
proof (induction "length dir" arbitrary: w st dir opts par r w' st' rule: less_induct)
  case less
  show ?case
  proof (cases "ds_closed st \<or> map_of (ds_logs st) dir \<noteq> None")
    case True
    then show ?thesis using less.prems by (subst (asm) store_Open_eq) (auto split: if_splits)
  next
    case False
    obtain pr w1 st1 where par: "store_parent w st dir opts par = (pr, w1, st1)" by (metis prod_cases3)
    have "store_grows st st1"
    proof (cases "(\<exists>p. par = Some p) \<or> (\<exists>e. readForkMarker w dir = Inl e) \<or> readForkMarker w dir = Inr 0 \<or> dir = []")
      case True
      then have "st1 = st" using par by (auto simp: store_parent_def split: sum.splits if_splits option.splits)
      then show ?thesis by simp
    next
      case False
      then obtain b where b: "par = None" "readForkMarker w dir = Inr b" "0 < b" "dir \<noteq> []"
        by (cases par; cases "readForkMarker w dir") auto
      obtain r2 w2 st2 where o: "store_Open w st (butlast dir) opts None = (r2, w2, st2)" by (metis prod_cases3)
      have "store_grows st st2" using less.hyps [OF _ o] b by simp
      then show ?thesis using par o b by (auto simp: store_parent_def split: sum.splits)
    qed
    moreover have "store_grows st st1 \<Longrightarrow> \<not> ds_closed st1" using False by (simp add: store_grows_def)
    ultimately show ?thesis
      using less.prems False par store_grows_add
      by (subst (asm) store_Open_eq) (auto split: sum.splits prod.splits option.splits)
  qed
qed

text \<open>C22: A log is opened once. Whatever a store returned for a directory it returns again, for any options
  and without touching a file, for as long as it is open; opening further logs changes nothing about that.\<close>

theorem store_open_once:
  assumes "store_Open w st dir opts par = (Inr l, w', st')"
    and "store_Open w2 st' dir2 opts2 par2 = (r2, w2', st2)"
  shows "store_Open w3 st2 dir opts3 par3 = (Inr l, w3, st2)"
proof -
  have "map_of (ds_logs st') dir = Some l" "\<not> ds_closed st'" using store_Open_keeps [OF assms(1)] by auto
  moreover have "store_grows st' st2" using store_Open_keeps [OF assms(2)] by blast
  ultimately have "map_of (ds_logs st2) dir = Some l" "\<not> ds_closed st2"
    by (auto simp: store_grows_def map_le_def dom_def)
  then show ?thesis by (subst store_Open_eq) simp
qed

text \<open>An empty directory can be opened.\<close>

lemma store_open_empty:
  "\<exists>l. store_Open \<lparr>files = [([''d''], Dir)], cacheLimit = 100\<rparr> NewStore [''d'']
       \<lparr>SegmentSize = 64, o_Codec = Some BinaryCodec, MaxUnflushedBytes = 0, OnSegmentOpen = None\<rparr> None =
     (Inr l, \<lparr>files = [([''d''], Dir)], cacheLimit = 100\<rparr>, \<lparr>ds_logs = [([''d''], l)], ds_closed = False\<rparr>)"
  by (simp add: store_Open.simps NewStore_def readForkMarker_def os_ReadFile_def stat_def disk_Open.simps
      os_MkdirAll_def open_codec_def hasForkPending_def open_own_def hasSubdirs_def os_ReadDir_def dir_names_def
      loadSegments_def reseedEmptyActiveHeader_def Let_def)

theorem store_open_once_witness:
  "\<exists>l st. store_Open \<lparr>files = [([''d''], Dir)], cacheLimit = 100\<rparr> NewStore [''d'']
       \<lparr>SegmentSize = 64, o_Codec = Some BinaryCodec, MaxUnflushedBytes = 0, OnSegmentOpen = None\<rparr> None =
     (Inr l, \<lparr>files = [([''d''], Dir)], cacheLimit = 100\<rparr>, st) \<and>
     store_Open \<lparr>files = [], cacheLimit = 0\<rparr> st [''d'']
       \<lparr>SegmentSize = 1, o_Codec = None, MaxUnflushedBytes = 0, OnSegmentOpen = None\<rparr> None = (Inr l, \<lparr>files = [], cacheLimit = 0\<rparr>, st)"
proof -
  let ?w = "\<lparr>files = [([''d''], Dir)], cacheLimit = 100\<rparr>"
    and ?o = "\<lparr>SegmentSize = 64, o_Codec = Some BinaryCodec, MaxUnflushedBytes = 0, OnSegmentOpen = None\<rparr>"
  obtain l where o: "store_Open ?w NewStore [''d''] ?o None = (Inr l, ?w, \<lparr>ds_logs = [([''d''], l)], ds_closed = False\<rparr>)"
    using store_open_empty by blast
  have again: "store_Open ?w \<lparr>ds_logs = [([''d''], l)], ds_closed = False\<rparr> [''d''] ?o None =
      (Inr l, ?w, \<lparr>ds_logs = [([''d''], l)], ds_closed = False\<rparr>)" by (simp add: store_Open.simps)
  show ?thesis using o store_open_once [OF o again] by blast
qed

end
