(* ===== verification/Buffered_Log.thy ===== *)
theory Buffered_Log
  imports Disk_Fork Disk_Store
begin

text \<open>
  The caller-facing log (\<^verbatim>\<open>log/log.go\<close>): a disk log behind a buffer of records that were
  appended and not yet synced. Reads look into the buffer first. A sync is three steps, as the code takes
  them between its locks: it captures the buffered records up to an index, writes those the disk log does
  not have yet, and drops what it captured from the buffer; appends can come in between.
\<close>

section \<open>State\<close>

definition defaultMaxUnflushedBytes :: int where
  "defaultMaxUnflushedBytes = 64 * 1024 * 1024"

record pendingView =
  pv_first :: nat
  pv_entries :: "bytes list"

record blog =
  b_inner :: dlog
  b_shared :: bool
  b_maxLag :: int
  b_pend :: "pendingView option"
  b_pendingBytes :: int

definition pv_last :: "pendingView \<Rightarrow> nat" where
  "pv_last p = u64_sub (u64_add (pv_first p) (length (pv_entries p))) 1"

definition pv_at :: "pendingView option \<Rightarrow> nat \<Rightarrow> bytes option" where
  "pv_at po idx = (case po of
     None \<Rightarrow> None
   | Some p \<Rightarrow>
       if pv_entries p = [] \<or> idx < pv_first p then None
       else let i = idx - pv_first p in
         if i \<ge> length (pv_entries p) then None else Some (pv_entries p ! i))"

text \<open>The records of a buffer that holds any.\<close>

definition pv_some :: "pendingView option \<Rightarrow> pendingView option" where
  "pv_some po = (case po of Some p \<Rightarrow> if pv_entries p = [] then None else Some p | None \<Rightarrow> None)"

definition entriesPrefix :: "pendingView option \<Rightarrow> nat \<Rightarrow> bytes list" where
  "entriesPrefix po n = (case po of None \<Rightarrow> [] | Some p \<Rightarrow> take n (pv_entries p))"

definition maxLagFor :: "options \<Rightarrow> int" where
  "maxLagFor opts = (if MaxUnflushedBytes opts > 0 then MaxUnflushedBytes opts else defaultMaxUnflushedBytes)"

definition new_blog :: "dlog \<Rightarrow> bool \<Rightarrow> int \<Rightarrow> blog" where
  "new_blog d shared lag = \<lparr>b_inner = d, b_shared = shared, b_maxLag = lag, b_pend = None, b_pendingBytes = 0\<rparr>"

definition blog_Open :: "sys \<Rightarrow> path \<Rightarrow> options \<Rightarrow> dlog option \<Rightarrow> (err + blog) \<times> sys" where
  "blog_Open w dir opts par =
     sbind (disk_Open w dir opts par) (\<lambda>inner w. (Inr (new_blog inner False (maxLagFor opts)), w))"

section \<open>Reading\<close>

definition no_empty :: "err + 'a \<Rightarrow> err + 'a" where
  "no_empty r = (case r of Inl e \<Rightarrow> if e = ErrEmpty then Inl ErrNotFound else Inl e | Inr x \<Rightarrow> Inr x)"

definition blog_Read :: "sys \<Rightarrow> blog \<Rightarrow> nat \<Rightarrow> (err + bytes) \<times> blog" where
  "blog_Read w l idx = (case pv_at (b_pend l) idx of
     Some payload \<Rightarrow> (Inr payload, l)
   | None \<Rightarrow> (case disk_Read w idx (b_inner l) of (r, d) \<Rightarrow> (no_empty r, l\<lparr>b_inner := d\<rparr>)))"

definition blog_FirstIndex :: "blog \<Rightarrow> nat" where
  "blog_FirstIndex l =
     (if disk_FirstIndex (b_inner l) \<noteq> 0 then disk_FirstIndex (b_inner l)
      else (case pv_some (b_pend l) of Some p \<Rightarrow> pv_first p | None \<Rightarrow> 0))"

definition blog_LastIndex :: "blog \<Rightarrow> nat" where
  "blog_LastIndex l = (case pv_some (b_pend l) of Some p \<Rightarrow> pv_last p | None \<Rightarrow> disk_LastIndex (b_inner l))"

definition log_boundary :: "nat \<Rightarrow> ('s \<Rightarrow> nat \<times> bytes \<Rightarrow> 's \<times> err option) \<Rightarrow> 's \<Rightarrow> nat \<times> bytes \<Rightarrow> 's \<times> err option" where
  "log_boundary stop fn st x = (if fst x \<ge> stop then (st, Some ErrLogRangeBoundary) else fn st x)"

fun pend_walk :: "('s \<Rightarrow> nat \<times> bytes \<Rightarrow> 's \<times> err option) \<Rightarrow> nat \<Rightarrow> nat \<Rightarrow> nat \<Rightarrow> bytes list \<Rightarrow> 's \<Rightarrow> 's \<times> err option" where
  "pend_walk fn from upTo idx [] st = (st, None)"
| "pend_walk fn from upTo idx (p # ps) st =
     (if idx < from then pend_walk fn from upTo (u64_add idx 1) ps st
      else if idx > upTo then (st, None)
      else (case fn st (idx, p) of
          (st', Some e) \<Rightarrow> (st', Some e)
        | (st', None) \<Rightarrow> pend_walk fn from upTo (u64_add idx 1) ps st'))"

definition rangeBounded :: "sys \<Rightarrow> dlog \<Rightarrow> nat \<Rightarrow> nat \<Rightarrow> pendingView option \<Rightarrow>
    ('s \<Rightarrow> nat \<times> bytes \<Rightarrow> 's \<times> err option) \<Rightarrow> 's \<Rightarrow> (('s \<times> err option) \<times> dlog) option" where
  "rangeBounded w d from upTo pend fn st =
     (let stop = (case pv_some pend of
            Some p \<Rightarrow> if pv_first p < u64_add upTo 1 then pv_first p else u64_add upTo 1
          | None \<Rightarrow> u64_add upTo 1) in
      case disk_Range w (log_boundary stop fn) from st d of
        None \<Rightarrow> None
      | Some ((st', e), d') \<Rightarrow>
          if e \<noteq> None \<and> e \<noteq> Some ErrLogRangeBoundary then Some ((st', e), d')
          else (case pend of
              None \<Rightarrow> Some ((st', None), d')
            | Some p \<Rightarrow> Some (pend_walk fn from upTo (pv_first p) (pv_entries p) st', d')))"

definition blog_Range :: "sys \<Rightarrow> blog \<Rightarrow> nat \<Rightarrow> ('s \<Rightarrow> nat \<times> bytes \<Rightarrow> 's \<times> err option) \<Rightarrow> 's \<Rightarrow>
    (('s \<times> err option) \<times> blog) option" where
  "blog_Range w l from fn st =
     map_option (apsnd (\<lambda>d. l\<lparr>b_inner := d\<rparr>)) (rangeBounded w (b_inner l) from (u64_max - 1) (b_pend l) fn st)"

fun pend_scan :: "pendingView \<Rightarrow> ('s \<Rightarrow> nat \<times> bytes \<Rightarrow> 's \<times> err option) \<Rightarrow> nat list \<Rightarrow> 's \<Rightarrow> 's \<times> err option" where
  "pend_scan p fn [] st = (st, None)"
| "pend_scan p fn (idx # is) st =
     (case fn st (idx, case pv_at (Some p) idx of Some b \<Rightarrow> b | None \<Rightarrow> []) of
        (st', Some e) \<Rightarrow> (st', Some e)
      | (st', None) \<Rightarrow> pend_scan p fn is st')"

definition scanFromEndBounded :: "sys \<Rightarrow> dlog \<Rightarrow> nat \<Rightarrow> pendingView option \<Rightarrow>
    ('s \<Rightarrow> nat \<times> bytes \<Rightarrow> 's \<times> err option) \<Rightarrow> 's \<Rightarrow> ('s \<times> err option) \<times> dlog" where
  "scanFromEndBounded w d from pend fn st =
     (if from = 0 then ((st, None), d)
      else (case pv_some pend of
          Some p \<Rightarrow>
            if from \<ge> pv_first p then
              (case pend_scan p fn (rev [pv_first p..<Suc (min from (pv_last p))]) st of
                 (st', Some e) \<Rightarrow> ((st', Some e), d)
               | (st', None) \<Rightarrow>
                   if pv_first p = 0 \<or> pv_first p - 1 = 0 then ((st', None), d)
                   else disk_ScanFromEnd w fn (pv_first p - 1) st' d)
            else disk_ScanFromEnd w fn from st d
        | None \<Rightarrow> disk_ScanFromEnd w fn from st d))"

definition blog_ScanFromEnd :: "sys \<Rightarrow> blog \<Rightarrow> nat \<Rightarrow> ('s \<Rightarrow> nat \<times> bytes \<Rightarrow> 's \<times> err option) \<Rightarrow> 's \<Rightarrow>
    ('s \<times> err option) \<times> blog" where
  "blog_ScanFromEnd w l from fn st =
     (let lst = blog_LastIndex l; from' = (if from = 0 \<or> from > lst then lst else from) in
      apsnd (\<lambda>d. l\<lparr>b_inner := d\<rparr>) (scanFromEndBounded w (b_inner l) from' (b_pend l) fn st))"

section \<open>Writing and syncing\<close>

definition is_ReadOnly :: "dlog \<Rightarrow> bool" where
  "is_ReadOnly d = (case d of DLog l _ \<Rightarrow> l_readOnly l)"

text \<open>The append to the buffer.\<close>

definition blog_write :: "blog \<Rightarrow> nat \<Rightarrow> bytes \<Rightarrow> (err + unit) \<times> blog" where
  "blog_write l idx payload =
     (if is_ReadOnly (b_inner l) then (Inl ErrReadOnly, l)
      else let expected = (case pv_some (b_pend l) of
               Some old \<Rightarrow> u64_add (pv_last old) 1 | None \<Rightarrow> u64_add (disk_LastIndex (b_inner l)) 1) in
        if idx \<noteq> expected then (Inl (ErrOutOfOrder idx expected), l)
        else let nxt = (case pv_some (b_pend l) of
               Some old \<Rightarrow> \<lparr>pv_first = pv_first old, pv_entries = pv_entries old @ [payload]\<rparr>
             | None \<Rightarrow> \<lparr>pv_first = idx, pv_entries = [payload]\<rparr>) in
          (Inr (), l\<lparr>b_pend := Some nxt, b_pendingBytes := b_pendingBytes l + int (length payload)\<rparr>))"

text \<open>The steps of a sync: what to write from which index on, the writes, and the trimming of the buffer.\<close>

definition sync_capture :: "blog \<Rightarrow> nat \<Rightarrow> nat \<times> bytes list" where
  "sync_capture l target = (case pv_some (b_pend l) of
     Some p \<Rightarrow>
       if target \<ge> pv_first p then
         let span = u64_add (u64_sub target (pv_first p)) 1;
             n = (if span < length (pv_entries p) then span else length (pv_entries p)) in
         (pv_first p, entriesPrefix (b_pend l) n)
       else (0, [])
   | None \<Rightarrow> (0, []))"

fun sync_writes :: "sys \<Rightarrow> dlog \<Rightarrow> nat \<Rightarrow> nat \<Rightarrow> bytes list \<Rightarrow> (err + unit) \<times> sys \<times> dlog" where
  "sync_writes w d durable idx [] = (Inr (), w, d)"
| "sync_writes w d durable idx (p # ps) =
     (if idx \<le> durable then sync_writes w d durable (u64_add idx 1) ps
      else (case disk_Write w d idx p of
          (Inl e, w, d) \<Rightarrow> (Inl e, w, d)
        | (Inr _, w, d) \<Rightarrow> sync_writes w d durable (u64_add idx 1) ps))"

definition sync_trim :: "blog \<Rightarrow> nat \<Rightarrow> bytes list \<Rightarrow> blog" where
  "sync_trim l first batch =
     (let l1 = (case b_pend l of
            Some cur \<Rightarrow> if pv_first cur = first
              then l\<lparr>b_pend := Some \<lparr>pv_first = u64_add first (length batch), pv_entries = drop (length batch) (pv_entries cur)\<rparr>\<rparr>
              else l
          | None \<Rightarrow> l) in
      l1\<lparr>b_pendingBytes := b_pendingBytes l - sum_list (map (int \<circ> length) batch)\<rparr>)"

definition blog_SyncThrough :: "sys \<Rightarrow> blog \<Rightarrow> nat \<Rightarrow> (err + unit) \<times> sys \<times> blog" where
  "blog_SyncThrough w l target = (case sync_capture l target of (first, batch) \<Rightarrow>
     if batch = [] then (Inr (), w, l)
     else (case sync_writes w (b_inner l) (disk_LastIndex (b_inner l)) first batch of
         (Inl e, w, d) \<Rightarrow> (Inl e, w, l\<lparr>b_inner := d\<rparr>)
       | (Inr _, w, d) \<Rightarrow> (Inr (), w, sync_trim (l\<lparr>b_inner := d\<rparr>) first batch)))"

definition blog_Sync :: "sys \<Rightarrow> blog \<Rightarrow> (err + unit) \<times> sys \<times> blog" where
  "blog_Sync w l = blog_SyncThrough w l u64_max"

definition blog_Write :: "sys \<Rightarrow> blog \<Rightarrow> nat \<Rightarrow> bytes \<Rightarrow> (err + unit) \<times> sys \<times> blog" where
  "blog_Write w l idx payload = (case blog_write l idx payload of
     (Inl e, l) \<Rightarrow> (Inl e, w, l)
   | (Inr _, l) \<Rightarrow> if b_pendingBytes l > b_maxLag l then blog_SyncThrough w l idx else (Inr (), w, l))"

definition PendingBounds :: "blog \<Rightarrow> (nat \<times> nat) option" where
  "PendingBounds l = map_option (\<lambda>p. (pv_first p, pv_last p)) (pv_some (b_pend l))"

definition HashPayload :: "dlog \<Rightarrow> bytes \<Rightarrow> err + string" where
  "HashPayload d payload = (case d of DLog l _ \<Rightarrow> c_Hash (l_codec l) payload)"

definition blog_Hash :: "sys \<Rightarrow> blog \<Rightarrow> nat \<Rightarrow> (err + string) \<times> blog" where
  "blog_Hash w l idx = (case blog_Read w l idx of (r, l') \<Rightarrow> (rbind r (HashPayload (b_inner l')), l'))"

section \<open>Forks, truncation, state\<close>

definition blog_forking :: "sys \<Rightarrow> blog \<Rightarrow> (sys \<Rightarrow> dlog \<Rightarrow> (err + dlog) \<times> sys \<times> dlog) \<Rightarrow> (err + blog) \<times> sys \<times> blog" where
  "blog_forking w l fork =
     (if b_shared l then (Inl ErrSharedMutation, w, l)
      else (case blog_Sync w l of
          (Inl e, w, l) \<Rightarrow> (Inl e, w, l)
        | (Inr _, w, l) \<Rightarrow>
            if pv_some (b_pend l) \<noteq> None then (Inl (ErrMsg ''log fork: raced a concurrent write''), w, l)
            else (case fork w (b_inner l) of
                (r, w, d) \<Rightarrow> (rbind r (\<lambda>child. Inr (new_blog child False (b_maxLag l))), w, l\<lparr>b_inner := d\<rparr>))))"

definition blog_Fork :: "sys \<Rightarrow> blog \<Rightarrow> nat \<Rightarrow> string \<Rightarrow> string list \<Rightarrow> (err + blog) \<times> sys \<times> blog" where
  "blog_Fork w l atIdx name opt = blog_forking w l (\<lambda>w d. disk_Fork w d atIdx name opt)"

definition blog_ForkRehome :: "sys \<Rightarrow> blog \<Rightarrow> nat \<Rightarrow> string \<Rightarrow> string \<Rightarrow> string list \<Rightarrow> (err + blog) \<times> sys \<times> blog" where
  "blog_ForkRehome w l atIdx name old rehome = blog_forking w l (\<lambda>w d. disk_ForkRehome w d atIdx name old rehome)"

definition blog_TruncateFront :: "sys \<Rightarrow> blog \<Rightarrow> nat \<Rightarrow> (err + unit) \<times> sys \<times> blog" where
  "blog_TruncateFront w l beforeIdx =
     (if b_shared l then (Inl ErrSharedMutation, w, l)
      else (case blog_Sync w l of
          (Inl e, w, l) \<Rightarrow> (Inl e, w, l)
        | (Inr _, w, l) \<Rightarrow> (case disk_TruncateFront w (b_inner l) beforeIdx of
            (r, w, d) \<Rightarrow> (r, w, l\<lparr>b_inner := d\<rparr>))))"

definition blog_StateAt :: "sys \<Rightarrow> blog \<Rightarrow> nat \<Rightarrow> (err + bytes) \<times> sys \<times> blog" where
  "blog_StateAt w l idx = (case blog_Sync w l of
     (Inl e, w, l) \<Rightarrow> (Inl e, w, l)
   | (Inr _, w, l) \<Rightarrow> (case disk_StateAt w idx (b_inner l) of (r, d) \<Rightarrow> (r, w, l\<lparr>b_inner := d\<rparr>)))"

definition blog_Close :: "sys \<Rightarrow> blog \<Rightarrow> (err + unit) \<times> sys \<times> blog" where
  "blog_Close w l =
     (if b_shared l then (Inr (), w, l)
      else (case blog_Sync w l of (r, w, l) \<Rightarrow> (r, w, l\<lparr>b_inner := disk_Close (b_inner l)\<rparr>)))"

section \<open>Snapshots\<close>

text \<open>A snapshot keeps the buffer of its moment and the last index; it reads the log's disk part as it is later.\<close>

record snapshot =
  sn_pend :: "pendingView option"
  sn_last :: nat

definition blog_Snapshot :: "blog \<Rightarrow> snapshot" where
  "blog_Snapshot l = \<lparr>sn_pend = b_pend l, sn_last = blog_LastIndex l\<rparr>"

definition snap_Read :: "sys \<Rightarrow> snapshot \<Rightarrow> dlog \<Rightarrow> nat \<Rightarrow> (err + bytes) \<times> dlog" where
  "snap_Read w sn d idx =
     (if idx > sn_last sn then (Inl ErrNotFound, d)
      else (case pv_at (sn_pend sn) idx of
          Some payload \<Rightarrow> (Inr payload, d)
        | None \<Rightarrow> (case disk_Read w idx d of (r, d') \<Rightarrow> (no_empty r, d'))))"

definition snap_Range :: "sys \<Rightarrow> snapshot \<Rightarrow> dlog \<Rightarrow> nat \<Rightarrow> ('s \<Rightarrow> nat \<times> bytes \<Rightarrow> 's \<times> err option) \<Rightarrow> 's \<Rightarrow>
    (('s \<times> err option) \<times> dlog) option" where
  "snap_Range w sn d from fn st = rangeBounded w d from (sn_last sn) (sn_pend sn) fn st"

definition snap_ScanFromEnd :: "sys \<Rightarrow> snapshot \<Rightarrow> dlog \<Rightarrow> nat \<Rightarrow> ('s \<Rightarrow> nat \<times> bytes \<Rightarrow> 's \<times> err option) \<Rightarrow> 's \<Rightarrow>
    ('s \<times> err option) \<times> dlog" where
  "snap_ScanFromEnd w sn d from fn st =
     scanFromEndBounded w d (if from = 0 \<or> from > sn_last sn then sn_last sn else from) (sn_pend sn) fn st"

end
