(* ===== verification/Buffered_Spec.thy ===== *)
theory Buffered_Spec
  imports Buffered_Log
begin

text \<open>
  What the buffered log shows and keeps: the records below the buffer from disk, the buffered ones from the
  buffer, whether or not a sync that failed half way has already written some of these.
\<close>

section \<open>Writable logs\<close>

definition header_total :: "(bytes \<Rightarrow> bool) \<Rightarrow> (bytes \<Rightarrow> bytes list \<Rightarrow> err + bytes) \<Rightarrow> bool" where
  "header_total S f \<longleftrightarrow> (\<forall>h ps. \<exists>h'. f h ps = Inr h' \<and> S h')"

text \<open>
  A log that takes writes: in good order, no children, at or above its fork base, and, in header mode, a root
  whose fold never fails.
\<close>

fun writable :: "codec_kind \<Rightarrow> sys \<Rightarrow> dlog \<Rightarrow> alog \<Rightarrow> bool" where
  "writable k w (DLog l pa) (ALog segs act fb pb) \<longleftrightarrow>
     in_order k w (DLog l pa) (ALog segs act fb pb) \<and> \<not> l_readOnly l \<and> hasSubdirs w (l_dir l) = Inr False \<and>
     fb \<le> next_index (ALog segs act fb pb) \<and>
     (case OnSegmentOpen (l_opts l) of None \<Rightarrow> True | Some f \<Rightarrow> header_total (stableOf k) f \<and> pb = None)"

definition appended :: "alog \<Rightarrow> alog \<Rightarrow> bytes list \<Rightarrow> bool" where
  "appended a a' ps \<longleftrightarrow> next_index a' = next_index a + length ps \<and> visible a' = visible a @ enumerate (next_index a) ps"

lemma appended_refl [simp]: "appended a a []"
  by (simp add: appended_def)

lemma appended_trans: "appended a b ps \<Longrightarrow> appended b c qs \<Longrightarrow> appended a c (ps @ qs)"
  by (simp add: appended_def enumerate_append_eq add.assoc)

lemma next_index_last:
  assumes "chain (all_segs segs act)" "entries (all_segs segs act) \<noteq> []"
  shows "next_index (ALog segs act fb pb) = Suc (fst (last (entries (all_segs segs act))))"
  using last_entries [OF assms] assms(2) by (cases "entries (all_segs segs act)") (auto simp: next_index_def)

lemma fresh_header_total:
  assumes ok: "in_order k w (DLog l pa) (ALog segs act fb pb)"
    and t: "case OnSegmentOpen (l_opts l) of None \<Rightarrow> True | Some f \<Rightarrow> header_total (stableOf k) f \<and> pb = None"
  shows "\<exists>hs. fresh_header (OnSegmentOpen (l_opts l)) (ALog segs act fb pb) = Inr hs \<and> list_all (stableOf k) hs"
proof (cases "\<exists>b hs. act = Some (b, hs, [])")
  case True
  then obtain b hs where a: "act = Some (b, hs, [])" by blast
  have "own_rep (codecOf k) (frameOf k) w l segs act" using ok by simp
  from own_repD(4) [OF this] a obtain s where "seg_rep (codecOf k) (frameOf k) w s hs []" by (auto simp: active_rep_iff)
  then obtain fs where "list_all2 (frameOf k) fs hs" by (auto simp: seg_rep_def)
  then have "list_all (stableOf k) hs"
    by (induction rule: list_all2_induct) (auto dest: any.is_frame_stable)
  then show ?thesis using a by (simp add: fresh_header_def)
next
  case False
  then have eq: "fresh_header (OnSegmentOpen (l_opts l)) (ALog segs act fb pb) =
      next_header (OnSegmentOpen (l_opts l)) (ALog segs act fb pb)"
    by (auto simp: fresh_header_def split: option.splits list.splits)
  show ?thesis
  proof (cases "OnSegmentOpen (l_opts l)")
    case None
    then show ?thesis using eq by (simp add: next_header_def)
  next
    case (Some f)
    have f: "\<exists>h'. f h ps = Inr h' \<and> stableOf k h'" for h ps using t Some by (simp add: header_total_def)
    obtain b hs ps where "all_segs segs act \<noteq> [] \<longrightarrow> last (all_segs segs act) = (b, hs, ps)"
      by (metis prod_cases3)
    then show ?thesis using eq Some t f [of "concat hs" ps] f [of "[]" "[]"]
      by (auto simp: next_header_def rbind_eq_Inr)
  qed
qed

lemma writable_in_order: "writable k w d a \<Longrightarrow> in_order k w d a"
  by (cases d; cases a) simp

lemma in_order_represents: "in_order k w d a \<Longrightarrow> represents k w d a"
  by (cases d; cases a) simp

lemma visible_append_own:
  assumes "pb = None \<or> fb \<le> idx"
    and "entries (all_segs segs' act') = entries (all_segs segs act) @ enumerate idx ps"
  shows "visible (ALog segs' act' fb pb) = visible (ALog segs act fb pb) @ enumerate idx ps"
proof (cases pb)
  case (Some q)
  then have "filter (\<lambda>x. fb \<le> fst x) (enumerate idx ps) = enumerate idx ps"
    using assms(1) by (auto simp: filter_id_conv in_set_enumerate_eq)
  then show ?thesis using Some assms(2) by simp
qed (use assms(2) in simp)

lemma writable_write:
  assumes wr: "writable k w d a" and idx: "idx = next_index a" "idx + 1 < u64_lim" and p: "stableOf k p"
  shows "\<exists>r w' d' a'. disk_Write w d idx p = (r, w', d') \<and> writable k w' d' a' \<and> (own_above a \<longrightarrow> own_above a') \<and>
    (r = Inr () \<and> appended a a' [p] \<or> r = Inl ErrPayloadTooLarge \<and> appended a a' [])"
proof -
  obtain l pa where d: "d = DLog l pa" by (cases d)
  obtain segs act fb pb where a: "a = ALog segs act fb pb" by (cases a)
  have ok: "in_order k w (DLog l pa) (ALog segs act fb pb)" and ro: "\<not> l_readOnly l"
    and sub: "hasSubdirs w (l_dir l) = Inr False" and fb: "fb \<le> idx"
    and ht: "case OnSegmentOpen (l_opts l) of None \<Rightarrow> True | Some f \<Rightarrow> header_total (stableOf k) f \<and> pb = None"
    using wr d a idx(1) by (simp_all del: log_ok.simps)
  obtain hs where hs: "fresh_header (OnSegmentOpen (l_opts l)) (ALog segs act fb pb) = Inr hs" "list_all (stableOf k) hs"
    using fresh_header_total [OF ok ht] by blast
  obtain r w' l' pa' segs' act' where wr': "disk_Write w (DLog l pa) idx p = (r, w', DLog l' pa')"
    and ok': "in_order k w' (DLog l' pa') (ALog segs' act' fb pb)" and same: "same_log w (DLog l pa) w' (DLog l' pa')"
    and out: "r = Inr () \<and> entries (all_segs segs' act') = entries (all_segs segs act) @ enumerate idx [p] \<or>
      r = Inl ErrPayloadTooLarge \<and> entries (all_segs segs' act') = entries (all_segs segs act) @ enumerate idx []"
    using any.disk_Write_rep [OF ok ro sub _ idx(2) hs p] idx(1) a
    by (metis (no_types, lifting) append_Nil2 dlog.exhaust enumerate_simps)
  have ch: "chain (all_segs segs act)" "chain (all_segs segs' act')" using ok ok' own_repD(5) by (auto dest: own_repD(5))
  have ext: "next_index (ALog segs' act' fb pb) = idx + length ps \<and> visible (ALog segs' act' fb pb) = visible a @ enumerate idx ps"
    if e: "entries (all_segs segs' act') = entries (all_segs segs act) @ enumerate idx ps" and ps: "ps = [] \<or> ps = [p]" for ps
  proof
    show "visible (ALog segs' act' fb pb) = visible a @ enumerate idx ps"
      using visible_append_own [OF _ e] fb a by simp
    show "next_index (ALog segs' act' fb pb) = idx + length ps"
    proof (cases "entries (all_segs segs' act') = []")
      case True
      then have "entries (all_segs segs act) = []" "ps = []" using e ps by auto
      then show ?thesis using True idx(1) a by (simp add: next_index_def)
    next
      case ne: False
      show ?thesis
      proof (cases "ps = []")
        case True
        then show ?thesis using e ne idx(1) a next_index_last [OF ch(1)] next_index_last [OF ch(2) ne] by simp
      next
        case False
        then show ?thesis using e ps next_index_last [OF ch(2) ne] by auto
      qed
    qed
  qed
  have c: "l_readOnly l' = l_readOnly l" "l_dir l' = l_dir l" "l_opts l' = l_opts l" using same by (auto simp: cfg_def)
  have dirs: "stat w (l_dir l) = Some Dir" "stat w' (l_dir l) = Some Dir"
    using ok ok' c(2) by (auto simp: dir_rep_def)
  have "hasSubdirs w' (l_dir l) = hasSubdirs w (l_dir l)"
  proof -
    have "only_in (l_dir l) w w'" using same by simp
    from only_in_dir [OF this] show ?thesis by (simp add: hasSubdirs_dir [OF dirs(1)] hasSubdirs_dir [OF dirs(2)])
  qed
  moreover have "fb \<le> next_index (ALog segs' act' fb pb)" using out ext [of "[p]"] ext [of "[]"] fb by auto
  ultimately have "writable k w' (DLog l' pa') (ALog segs' act' fb pb)"
    using ok' ro sub ht c by (simp del: log_ok.simps)
  moreover have "r = Inr () \<and> appended a (ALog segs' act' fb pb) [p] \<or>
      r = Inl ErrPayloadTooLarge \<and> appended a (ALog segs' act' fb pb) []"
    using out ext [of "[p]"] ext [of "[]"] idx(1) by (auto simp: appended_def)
  moreover have "own_above a \<longrightarrow> own_above (ALog segs' act' fb pb)"
    using out a fb by (auto split: option.splits)
  ultimately show ?thesis using wr' d by blast
qed

section \<open>What the buffered log shows\<close>

definition shown :: "alog \<Rightarrow> pendingView option \<Rightarrow> (nat \<times> bytes) list" where
  "shown a po = (case pv_some po of
     None \<Rightarrow> visible a
   | Some p \<Rightarrow> filter (\<lambda>x. fst x < pv_first p) (visible a) @ enumerate (pv_first p) (pv_entries p))"

text \<open>
  The buffer continues the disk log, or repeats its last \<open>m\<close> records and continues it from there: the
  records a failed sync has already written.
\<close>

definition buf_ok :: "alog \<Rightarrow> pendingView option \<Rightarrow> bool" where
  "buf_ok a po \<longleftrightarrow> (case pv_some po of
     None \<Rightarrow> next_index a < u64_max
   | Some p \<Rightarrow> 1 \<le> pv_first p \<and> pv_first p + length (pv_entries p) < u64_max \<and>
       (\<exists>m \<le> length (pv_entries p). next_index a = pv_first p + m \<and>
          filter (\<lambda>x. pv_first p \<le> fst x) (visible a) = enumerate (pv_first p) (take m (pv_entries p))))"

lemma pv_some_iff: "pv_some po = Some p \<longleftrightarrow> po = Some p \<and> pv_entries p \<noteq> []"
  by (auto simp: pv_some_def split: option.splits)

lemma pv_some_None: "pv_some po = None \<longleftrightarrow> po = None \<or> (\<exists>p. po = Some p \<and> pv_entries p = [])"
  by (auto simp: pv_some_def split: option.splits)

lemma pv_at_some: "pv_at po idx = (case pv_some po of None \<Rightarrow> None
   | Some p \<Rightarrow> map_of (enumerate (pv_first p) (pv_entries p)) idx)"
  using map_of_seg_entries [of _ "[]"]
  by (auto simp: pv_at_def pv_some_def seg_entries_def Let_def split: option.splits)

lemma pv_last_eq: "pv_entries p \<noteq> [] \<Longrightarrow> pv_first p + length (pv_entries p) < u64_max \<Longrightarrow>
    pv_last p = pv_first p + length (pv_entries p) - 1"
  by (cases "pv_entries p") (auto simp: pv_last_def u64_simps)

text \<open>The last index the disk log reports is the one before its next index.\<close>

lemma disk_LastIndex_rep:
  assumes "represents k w d a" "next_index a < u64_lim"
  shows "disk_LastIndex d + 1 = next_index a"
proof -
  obtain l pa where d: "d = DLog l pa" by (cases d)
  obtain segs act fb pb where a: "a = ALog segs act fb pb" by (cases a)
  have own: "own_rep (codecOf k) (frameOf k) w l segs act" "forkBase l = fb" using assms(1) d a by simp_all
  show ?thesis
  proof (cases "entries (all_segs segs act) = []")
    case True
    then have e: "isEmptyLocked l" using isEmptyLocked_rep [OF own(1)] by simp
    then have "lastIndexLocked l = 0" by (auto simp: isEmptyLocked_def lastIndexLocked_def split: option.splits)
    then show ?thesis using True d a own(2) by (auto simp: disk_LastIndex_def next_index_def)
  next
    case False
    then have "all_segs segs act \<noteq> []" by auto
    then obtain b hs ps where h: "hd (all_segs segs act) = (b, hs, ps)" "(b, hs, ps) \<in> set (all_segs segs act)"
      by (metis hd_in_set prod_cases3)
    have "1 \<le> b" using own_rep_wf [OF own(1) h(2)] by (simp add: seg_wf_def)
    moreover obtain n where "length (entries (all_segs segs act)) = Suc n" using False by (cases "entries (all_segs segs act)") auto
    ultimately have "0 < lastIndexLocked l" "lastIndexLocked l + 1 = end_of (all_segs segs act)"
      using h(1) lastIndexLocked_rep [OF own(1) False] by auto
    then show ?thesis using False d a by (simp add: disk_LastIndex_def next_index_def)
  qed
qed

lemma map_of_filter_key: "map_of (filter (\<lambda>x. P (fst x)) xs) i = (if P i then map_of xs i else None)"
  by (induction xs) auto

lemma shown_lookup:
  assumes "buf_ok a po"
  shows "map_of (shown a po) idx = (case pv_at po idx of Some p \<Rightarrow> Some p | None \<Rightarrow> map_of (visible a) idx)"
proof (cases "pv_some po")
  case None
  then show ?thesis by (simp add: shown_def pv_at_some)
next
  case (Some p)
  let ?f = "pv_first p" and ?es = "pv_entries p"
  have fl: "map_of (filter (\<lambda>x. fst x < ?f) (visible a)) idx = (if idx < ?f then map_of (visible a) idx else None)"
    using map_of_filter_key [of "\<lambda>i. i < ?f"] .
  obtain m where m: "m \<le> length ?es" "filter (\<lambda>x. ?f \<le> fst x) (visible a) = enumerate ?f (take m ?es)"
    using assms Some by (auto simp: buf_ok_def)
  have fh: "map_of (filter (\<lambda>x. ?f \<le> fst x) (visible a)) idx = (if ?f \<le> idx then map_of (visible a) idx else None)"
    using map_of_filter_key [of "\<lambda>i. ?f \<le> i"] .
  have en: "map_of (enumerate ?f es) idx = (if ?f \<le> idx \<and> idx < ?f + length es then Some (es ! (idx - ?f)) else None)" for es :: "bytes list"
    using map_of_seg_entries [of ?f "[]" es idx] by (simp add: seg_entries_def)
  have "map_of (visible a) idx = None" if "?f + length ?es \<le> idx"
    using fh m en [of "take m ?es"] that by (simp split: if_splits)
  then show ?thesis using Some fl en [of ?es] by (auto simp: shown_def pv_at_some map_add_def split: option.splits)
qed

text \<open>The index after the last one shown.\<close>

definition buf_next :: "alog \<Rightarrow> pendingView option \<Rightarrow> nat" where
  "buf_next a po = (case pv_some po of None \<Rightarrow> next_index a | Some p \<Rightarrow> pv_first p + length (pv_entries p))"

section \<open>A small buffered log\<close>

text \<open>An empty log on an empty directory, and the same with one record in its buffer.\<close>

definition small_buf :: blog where
  "small_buf = new_blog (DLog small_log None) False 100"

definition small_one :: blog where
  "small_one = small_buf\<lparr>b_pend := Some \<lparr>pv_first = 1, pv_entries = [[7]]\<rparr>, b_pendingBytes := 1\<rparr>"

lemma small_visible [simp]: "visible (ALog [] None 0 None) = []" "next_index (ALog [] None 0 None) = 1"
  by (simp_all add: all_segs_def next_index_def)

lemma small_writable: "writable Binary small_sys (DLog small_log None) (ALog [] None 0 None)"
proof -
  have "\<not> l_readOnly small_log" "l_dir small_log = [''d'']" "OnSegmentOpen (l_opts small_log) = None"
    by (simp_all add: fresh_log_def small_opts_def)
  moreover have "hasSubdirs small_sys [''d''] = Inr False" by (simp add: hasSubdirs_dir small_sys_def stat_def)
  ultimately show ?thesis using small_log_ok by (simp del: log_ok.simps)
qed

lemma small_one_ok: "buf_ok (ALog [] None 0 None) (b_pend small_one)" "shown (ALog [] None 0 None) (b_pend small_one) = [(1, [7])]"
    "b_inner small_one = DLog small_log None"
  by (simp_all add: small_one_def small_buf_def new_blog_def buf_ok_def shown_def pv_some_def)

lemma small_buf_ok: "buf_ok (ALog [] None 0 None) (b_pend small_buf)" "shown (ALog [] None 0 None) (b_pend small_buf) = []"
    "b_inner small_buf = DLog small_log None" "buf_next (ALog [] None 0 None) (b_pend small_buf) = 1"
  by (simp_all add: small_buf_def new_blog_def buf_ok_def shown_def pv_some_def buf_next_def)

lemma small_represents: "represents Binary small_sys (DLog small_log None) (ALog [] None 0 None)"
  using writable_in_order [OF small_writable] in_order_represents by blast

section \<open>Reading\<close>

text \<open>C19: A read of the buffered log returns the record it shows at the index, from the buffer or from disk,
  and reports that there is none exactly where it shows none.\<close>

theorem blog_read_shown:
  assumes "represents k w (b_inner l) a" "buf_ok a (b_pend l)"
  shows "\<exists>d'. blog_Read w l idx =
      (case map_of (shown a (b_pend l)) idx of Some p \<Rightarrow> Inr p | None \<Rightarrow> Inl ErrNotFound, l\<lparr>b_inner := d'\<rparr>) \<and>
    represents k w d' a"
proof (cases "pv_at (b_pend l) idx")
  case (Some p)
  then show ?thesis
    using assms shown_lookup [OF assms(2), of idx] by (intro exI [of _ "b_inner l"]) (simp add: blog_Read_def)
next
  case None
  obtain d' where d': "disk_Read w idx (b_inner l) = (a_Read idx a, d')" "represents k w d' a"
    using any.disk_Read_rep [OF assms(1), of idx] by blast
  show ?thesis
    using None d' shown_lookup [OF assms(2), of idx] a_Read_visible [OF dlog_rep_chains [OF assms(1)], of idx]
    by (intro exI [of _ d']) (auto simp: blog_Read_def no_empty_def split: sum.splits)
qed

theorem blog_read_shown_witness:
  "fst (blog_Read small_sys small_one 1) = Inr [7] \<and> fst (blog_Read small_sys small_one 2) = Inl ErrNotFound"
proof
  note rs = blog_read_shown [of Binary small_sys small_one "ALog [] None 0 None", unfolded small_one_ok, OF small_represents small_one_ok(1)]
  show "fst (blog_Read small_sys small_one 1) = Inr [7]" using rs [of 1] by auto
  show "fst (blog_Read small_sys small_one 2) = Inl ErrNotFound" using rs [of 2] by auto
qed

section \<open>Walking\<close>

lemma iterE_stop:
  assumes "sorted (map fst xs)" "\<And>st x. snd (fn st x) \<noteq> Some ErrLogRangeBoundary"
  shows "fst (iterE (log_boundary stop fn) st xs) = fst (iterE fn st (filter (\<lambda>x. fst x < stop) xs)) \<and>
    (snd (iterE (log_boundary stop fn) st xs) \<noteq> None \<and> snd (iterE (log_boundary stop fn) st xs) \<noteq> Some ErrLogRangeBoundary \<longleftrightarrow>
      snd (iterE fn st (filter (\<lambda>x. fst x < stop) xs)) \<noteq> None) \<and>
    (snd (iterE fn st (filter (\<lambda>x. fst x < stop) xs)) \<noteq> None \<longrightarrow>
      snd (iterE (log_boundary stop fn) st xs) = snd (iterE fn st (filter (\<lambda>x. fst x < stop) xs)))"
  using assms(1)
proof (induction xs arbitrary: st)
  case (Cons x xs)
  show ?case
  proof (cases "fst x < stop")
    case True
    obtain st' e where f: "fn st x = (st', e)" by fastforce
    then have "e \<noteq> Some ErrLogRangeBoundary" using assms(2) [of st x] by auto
    with True f Cons show ?thesis by (cases e) (auto simp: log_boundary_def)
  next
    case False
    then have "filter (\<lambda>x. fst x < stop) xs = []" using Cons.prems by (fastforce simp: filter_empty_conv)
    with False show ?thesis by (simp add: log_boundary_def)
  qed
qed simp

lemma pend_walk_iterE:
  "idx + length ps < u64_lim \<Longrightarrow> pend_walk fn from upTo idx ps st =
     iterE fn st (filter (\<lambda>x. from \<le> fst x \<and> fst x \<le> upTo) (enumerate idx ps))"
proof (induction ps arbitrary: idx st)
  case (Cons p ps)
  have nx: "u64_add idx 1 = Suc idx" using Cons.prems by (simp add: u64_simps)
  have IH: "pend_walk fn from upTo (Suc idx) ps st' =
      iterE fn st' (filter (\<lambda>x. from \<le> fst x \<and> fst x \<le> upTo) (enumerate (Suc idx) ps))" for st'
    using Cons by simp
  have "filter (\<lambda>x. from \<le> fst x \<and> fst x \<le> upTo) (enumerate (Suc idx) ps) = []" if "upTo < idx"
    using that by (auto simp: filter_empty_conv in_set_enumerate_eq)
  with nx IH show ?case by (auto split: prod.split option.split)
qed simp

lemma rangeBounded_shown:
  assumes rep: "represents k w d a" and up: "upTo < u64_max"
    and buf: "case pv_some pend of None \<Rightarrow> True | Some p \<Rightarrow> pv_first p + length (pv_entries p) < u64_max"
    and fn: "\<And>st x. snd (fn st x) \<notin> {Some ErrLogRangeBoundary, Some ErrRangeBoundary}"
  shows "\<exists>d'. rangeBounded w d from upTo pend fn st =
      Some (iterE fn st (filter (\<lambda>x. from \<le> fst x \<and> fst x \<le> upTo) (shown a pend)), d') \<and> represents k w d' a"
proof -
  define stop where "stop = (case pv_some pend of Some p \<Rightarrow> min (pv_first p) (Suc upTo) | None \<Rightarrow> Suc upTo)"
  let ?vs = "filter (\<lambda>x. from \<le> fst x) (visible a)"
  have upto: "u64_add upTo 1 = Suc upTo" using up by (simp add: u64_simps)
  have stop: "(case pv_some pend of Some p \<Rightarrow> if pv_first p < u64_add upTo 1 then pv_first p else u64_add upTo 1
      | None \<Rightarrow> u64_add upTo 1) = stop"
    unfolding upto by (auto simp: stop_def min_def split: option.split)
  have bd: "snd (log_boundary stop fn st x) \<noteq> Some ErrRangeBoundary" for st x using fn [of st x] by (simp add: log_boundary_def)
  obtain d' where d': "disk_Range w (log_boundary stop fn) from st d = Some (iterE (log_boundary stop fn) st ?vs, d')"
    "represents k w d' a"
    using any.disk_Range_rep [OF rep, of "log_boundary stop fn" "from" st]
      a_Range_visible [OF dlog_rep_chains [OF rep] bd] by auto
  have srt: "sorted (map fst ?vs)" using visible_sorted [OF dlog_rep_chains [OF rep]] sorted_filter by blast
  have nb: "snd (fn st x) \<noteq> Some ErrLogRangeBoundary" for st x using fn [of st x] by simp
  obtain st1 e1 where X: "iterE (log_boundary stop fn) st ?vs = (st1, e1)" by fastforce
  obtain st2 e2 where Y: "iterE fn st (filter (\<lambda>x. fst x < stop) ?vs) = (st2, e2)" by fastforce
  have it: "st1 = st2" "(e1 \<noteq> None \<and> e1 \<noteq> Some ErrLogRangeBoundary) = (e2 \<noteq> None)" "e2 \<noteq> None \<Longrightarrow> e1 = e2"
    using iterE_stop [where fn = fn and stop = stop and st = st, OF srt nb] X Y by auto
  let ?R = "\<lambda>x. from \<le> fst x \<and> fst x \<le> upTo"
  have low: "filter (\<lambda>x. fst x < stop) ?vs = filter ?R
      (case pv_some pend of None \<Rightarrow> visible a | Some p \<Rightarrow> filter (\<lambda>x. fst x < pv_first p) (visible a))"
    by (auto simp: stop_def split: option.split intro!: filter_cong)
  have sh: "filter ?R (shown a pend) = filter (\<lambda>x. fst x < stop) ?vs @
      (case pv_some pend of None \<Rightarrow> [] | Some p \<Rightarrow> filter ?R (enumerate (pv_first p) (pv_entries p)))"
    unfolding low by (simp add: shown_def split: option.split)
  have walk: "pend_walk fn from upTo (pv_first p) (pv_entries p) st1 =
      iterE fn st1 (case pv_some pend of None \<Rightarrow> [] | Some p \<Rightarrow> filter ?R (enumerate (pv_first p) (pv_entries p)))"
    if "pend = Some p" for p
    using that buf pend_walk_iterE [of "pv_first p" "pv_entries p" fn "from" upTo st1] by (auto simp: pv_some_def buf_ok_def)
  show ?thesis
  proof (cases e2)
    case None
    then show ?thesis
      using d' it X Y walk sh stop by (cases pend) (auto simp: rangeBounded_def Let_def iterE_append pv_some_def)
  next
    case (Some e)
    then show ?thesis
      using d' it X Y sh stop by (auto simp: rangeBounded_def Let_def iterE_append)
  qed
qed

lemma buf_ok_bound: "buf_ok a po \<Longrightarrow> case pv_some po of None \<Rightarrow> True | Some p \<Rightarrow> pv_first p + length (pv_entries p) < u64_max"
  by (auto simp: buf_ok_def split: option.splits)

text \<open>C20: The upward walk of the buffered log returns and visits exactly the records shown from the index on,
  in order and each once, whether they are on disk, buffered or both.\<close>

theorem blog_range_shown:
  assumes "represents k w (b_inner l) a" "buf_ok a (b_pend l)"
    "\<And>st x. snd (fn st x) \<notin> {Some ErrLogRangeBoundary, Some ErrRangeBoundary}"
  shows "\<exists>d'. blog_Range w l from fn st =
      Some (iterE fn st (filter (\<lambda>x. from \<le> fst x \<and> fst x < u64_max) (shown a (b_pend l))), l\<lparr>b_inner := d'\<rparr>) \<and> represents k w d' a"
proof -
  have le: "(x \<le> u64_max - 1) = (x < u64_max)" for x :: nat by auto
  obtain d' where "rangeBounded w (b_inner l) from (u64_max - 1) (b_pend l) fn st =
      Some (iterE fn st (filter (\<lambda>x. from \<le> fst x \<and> fst x < u64_max) (shown a (b_pend l))), d')" "represents k w d' a"
    using rangeBounded_shown [of k w "b_inner l" a "u64_max - 1" "b_pend l" fn "from" st, OF assms(1) _ buf_ok_bound [OF assms(2)] assms(3)]
    unfolding le by auto
  then show ?thesis by (intro exI [of _ d']) (simp add: blog_Range_def)
qed

theorem blog_range_shown_witness:
  "\<exists>l'. blog_Range small_sys small_one 1 (\<lambda>st x. (st @ [x], None)) [] = Some (([(1, [7])], None), l')"
proof -
  have fn: "snd ((\<lambda>st x. (st @ [x :: nat \<times> bytes], None :: err option)) st x) \<notin> {Some ErrLogRangeBoundary, Some ErrRangeBoundary}" for st x
    by simp
  show ?thesis
    using blog_range_shown [of Binary small_sys small_one "ALog [] None 0 None" "\<lambda>st x. (st @ [x], None)" 1 "[]",
        unfolded small_one_ok, OF small_represents small_one_ok(1) fn] by auto
qed

section \<open>Appending\<close>

lemma blog_LastIndex_next:
  assumes "represents k w (b_inner l) a" "buf_ok a (b_pend l)"
  shows "blog_LastIndex l + 1 = buf_next a (b_pend l)" "buf_next a (b_pend l) < u64_max"
proof -
  show lt: "buf_next a (b_pend l) < u64_max" using assms(2) by (auto simp: buf_ok_def buf_next_def split: option.splits)
  show "blog_LastIndex l + 1 = buf_next a (b_pend l)"
  proof (cases "pv_some (b_pend l)")
    case None
    then show ?thesis using disk_LastIndex_rep [OF assms(1)] lt by (simp add: blog_LastIndex_def buf_next_def)
  next
    case (Some p)
    then have "pv_entries p \<noteq> []" by (simp add: pv_some_iff)
    then show ?thesis using Some lt pv_last_eq [of p] by (cases "pv_entries p") (auto simp: blog_LastIndex_def buf_next_def)
  qed
qed

lemma blog_write_result:
  assumes rep: "represents k w (b_inner l) a" and buf: "buf_ok a (b_pend l)"
  shows "blog_write l idx p =
    (if is_ReadOnly (b_inner l) then (Inl ErrReadOnly, l)
     else if idx \<noteq> buf_next a (b_pend l) then (Inl (ErrOutOfOrder idx (buf_next a (b_pend l))), l)
     else (Inr (), l\<lparr>b_pend := Some (case pv_some (b_pend l) of
         Some old \<Rightarrow> \<lparr>pv_first = pv_first old, pv_entries = pv_entries old @ [p]\<rparr>
       | None \<Rightarrow> \<lparr>pv_first = idx, pv_entries = [p]\<rparr>), b_pendingBytes := b_pendingBytes l + int (length p)\<rparr>))"
proof -
  have "(case pv_some (b_pend l) of Some old \<Rightarrow> u64_add (pv_last old) 1 | None \<Rightarrow> u64_add (disk_LastIndex (b_inner l)) 1) =
      u64_add (blog_LastIndex l) 1"
    by (simp add: blog_LastIndex_def split: option.split)
  also have "\<dots> = buf_next a (b_pend l)" using blog_LastIndex_next [OF rep buf] by (simp add: u64_simps)
  finally show ?thesis by (simp add: blog_write_def Let_def split: option.split)
qed

lemma visible_below_next:
  assumes "writable k w d a" "x \<in> set (visible a)"
  shows "fst x < next_index a"
proof -
  obtain l pa where d: "d = DLog l pa" by (cases d)
  obtain segs act fb pb where a: "a = ALog segs act fb pb" by (cases a)
  let ?as = "all_segs segs act"
  have "own_rep (codecOf k) (frameOf k) w l segs act" using assms(1) d a by simp
  then have ch: "chain ?as" by (rule own_repD(5))
  have own: "fst x < next_index a" if x: "x \<in> set (entries ?as)"
  proof -
    have ne: "entries ?as \<noteq> []" "?as \<noteq> []" using x by auto
    have "fst x \<in> set (map fst (entries ?as))" using x by simp
    then show ?thesis using map_fst_entries [OF ch ne(2)] ne a by (simp add: next_index_def)
  qed
  have "fb \<le> next_index a" using assms(1) d a by simp
  then show ?thesis using assms(2) own a by (auto split: option.splits)
qed

lemma append_shown:
  assumes "writable k w (b_inner l) a" "buf_ok a (b_pend l)" "idx + 1 < u64_max" "blog_write l idx p = (r, l')"
  shows "b_inner l' = b_inner l \<and>
    (if idx = buf_next a (b_pend l)
     then r = Inr () \<and> shown a (b_pend l') = shown a (b_pend l) @ [(idx, p)] \<and> buf_ok a (b_pend l')
     else r = Inl (ErrOutOfOrder idx (buf_next a (b_pend l))) \<and> l' = l)"
proof -
  have rep: "represents k w (b_inner l) a" using assms(1) writable_in_order in_order_represents by blast
  have ro: "\<not> is_ReadOnly (b_inner l)" using assms(1) by (cases "b_inner l"; cases a) (simp add: is_ReadOnly_def)
  show ?thesis
  proof (cases "idx = buf_next a (b_pend l)")
    case False
    then show ?thesis using blog_write_result [OF rep assms(2), of idx p] ro assms(4) by auto
  next
    case True
    show ?thesis
    proof (cases "pv_some (b_pend l)")
      case None
      then have l': "r = Inr ()" "b_pend l' = Some \<lparr>pv_first = idx, pv_entries = [p]\<rparr>" "b_inner l' = b_inner l"
        using blog_write_result [OF rep assms(2), of idx p] ro assms(4) True by auto
      have idx: "idx = next_index a" using True None by (simp add: buf_next_def)
      have "filter (\<lambda>x. fst x < idx) (visible a) = visible a" "filter (\<lambda>x. idx \<le> fst x) (visible a) = []"
        using visible_below_next [OF assms(1)] idx by (auto simp: filter_id_conv filter_empty_conv not_le)
      moreover have "1 \<le> idx" using disk_LastIndex_rep [OF rep] assms(2) None idx by (simp add: buf_ok_def)
      ultimately show ?thesis using l' True None idx assms(3) by (auto simp: shown_def buf_ok_def pv_some_def)
    next
      case (Some old)
      then have l': "r = Inr ()" "b_pend l' = Some \<lparr>pv_first = pv_first old, pv_entries = pv_entries old @ [p]\<rparr>"
        "b_inner l' = b_inner l"
        using blog_write_result [OF rep assms(2), of idx p] ro assms(4) True by auto
      have idx: "idx = pv_first old + length (pv_entries old)" using True Some by (simp add: buf_next_def)
      obtain m where m: "m \<le> length (pv_entries old)" "next_index a = pv_first old + m"
        "filter (\<lambda>x. pv_first old \<le> fst x) (visible a) = enumerate (pv_first old) (take m (pv_entries old))"
        using assms(2) Some by (auto simp: buf_ok_def)
      then have "\<exists>m'\<le>length (pv_entries old @ [p]). next_index a = pv_first old + m' \<and>
          filter (\<lambda>x. pv_first old \<le> fst x) (visible a) = enumerate (pv_first old) (take m' (pv_entries old @ [p]))"
        by (intro exI [of _ m]) simp
      then show ?thesis
        using l' True Some idx assms(2,3) by (auto simp: shown_def buf_ok_def pv_some_def enumerate_append_eq)
    qed
  qed
qed

text \<open>C21: An append at the index after the last one shown is accepted and shown at once, behind everything
  else; at any other index it is refused and nothing changes. The disk is not touched.\<close>

theorem blog_append_shown:
  assumes "writable k w (b_inner l) a" "buf_ok a (b_pend l)" "idx + 1 < u64_max" "blog_write l idx p = (r, l')"
  shows "b_inner l' = b_inner l \<and>
    (if idx = buf_next a (b_pend l)
     then r = Inr () \<and> shown a (b_pend l') = shown a (b_pend l) @ [(idx, p)] \<and> buf_ok a (b_pend l')
     else r = Inl (ErrOutOfOrder idx (buf_next a (b_pend l))) \<and> l' = l)"
  by (rule append_shown [OF assms])



theorem blog_append_shown_witness:
  "fst (blog_write small_buf 1 [7]) = Inr () \<and> fst (blog_write small_buf 3 [7]) = Inl (ErrOutOfOrder 3 1)"
proof -
  have "fst (blog_write small_buf i [7]) = (if i = 1 then Inr () else Inl (ErrOutOfOrder i 1))" if "i \<in> {1, 3}" for i
    using blog_append_shown [of Binary small_sys small_buf "ALog [] None 0 None" i "[7]" "fst (blog_write small_buf i [7])"
        "snd (blog_write small_buf i [7])", unfolded small_buf_ok, OF small_writable small_buf_ok(1)] that by (auto split: if_splits)
  then show ?thesis by simp
qed

end
