(* ===== verification/Buffered_Sync.thy ===== *)
theory Buffered_Sync
  imports Buffered_Spec
begin

text \<open>
  Syncing: the three steps of a sync with appends in between as a step relation, what it keeps and makes
  durable, the bound on the buffer, and snapshots.
\<close>

section \<open>Syncing\<close>

lemma sync_skip:
  "idx + length xs \<le> durable + 1 \<Longrightarrow> durable < u64_max \<Longrightarrow>
   sync_writes w d durable idx (xs @ ys) = sync_writes w d durable (idx + length xs) ys"
proof (induction xs arbitrary: idx)
  case (Cons x xs)
  then have "u64_add idx 1 = Suc idx" by (simp add: u64_simps)
  with Cons show ?case by simp
qed simp

lemma sync_writes_all:
  "writable k w d a \<Longrightarrow> idx = next_index a \<Longrightarrow> durable < idx \<Longrightarrow> idx + length ps < u64_max \<Longrightarrow> list_all (stableOf k) ps \<Longrightarrow>
   \<exists>r w' d' a' j. sync_writes w d durable idx ps = (r, w', d') \<and> writable k w' d' a' \<and> appended a a' (take j ps) \<and>
     (r = Inr () \<and> j = length ps \<or> r = Inl ErrPayloadTooLarge \<and> j < length ps)"
proof (induction ps arbitrary: w d a idx)
  case Nil
  then show ?case by (intro exI [of _ "Inr ()"] exI [of _ w] exI [of _ d] exI [of _ a] exI [of _ 0]) simp
next
  case (Cons p ps)
  obtain r w1 d1 a1 where s: "disk_Write w d idx p = (r, w1, d1)" "writable k w1 d1 a1"
    "r = Inr () \<and> appended a a1 [p] \<or> r = Inl ErrPayloadTooLarge \<and> appended a a1 []"
    using writable_write [OF Cons.prems(1,2), of p] Cons.prems by auto
  have nx: "u64_add idx 1 = Suc idx" using Cons.prems(4) by (simp add: u64_simps)
  show ?case
  proof (cases r)
    case (Inl e)
    then have "sync_writes w d durable idx (p # ps) = (Inl ErrPayloadTooLarge, w1, d1)" "appended a a1 (take 0 (p # ps))"
      using s Cons.prems(3) by auto
    then show ?thesis using s(2) by (metis length_greater_0_conv list.distinct(1))
  next
    case (Inr u)
    then have ap: "appended a a1 [p]" using s(3) by auto
    obtain r2 w2 d2 a2 j where t: "sync_writes w1 d1 durable (Suc idx) ps = (r2, w2, d2)" "writable k w2 d2 a2"
      "appended a1 a2 (take j ps)" "r2 = Inr () \<and> j = length ps \<or> r2 = Inl ErrPayloadTooLarge \<and> j < length ps"
    proof -
      have "Suc idx = next_index a1" "durable < Suc idx" "Suc idx + length ps < u64_max" "list_all (stableOf k) ps"
        using ap Cons.prems by (auto simp: appended_def)
      from Cons.IH [OF s(2) this] show ?thesis using that by blast
    qed
    have "sync_writes w d durable idx (p # ps) = (r2, w2, d2)" using s(1) Inr t(1) nx Cons.prems(3) by simp
    moreover have "appended a a2 (take (Suc j) (p # ps))" using appended_trans [OF ap t(3)] by simp
    ultimately show ?thesis using t(2,4)
      by (intro exI [of _ r2] exI [of _ w2] exI [of _ d2] exI [of _ a2] exI [of _ "Suc j"]) simp
  qed
qed

text \<open>The first \<open>m\<close> records of a buffer are on disk too.\<close>

definition disk_has :: "alog \<Rightarrow> nat \<Rightarrow> bytes list \<Rightarrow> nat \<Rightarrow> bool" where
  "disk_has a f es m \<longleftrightarrow> m \<le> length es \<and> next_index a = f + m \<and>
     filter (\<lambda>x. f \<le> fst x) (visible a) = enumerate f (take m es)"

lemma filter_enumerate_ge: "b \<le> i \<Longrightarrow> filter (\<lambda>x. i \<le> fst x) (enumerate b ps) = enumerate i (drop (i - b) ps)"
proof (induction ps arbitrary: b)
  case (Cons p ps)
  show ?case
  proof (cases "b = i")
    case True
    then show ?thesis by (auto simp: filter_id_conv in_set_enumerate_eq)
  next
    case False
    then have "i - b = Suc (i - Suc b)" using Cons.prems by simp
    then show ?thesis using Cons False by simp
  qed
qed simp

lemma filter_enumerate_lt: "filter (\<lambda>x. fst x < i) (enumerate b ps) = enumerate b (take (i - b) ps)"
proof (induction ps arbitrary: b)
  case (Cons p ps)
  show ?case
  proof (cases "b < i")
    case True
    then have "i - b = Suc (i - Suc b)" by simp
    then show ?thesis using Cons True by simp
  next
    case False
    then show ?thesis by (auto simp: filter_empty_conv in_set_enumerate_eq)
  qed
qed simp

lemma sorted_partition: "sorted (map fst xs) \<Longrightarrow> filter (\<lambda>x. fst x < i) xs @ filter (\<lambda>x. i \<le> fst x) xs = (xs :: (nat \<times> 'a) list)"
proof (induction xs)
  case (Cons x xs)
  show ?case
  proof (cases "fst x < i")
    case False
    then have "\<forall>y\<in>set xs. i \<le> fst y" using Cons.prems by auto
    then have "filter (\<lambda>x. fst x < i) xs = []" "filter (\<lambda>x. i \<le> fst x) xs = xs"
      by (auto simp: filter_empty_conv filter_id_conv not_less)
    then show ?thesis using False by simp
  qed (use Cons in simp)
qed simp

lemma disk_has_append:
  assumes "disk_has a f es m" "appended a a' (take j (drop m es))"
  shows "disk_has a' f es (m + length (take j (drop m es)))"
    "filter (\<lambda>x. fst x < f) (visible a') = filter (\<lambda>x. fst x < f) (visible a)"
proof -
  let ?qs = "take j (drop m es)"
  have m: "m \<le> length es" "next_index a = f + m" "filter (\<lambda>x. f \<le> fst x) (visible a) = enumerate f (take m es)"
    using assms(1) by (auto simp: disk_has_def)
  have ap: "next_index a' = f + m + length ?qs" "visible a' = visible a @ enumerate (f + m) ?qs"
    using assms(2) m(2) by (auto simp: appended_def)
  have "filter (\<lambda>x. f \<le> fst x) (enumerate (f + m) ?qs) = enumerate (f + m) ?qs"
    by (auto simp: filter_id_conv in_set_enumerate_eq)
  moreover have "take (m + length ?qs) es = take m es @ ?qs" by (simp add: take_add min_def)
  ultimately show "disk_has a' f es (m + length ?qs)"
    using m ap by (auto simp: disk_has_def enumerate_append_eq min_def)
  show "filter (\<lambda>x. fst x < f) (visible a') = filter (\<lambda>x. fst x < f) (visible a)"
    using ap(2) by (auto simp: filter_empty_conv in_set_enumerate_eq)
qed

lemma disk_has_more: "disk_has a f es m \<Longrightarrow> disk_has a f (es @ fs) m"
  by (auto simp: disk_has_def)

lemma disk_has_trim:
  assumes "disk_has a f es m" "n \<le> m" "sorted (map fst (visible a))"
  shows "disk_has a (f + n) (drop n es) (m - n)"
    "filter (\<lambda>x. fst x < f + n) (visible a) = filter (\<lambda>x. fst x < f) (visible a) @ enumerate f (take n es)"
proof -
  have m: "m \<le> length es" "next_index a = f + m" "filter (\<lambda>x. f \<le> fst x) (visible a) = enumerate f (take m es)"
    using assms(1) by (auto simp: disk_has_def)
  have "filter (\<lambda>x. f + n \<le> fst x) (visible a) = filter (\<lambda>x. f + n \<le> fst x) (filter (\<lambda>x. f \<le> fst x) (visible a))"
    by (auto intro!: filter_cong)
  then show "disk_has a (f + n) (drop n es) (m - n)"
    using m assms(2) by (simp add: disk_has_def filter_enumerate_ge drop_take)
  have "filter (\<lambda>x. fst x < f + n) (visible a) =
      filter (\<lambda>x. fst x < f + n) (filter (\<lambda>x. fst x < f) (visible a) @ filter (\<lambda>x. f \<le> fst x) (visible a))"
    using sorted_partition [OF assms(3), of f] by simp
  also have "\<dots> = filter (\<lambda>x. fst x < f) (visible a) @ enumerate f (take n es)"
    using m(3) assms(2) by (auto simp: filter_enumerate_lt min_def intro!: filter_cong)
  finally show "filter (\<lambda>x. fst x < f + n) (visible a) = filter (\<lambda>x. fst x < f) (visible a) @ enumerate f (take n es)" .
qed

subsection \<open>A sync and the appends between its steps\<close>

text \<open>
  Where a sync stands: nothing is running, or it is writing what it captured (from index \<open>first\<close> on, with the
  last index that was on disk, the next index, the captured records and those left to write).
\<close>

datatype sync_phase = Idle | Writing nat nat nat "bytes list" "bytes list"

inductive sync_step :: "sys \<times> blog \<times> sync_phase \<Rightarrow> sys \<times> blog \<times> sync_phase \<Rightarrow> bool" where
  capture: "sync_capture l target = (first, batch) \<Longrightarrow> batch \<noteq> [] \<Longrightarrow>
    sync_step (w, l, Idle) (w, l, Writing first (disk_LastIndex (b_inner l)) first batch batch)"
| present: "idx \<le> durable \<Longrightarrow>
    sync_step (w, l, Writing first durable idx batch (p # ps)) (w, l, Writing first durable (u64_add idx 1) batch ps)"
| persist: "durable < idx \<Longrightarrow> disk_Write w (b_inner l) idx p = (Inr (), w', d') \<Longrightarrow>
    sync_step (w, l, Writing first durable idx batch (p # ps)) (w', l\<lparr>b_inner := d'\<rparr>, Writing first durable (u64_add idx 1) batch ps)"
| refuse: "durable < idx \<Longrightarrow> disk_Write w (b_inner l) idx p = (Inl e, w', d') \<Longrightarrow>
    sync_step (w, l, Writing first durable idx batch (p # ps)) (w', l\<lparr>b_inner := d'\<rparr>, Idle)"
| trim: "sync_step (w, l, Writing first durable idx batch []) (w, sync_trim l first batch, Idle)"

text \<open>Appends of records the codec keeps as they are can come between any two steps.\<close>

inductive buf_step :: "codec_kind \<Rightarrow> sys \<times> blog \<times> sync_phase \<Rightarrow> sys \<times> blog \<times> sync_phase \<Rightarrow> bool" for k where
  append: "stableOf k p \<Longrightarrow> idx + 1 < u64_max \<Longrightarrow> blog_write l idx p = (r, l') \<Longrightarrow> buf_step k (w, l, ph) (w, l', ph)"
| sync: "sync_step s s' \<Longrightarrow> buf_step k s s'"

fun phase_ok :: "alog \<Rightarrow> pendingView option \<Rightarrow> sync_phase \<Rightarrow> bool" where
  "phase_ok a po Idle \<longleftrightarrow> True"
| "phase_ok a po (Writing first durable idx batch rest) \<longleftrightarrow>
     (\<exists>done es. po = Some \<lparr>pv_first = first, pv_entries = batch @ es\<rparr> \<and> batch = done @ rest \<and> batch \<noteq> [] \<and>
        idx = first + length done \<and> first \<le> durable + 1 \<and>
        disk_has a first (batch @ es) (max (durable + 1 - first) (length done)))"

definition pending :: "pendingView option \<Rightarrow> bytes list" where
  "pending po = (case po of None \<Rightarrow> [] | Some p \<Rightarrow> pv_entries p)"

fun buf_inv :: "codec_kind \<Rightarrow> sys \<times> blog \<times> sync_phase \<Rightarrow> alog \<Rightarrow> bool" where
  "buf_inv k (w, l, ph) a \<longleftrightarrow> writable k w (b_inner l) a \<and> buf_ok a (b_pend l) \<and> list_all (stableOf k) (pending (b_pend l)) \<and>
     phase_ok a (b_pend l) ph"

lemma small_buf_inv: "buf_inv Binary (small_sys, small_buf, Idle) (ALog [] None 0 None)"
  using small_writable small_buf_ok by (simp add: pending_def small_buf_def new_blog_def del: writable.simps)

lemma small_one_inv: "buf_inv Binary (small_sys, small_one, Idle) (ALog [] None 0 None)"
  using small_writable small_one_ok by (simp add: pending_def small_one_def bin_stable_def del: writable.simps)

lemma small_last: "disk_LastIndex (DLog small_log None) = 0"
  using disk_LastIndex_rep [OF small_represents] by simp

lemma small_buf_write: "blog_write small_buf 1 [7] = (Inr (), small_one)"
  using small_last by (simp add: blog_write_def small_buf_def small_one_def new_blog_def is_ReadOnly_def fresh_log_def pv_some_def u64_simps)

lemma small_one_capture: "sync_capture small_one 1 = (1, [[7]])"
  by (simp add: sync_capture_def small_one_def pv_some_def entriesPrefix_def u64_simps)

lemma buf_ok_disk_has: "pv_entries p \<noteq> [] \<Longrightarrow> buf_ok a (Some p) \<longleftrightarrow>
    1 \<le> pv_first p \<and> pv_first p + length (pv_entries p) < u64_max \<and> (\<exists>m. disk_has a (pv_first p) (pv_entries p) m)"
  by (auto simp: buf_ok_def disk_has_def pv_some_def)

lemma writable_represents: "writable k w d a \<Longrightarrow> represents k w d a"
  using writable_in_order in_order_represents by blast

lemma writable_sorted: "writable k w d a \<Longrightarrow> sorted (map fst (visible a))"
  using visible_sorted [OF dlog_rep_chains [OF writable_represents]] by blast

lemma buf_inv_capture:
  assumes "buf_inv k (w, l, Idle) a" "sync_capture l target = (first, batch)" "batch \<noteq> []"
  shows "buf_inv k (w, l, Writing first (disk_LastIndex (b_inner l)) first batch batch) a"
proof -
  have wr: "writable k w (b_inner l) a" and buf: "buf_ok a (b_pend l)" using assms(1) by auto
  obtain p n where p: "b_pend l = Some p" "pv_entries p \<noteq> []" "first = pv_first p" "batch = take n (pv_entries p)"
  proof -
    obtain p where p: "b_pend l = Some p" "pv_entries p \<noteq> []"
      using assms(2,3) by (auto simp: sync_capture_def pv_some_def split: option.splits if_splits)
    then have "first = pv_first p \<and> (\<exists>n. batch = take n (pv_entries p))"
      using assms(2,3) by (auto simp: sync_capture_def pv_some_def entriesPrefix_def Let_def split: if_splits intro: exI [of _ "length (pv_entries p)"])
    with p that show thesis by blast
  qed
  have split: "pv_entries p = batch @ drop n (pv_entries p)" using p(4) by simp
  obtain m where m: "disk_has a first (pv_entries p) m" and lt: "first + length (pv_entries p) < u64_max"
    using buf p buf_ok_disk_has [OF p(2)] by auto
  have "next_index a < u64_lim" using m lt by (simp add: disk_has_def)
  then have "disk_LastIndex (b_inner l) + 1 = first + m" 
    using disk_LastIndex_rep [OF writable_represents [OF wr]] m by (simp add: disk_has_def)
  then have le: "first \<le> disk_LastIndex (b_inner l) + 1" and m': "max (disk_LastIndex (b_inner l) + 1 - first) 0 = m" by simp_all
  have po: "b_pend l = Some \<lparr>pv_first = first, pv_entries = batch @ drop n (pv_entries p)\<rparr>"
    using p(1,3) split by (cases p) simp
  have has: "disk_has a first (batch @ drop n (pv_entries p)) m" using m split by simp
  have "phase_ok a (b_pend l) (Writing first (disk_LastIndex (b_inner l)) first batch batch)"
    unfolding phase_ok.simps using po assms(3) le has m'
    by (intro exI [of _ "[]"] exI [of _ "drop n (pv_entries p)"]) simp
  then show ?thesis using assms(1) by simp
qed

text \<open>One record of the captured ones is written, or found too large.\<close>

lemma buf_inv_persist:
  assumes inv: "buf_inv k (w, l, Writing first durable idx batch (p # ps)) a" and lt: "durable < idx"
    and wr: "disk_Write w (b_inner l) idx p = (r, w', d')"
  shows "\<exists>a' qs. (r = Inr () \<and> buf_inv k (w', l\<lparr>b_inner := d'\<rparr>, Writing first durable (u64_add idx 1) batch ps) a' \<or>
      r = Inl ErrPayloadTooLarge \<and> buf_inv k (w', l\<lparr>b_inner := d'\<rparr>, Idle) a') \<and>
    shown a' (b_pend l) = shown a (b_pend l) \<and> appended a a' qs"
proof -
  obtain "done" es where ph: "b_pend l = Some \<lparr>pv_first = first, pv_entries = batch @ es\<rparr>" "batch = done @ p # ps"
    "idx = first + length done" "first \<le> durable + 1" "disk_has a first (batch @ es) (max (durable + 1 - first) (length done))"
    using inv unfolding buf_inv.simps phase_ok.simps by blast
  have m: "max (durable + 1 - first) (length done) = length done" using lt ph(3) by simp
  have b: "1 \<le> first" "first + length (batch @ es) < u64_max" and st: "list_all (stableOf k) (batch @ es)"
    using inv ph(1,2) buf_ok_disk_has [of "\<lparr>pv_first = first, pv_entries = batch @ es\<rparr>" a] by (auto simp: pending_def)
  have nx: "idx = next_index a" "idx + 1 < u64_lim" "stableOf k p" "u64_add idx 1 = Suc idx"
    using ph b st m by (auto simp: disk_has_def u64_simps)
  obtain a' where a': "writable k w' d' a'"
    "r = Inr () \<and> appended a a' [p] \<or> r = Inl ErrPayloadTooLarge \<and> appended a a' []"
    using writable_write [OF _ nx(1-3)] inv wr by fastforce
  define n where "n = (if r = Inr () then 1 else 0 :: nat)"
  have ap: "appended a a' (take n (drop (length done) (batch @ es)))" using a'(2) ph(2) by (auto simp: n_def)
  note has = disk_has_append [OF ph(5) [unfolded m] ap]
  have len: "length (take n (drop (length done) (batch @ es))) = n" using ph(2) by (simp add: n_def)
  have vis: "\<exists>qs. appended a a' qs" using ap by blast
  have ne: "batch @ es \<noteq> []" using ph(2) by simp
  have ok: "buf_ok a' (b_pend l)" using has(1) b ph(1) ne buf_ok_disk_has [of "\<lparr>pv_first = first, pv_entries = batch @ es\<rparr>" a'] by auto
  have sh: "shown a' (b_pend l) = shown a (b_pend l)" using has(2) ph(1,2) by (simp add: shown_def pv_some_def)
  have phase: "phase_ok a' (b_pend l) (Writing first durable (u64_add idx 1) batch ps)" if "r = Inr ()"
    unfolding phase_ok.simps using that ph m has(1) len nx(4) ne lt
    by (intro exI [of _ "done @ [p]"] exI [of _ es]) (auto simp: n_def)
  show ?thesis using a' ok sh phase vis inv by auto
qed

lemma buf_inv_present:
  assumes inv: "buf_inv k (w, l, Writing first durable idx batch (p # ps)) a" and le: "idx \<le> durable"
  shows "buf_inv k (w, l, Writing first durable (u64_add idx 1) batch ps) a"
proof -
  obtain "done" es where ph: "b_pend l = Some \<lparr>pv_first = first, pv_entries = batch @ es\<rparr>" "batch = done @ p # ps"
    "idx = first + length done" "first \<le> durable + 1" "disk_has a first (batch @ es) (max (durable + 1 - first) (length done))"
    using inv unfolding buf_inv.simps phase_ok.simps by blast
  have b: "first + length (batch @ es) < u64_max"
    using inv ph(1,2) buf_ok_disk_has [of "\<lparr>pv_first = first, pv_entries = batch @ es\<rparr>" a] by auto
  have m: "max (durable + 1 - first) (length done) = max (durable + 1 - first) (length (done @ [p]))"
    using le ph(3) by simp
  have nx: "u64_add idx 1 = Suc idx" using b ph(2,3) by (simp add: u64_simps)
  have "phase_ok a (b_pend l) (Writing first durable (u64_add idx 1) batch ps)"
    unfolding phase_ok.simps using ph(1-4) ph(5) [unfolded m] nx
    by (intro exI [of _ "done @ [p]"] exI [of _ es]) simp
  then show ?thesis using inv by simp
qed

text \<open>With all captured records on disk, trimming the buffer hides none of them.\<close>

lemma buf_inv_trim:
  assumes inv: "buf_inv k (w, l, Writing first durable idx batch []) a"
  shows "buf_inv k (w, sync_trim l first batch, Idle) a"
    "shown a (b_pend (sync_trim l first batch)) = shown a (b_pend l)"
    "first + length batch \<le> next_index a"
proof -
  obtain es where ph: "b_pend l = Some \<lparr>pv_first = first, pv_entries = batch @ es\<rparr>" "batch \<noteq> []"
    "disk_has a first (batch @ es) (max (durable + 1 - first) (length batch))"
    using inv by auto
  define m where "m = max (durable + 1 - first) (length batch)"
  have m: "disk_has a first (batch @ es) m" "length batch \<le> m" using ph(3) by (auto simp: m_def)
  have wr: "writable k w (b_inner l) a" using inv by simp
  note t = disk_has_trim [OF m writable_sorted [OF wr]]
  have b: "1 \<le> first" "first + length (batch @ es) < u64_max"
    using inv ph(1,2) buf_ok_disk_has [of "\<lparr>pv_first = first, pv_entries = batch @ es\<rparr>" a] by auto
  have nx: "u64_add first (length batch) = first + length batch" using b(2) by (simp add: u64_simps)
  have po: "b_pend (sync_trim l first batch) = Some \<lparr>pv_first = first + length batch, pv_entries = es\<rparr>"
    "b_inner (sync_trim l first batch) = b_inner l"
    using ph(1) nx by (simp_all add: sync_trim_def)
  show "first + length batch \<le> next_index a" using m by (simp add: disk_has_def)
  have "shown a (Some \<lparr>pv_first = first + length batch, pv_entries = es\<rparr>) = shown a (b_pend l) \<and>
      buf_ok a (Some \<lparr>pv_first = first + length batch, pv_entries = es\<rparr>)"
  proof (cases "es = []")
    case True
    then have "m = length batch" using m by (simp add: disk_has_def)
    then have "visible a = filter (\<lambda>x. fst x < first) (visible a) @ enumerate first batch" "next_index a = first + length batch"
      using sorted_partition [OF writable_sorted [OF wr], of first] m(1) True by (auto simp: disk_has_def)
    then show ?thesis using True ph(1,2) b(2) by (simp add: shown_def pv_some_def buf_ok_def)
  next
    case False
    then have ne: "pv_entries \<lparr>pv_first = first + length batch, pv_entries = es\<rparr> \<noteq> []" by simp
    have "disk_has a (first + length batch) es (m - length batch)" using t(1) by simp
    then have "buf_ok a (Some \<lparr>pv_first = first + length batch, pv_entries = es\<rparr>)"
      unfolding buf_ok_disk_has [OF ne] using b by auto
    then show ?thesis using False ph(1,2) t(2) by (simp add: shown_def pv_some_def enumerate_append_eq)
  qed
  then show "buf_inv k (w, sync_trim l first batch, Idle) a" "shown a (b_pend (sync_trim l first batch)) = shown a (b_pend l)"
    using po inv ph(1) by (auto simp: pending_def)
qed

lemma sync_step_keeps:
  assumes "sync_step s s'" "buf_inv k s a"
  shows "\<exists>a' qs. buf_inv k s' a' \<and> shown a' (b_pend (fst (snd s'))) = shown a (b_pend (fst (snd s))) \<and> appended a a' qs"
  using assms
proof (cases rule: sync_step.cases)
  case (capture l target first batch w)
  then show ?thesis using buf_inv_capture [of k w l a target first batch] assms(2)
    by (intro exI [of _ a] exI [of _ "[]"]) (simp del: buf_inv.simps)
next
  case (present idx durable w l first batch p ps)
  then show ?thesis using buf_inv_present [of k w l first durable idx batch p ps a] assms(2)
    by (intro exI [of _ a] exI [of _ "[]"]) (simp del: buf_inv.simps)
next
  case (persist durable idx w l p w' d' first batch ps)
  then show ?thesis using buf_inv_persist [of k w l first durable idx batch p ps a "Inr ()" w' d'] assms(2)
    by (auto simp del: buf_inv.simps)
next
  case (refuse durable idx w l p e w' d' first batch ps)
  then show ?thesis using buf_inv_persist [of k w l first durable idx batch p ps a "Inl e" w' d'] assms(2)
    by (auto simp del: buf_inv.simps)
next
  case (trim w l first durable idx batch)
  then show ?thesis using buf_inv_trim [of k w l first durable idx batch a] assms(2)
    by (intro exI [of _ a] exI [of _ "[]"]) (simp del: buf_inv.simps)
qed

lemma buf_write_keeps:
  assumes "buf_inv k (w, l, ph) a" "stableOf k p" "idx + 1 < u64_max" "blog_write l idx p = (r, l')"
  shows "buf_inv k (w, l', ph) a \<and> (\<exists>ps. shown a (b_pend l') = shown a (b_pend l) @ ps)"
proof -
  have wr: "writable k w (b_inner l) a" and ok: "buf_ok a (b_pend l)" and ph: "phase_ok a (b_pend l) ph"
    and st: "list_all (stableOf k) (pending (b_pend l))" using assms(1) by auto
  note sh = append_shown [OF wr ok assms(3,4)]
  have ro: "\<not> is_ReadOnly (b_inner l)" using wr by (cases "b_inner l"; cases a) (simp add: is_ReadOnly_def)
  show ?thesis
  proof (cases "idx = buf_next a (b_pend l)")
    case False
    then show ?thesis using sh assms(1) by auto
  next
    case True
    then have sh': "shown a (b_pend l') = shown a (b_pend l) @ [(idx, p)]" "buf_ok a (b_pend l')" "b_inner l' = b_inner l"
      using sh by auto
    have l': "b_pend l' = Some (case pv_some (b_pend l) of
         Some old \<Rightarrow> \<lparr>pv_first = pv_first old, pv_entries = pv_entries old @ [p]\<rparr>
       | None \<Rightarrow> \<lparr>pv_first = idx, pv_entries = [p]\<rparr>)"
      using blog_write_result [OF writable_represents [OF wr] ok, of idx p] assms(4) True ro by auto
    have "list_all (stableOf k) (pending (b_pend l'))"
      unfolding l' using st assms(2) by (auto simp: pending_def pv_some_def split: option.splits)
    moreover have "phase_ok a (b_pend l') ph"
    proof (cases ph)
      case (Writing first durable i batch rest)
      then obtain "done" es where w: "b_pend l = Some \<lparr>pv_first = first, pv_entries = batch @ es\<rparr>" "batch = done @ rest" "batch \<noteq> []"
        "i = first + length done" "first \<le> durable + 1" "disk_has a first (batch @ es) (max (durable + 1 - first) (length done))"
        using ph unfolding Writing phase_ok.simps by blast
      have "b_pend l' = Some \<lparr>pv_first = first, pv_entries = batch @ es @ [p]\<rparr>" using l' w(1,3) by (simp add: pv_some_def)
      moreover have "disk_has a first (batch @ es @ [p]) (max (durable + 1 - first) (length done))"
        using disk_has_more [OF w(6), of "[p]"] by simp
      ultimately show ?thesis unfolding Writing phase_ok.simps using w(2-5)
        by (intro exI [of _ "done"] exI [of _ "es @ [p]"]) simp
    qed simp
    ultimately show ?thesis using sh' wr by simp
  qed
qed

lemma buf_step_keeps:
  assumes "buf_step k s s'" "buf_inv k s a"
  shows "\<exists>a' ps qs. buf_inv k s' a' \<and> shown a' (b_pend (fst (snd s'))) = shown a (b_pend (fst (snd s))) @ ps \<and> appended a a' qs"
  using assms(1)
proof (cases rule: buf_step.cases)
  case (append p idx l r l' w ph)
  then obtain ps where "buf_inv k s' a" "shown a (b_pend (fst (snd s'))) = shown a (b_pend (fst (snd s))) @ ps"
    using buf_write_keeps [of k w l ph a p idx r l'] assms(2) by (auto simp del: buf_inv.simps)
  then show ?thesis by (intro exI [of _ a] exI [of _ ps] exI [of _ "[]"]) (simp del: buf_inv.simps)
next
  case sync
  then show ?thesis using sync_step_keeps [OF _ assms(2)] by fastforce
qed

lemma buf_steps_keep:
  assumes "(buf_step k)\<^sup>*\<^sup>* s s'" "buf_inv k s a"
  shows "\<exists>a' ps qs. buf_inv k s' a' \<and> shown a' (b_pend (fst (snd s'))) = shown a (b_pend (fst (snd s))) @ ps \<and> appended a a' qs"
  using assms(1)
proof (induction rule: rtranclp_induct)
  case base
  then show ?case using assms(2) by (intro exI [of _ a] exI [of _ "[]"]) simp
next
  case (step t t')
  then obtain a1 ps qs where a1: "buf_inv k t a1" "shown a1 (b_pend (fst (snd t))) = shown a (b_pend (fst (snd s))) @ ps"
    "appended a a1 qs" by blast
  then show ?case using buf_step_keeps [OF step(2) a1(1)] appended_trans [of a a1 qs] by fastforce
qed

text \<open>C15: However appends and the steps of syncs are interleaved, failing syncs included, the log never
  stops showing a record it has shown: what it shows only grows at the end, and so does what is on disk.\<close>

theorem buffered_interleaving:
  assumes "(buf_step k)\<^sup>*\<^sup>* s s'" "buf_inv k s a"
  shows "\<exists>a' ps qs. buf_inv k s' a' \<and> shown a' (b_pend (fst (snd s'))) = shown a (b_pend (fst (snd s))) @ ps \<and> appended a a' qs"
  by (rule buf_steps_keep [OF assms])

theorem buffered_interleaving_witness:
  "(buf_step Binary)\<^sup>*\<^sup>* (small_sys, small_buf, Idle) (small_sys, small_one, Writing 1 0 1 [[7]] [[7]]) \<and>
   (\<exists>a' ps. buf_inv Binary (small_sys, small_one, Writing 1 0 1 [[7]] [[7]]) a' \<and> shown a' (b_pend small_one) = ps)"
proof -
  have "buf_step Binary (small_sys, small_buf, Idle) (small_sys, small_one, Idle)"
    by (rule buf_step.append [of _ "[7]" 1 _ "Inr ()"]) (use small_buf_write in \<open>simp_all add: bin_stable_def\<close>)
  moreover have "sync_step (small_sys, small_one, Idle) (small_sys, small_one, Writing 1 (disk_LastIndex (b_inner small_one)) 1 [[7]] [[7]])"
    using sync_step.capture [OF small_one_capture] by simp
  ultimately have st: "(buf_step Binary)\<^sup>*\<^sup>* (small_sys, small_buf, Idle) (small_sys, small_one, Writing 1 0 1 [[7]] [[7]])"
    unfolding small_one_ok(3) small_last by (meson buf_step.sync converse_rtranclp_into_rtranclp rtranclp.rtrancl_refl)
  then show ?thesis using buffered_interleaving [OF st small_buf_inv] by auto
qed

subsection \<open>A sync without appends in between\<close>

lemma sync_writes_steps:
  "sync_writes w (b_inner l) durable idx ps = (r, w', d') \<Longrightarrow>
   (r = Inr () \<and> (\<exists>i. sync_step\<^sup>*\<^sup>* (w, l, Writing first durable idx batch ps) (w', l\<lparr>b_inner := d'\<rparr>, Writing first durable i batch []))) \<or>
   (\<exists>e. r = Inl e \<and> sync_step\<^sup>*\<^sup>* (w, l, Writing first durable idx batch ps) (w', l\<lparr>b_inner := d'\<rparr>, Idle))"
proof (induction ps arbitrary: w l idx)
  case Nil
  then show ?case by auto
next
  case (Cons p ps)
  show ?case
  proof (cases "idx \<le> durable")
    case True
    then have "sync_step (w, l, Writing first durable idx batch (p # ps)) (w, l, Writing first durable (u64_add idx 1) batch ps)"
      by (rule sync_step.present)
    with Cons.IH [of w l "u64_add idx 1"] Cons.prems True show ?thesis
      by (fastforce intro: converse_rtranclp_into_rtranclp)
  next
    case False
    obtain r1 w1 d1 where d1: "disk_Write w (b_inner l) idx p = (r1, w1, d1)" by (metis prod_cases3)
    show ?thesis
    proof (cases r1)
      case (Inl e)
      then have "sync_step (w, l, Writing first durable idx batch (p # ps)) (w1, l\<lparr>b_inner := d1\<rparr>, Idle)"
        using d1 False by (auto intro: sync_step.refuse)
      then show ?thesis using Inl d1 False Cons.prems by auto
    next
      case (Inr u)
      then have st: "sync_step (w, l, Writing first durable idx batch (p # ps))
          (w1, l\<lparr>b_inner := d1\<rparr>, Writing first durable (u64_add idx 1) batch ps)"
        using d1 False sync_step.persist [of durable idx w l p w1 d1] by simp
      have "sync_writes w1 (b_inner (l\<lparr>b_inner := d1\<rparr>)) durable (u64_add idx 1) ps = (r, w', d')"
        using Inr d1 False Cons.prems by simp
      from Cons.IH [OF this] st show ?thesis by (fastforce intro: converse_rtranclp_into_rtranclp)
    qed
  qed
qed

lemma sync_steps_keep:
  assumes "sync_step\<^sup>*\<^sup>* s s'" "buf_inv k s a"
  shows "\<exists>a' qs. buf_inv k s' a' \<and> shown a' (b_pend (fst (snd s'))) = shown a (b_pend (fst (snd s))) \<and> appended a a' qs"
  using assms(1)
proof (induction rule: rtranclp_induct)
  case base
  then show ?case using assms(2) by (intro exI [of _ a] exI [of _ "[]"]) simp
next
  case (step t t')
  then obtain a1 qs where a1: "buf_inv k t a1" "shown a1 (b_pend (fst (snd t))) = shown a (b_pend (fst (snd s)))"
    "appended a a1 qs" by blast
  then show ?case using sync_step_keeps [OF step(2) a1(1)] appended_trans [of a a1 qs] by fastforce
qed

text \<open>What is captured is the part of the buffer up to the target.\<close>

lemma sync_capture_part:
  assumes "sync_capture l target = (first, batch)" "buf_ok a (b_pend l)" "target \<le> u64_max"
  shows "case pv_some (b_pend l) of
      None \<Rightarrow> batch = []
    | Some p \<Rightarrow> batch = take (target + 1 - pv_first p) (pv_entries p) \<and> (batch \<noteq> [] \<longrightarrow> first = pv_first p)"
proof (cases "pv_some (b_pend l)")
  case None
  then show ?thesis using assms(1) by (simp add: sync_capture_def)
next
  case (Some p)
  then have p: "b_pend l = Some p" "pv_entries p \<noteq> []" by (simp_all add: pv_some_iff)
  have "1 \<le> pv_first p" using assms(2) buf_ok_disk_has [OF p(2)] p(1) by auto
  then have "pv_first p \<le> target \<Longrightarrow> u64_add (u64_sub target (pv_first p)) 1 = target + 1 - pv_first p"
    using assms(3) by (simp add: u64_simps)
  then show ?thesis using assms(1) Some p
    by (cases "pv_first p \<le> target") (auto simp: sync_capture_def entriesPrefix_def Let_def split: if_splits)
qed

lemma sync_refused:
  "buf_inv k (w, l, Writing first durable idx batch ps) a \<Longrightarrow> sync_writes w (b_inner l) durable idx ps = (Inl e, w', d') \<Longrightarrow>
   e = ErrPayloadTooLarge"
proof (induction ps arbitrary: w l idx a)
  case (Cons p ps)
  show ?case
  proof (cases "idx \<le> durable")
    case True
    then show ?thesis using Cons.IH [OF buf_inv_present [OF Cons.prems(1) True]] Cons.prems(2) by simp
  next
    case False
    obtain r1 w1 d1 where d1: "disk_Write w (b_inner l) idx p = (r1, w1, d1)" by (metis prod_cases3)
    obtain a' where a': "r1 = Inr () \<and> buf_inv k (w1, l\<lparr>b_inner := d1\<rparr>, Writing first durable (u64_add idx 1) batch ps) a' \<or>
        r1 = Inl ErrPayloadTooLarge"
      using buf_inv_persist [OF Cons.prems(1) _ d1] False by auto
    then show ?thesis
    proof (elim disjE conjE)
      assume "r1 = Inr ()" and inv: "buf_inv k (w1, l\<lparr>b_inner := d1\<rparr>, Writing first durable (u64_add idx 1) batch ps) a'"
      then show ?thesis using Cons.IH [OF inv] Cons.prems(2) d1 False by simp
    next
      assume "r1 = Inl ErrPayloadTooLarge"
      then show ?thesis using Cons.prems(2) d1 False by simp
    qed
  qed
qed simp

lemma shown_below_next:
  assumes "buf_inv k (w, l, ph) a" "x \<in> set (shown a (b_pend l))"
  shows "fst x < buf_next a (b_pend l)"
proof (cases "pv_some (b_pend l)")
  case None
  then show ?thesis using assms visible_below_next [of k w "b_inner l" a x] by (auto simp: shown_def buf_next_def)
next
  case (Some p)
  then have "pv_entries p \<noteq> []" by (simp add: pv_some_iff)
  then show ?thesis using assms(2) Some by (auto simp: shown_def buf_next_def in_set_enumerate_eq)
qed

lemma sync_through:
  assumes inv: "buf_inv k (w, l, Idle) a" and t: "target \<le> u64_max" and s: "blog_SyncThrough w l target = (r, w', l')"
  shows "\<exists>a' qs. buf_inv k (w', l', Idle) a' \<and> shown a' (b_pend l') = shown a (b_pend l) \<and> appended a a' qs \<and>
    (r = Inr () \<and> (\<forall>p. pv_some (b_pend l') = Some p \<longrightarrow> target < pv_first p) \<or> r = Inl ErrPayloadTooLarge)"
proof -
  obtain first batch where c: "sync_capture l target = (first, batch)" by fastforce
  have ok: "buf_ok a (b_pend l)" using inv by simp
  note part = sync_capture_part [OF c ok t]
  show ?thesis
  proof (cases "batch = []")
    case True
    then have "r = Inr ()" "w' = w" "l' = l" using s c by (auto simp: blog_SyncThrough_def)
    moreover have "\<forall>p. pv_some (b_pend l) = Some p \<longrightarrow> target < pv_first p"
      using part True by (cases "pv_some (b_pend l)") (auto simp: pv_some_iff)
    ultimately show ?thesis using inv by (intro exI [of _ a] exI [of _ "[]"]) simp
  next
    case False
    obtain p where p: "pv_some (b_pend l) = Some p" "batch = take (target + 1 - pv_first p) (pv_entries p)" "first = pv_first p"
      using part False by (auto split: option.splits)
    let ?W = "Writing first (disk_LastIndex (b_inner l)) first batch batch"
    have inv1: "buf_inv k (w, l, ?W) a" by (rule buf_inv_capture [OF inv c False])
    obtain r1 w1 d1 where sw: "sync_writes w (b_inner l) (disk_LastIndex (b_inner l)) first batch = (r1, w1, d1)" by (metis prod_cases3)
    from sync_writes_steps [OF sw, of first batch] show ?thesis
    proof (elim disjE conjE exE)
      fix i assume r1: "r1 = Inr ()" and st: "sync_step\<^sup>*\<^sup>* (w, l, ?W) (w1, l\<lparr>b_inner := d1\<rparr>, Writing first (disk_LastIndex (b_inner l)) i batch [])"
      obtain a' qs where a': "buf_inv k (w1, l\<lparr>b_inner := d1\<rparr>, Writing first (disk_LastIndex (b_inner l)) i batch []) a'"
        "shown a' (b_pend l) = shown a (b_pend l)" "appended a a' qs"
        using sync_steps_keep [OF st inv1] by auto
      have l': "r = Inr ()" "w' = w1" "l' = sync_trim (l\<lparr>b_inner := d1\<rparr>) first batch"
        using s c False sw r1 by (auto simp: blog_SyncThrough_def)
      have "target < pv_first q" if q: "pv_some (b_pend l') = Some q" for q
      proof -
        have "b_pend l = Some p" using p(1) by (simp add: pv_some_iff)
        then have "pv_first q = u64_add first (length batch)" "pv_entries q = drop (length batch) (pv_entries p)" "pv_entries q \<noteq> []"
          using q l'(3) p(3) by (auto simp: pv_some_iff sync_trim_def)
        moreover have "first + length (pv_entries p) < u64_max" using inv p(1,3) by (simp add: buf_ok_def)
        ultimately show ?thesis using p(2,3) by (auto simp: u64_simps min_def split: if_splits)
      qed
      then show ?thesis using buf_inv_trim [OF a'(1)] a' l' by (intro exI [of _ a'] exI [of _ qs]) auto
    next
      fix e assume r1: "r1 = Inl e" and st: "sync_step\<^sup>*\<^sup>* (w, l, ?W) (w1, l\<lparr>b_inner := d1\<rparr>, Idle)"
      have "e = ErrPayloadTooLarge" using sync_refused [OF inv1 sw [unfolded r1]] .
      then show ?thesis using sync_steps_keep [OF st inv1] s c False sw r1 by (auto simp: blog_SyncThrough_def)
    qed
  qed
qed

text \<open>C16: A sync through an index leaves what the log shows as it is and, when it succeeds, every record shown
  up to that index is on disk; when it fails because a record is too large for a segment, the records before
  it are on disk and still buffered, and the log is as usable as before.\<close>

theorem blog_sync_durable:
  assumes "buf_inv k (w, l, Idle) a" "target \<le> u64_max" "blog_SyncThrough w l target = (r, w', l')"
  shows "\<exists>a' qs. buf_inv k (w', l', Idle) a' \<and> shown a' (b_pend l') = shown a (b_pend l) \<and> appended a a' qs \<and>
    (r = Inr () \<and> filter (\<lambda>x. fst x \<le> target) (visible a') = filter (\<lambda>x. fst x \<le> target) (shown a (b_pend l)) \<or>
     r = Inl ErrPayloadTooLarge)"
proof -
  obtain a' qs where a': "buf_inv k (w', l', Idle) a'" "shown a' (b_pend l') = shown a (b_pend l)" "appended a a' qs"
    "r = Inr () \<and> (\<forall>p. pv_some (b_pend l') = Some p \<longrightarrow> target < pv_first p) \<or> r = Inl ErrPayloadTooLarge"
    using sync_through [OF assms] by blast
  have "filter (\<lambda>x. fst x \<le> target) (visible a') = filter (\<lambda>x. fst x \<le> target) (shown a' (b_pend l'))"
    if "\<forall>p. pv_some (b_pend l') = Some p \<longrightarrow> target < pv_first p"
    using that by (auto simp: shown_def filter_empty_conv in_set_enumerate_eq intro!: filter_cong split: option.split)
  then show ?thesis using a' by (intro exI [of _ a'] exI [of _ qs]) auto
qed

theorem blog_sync_durable_witness:
  "case blog_SyncThrough small_sys small_one 5 of (r, w', l') \<Rightarrow>
     \<exists>a'. shown a' (b_pend l') = [(1, [7])] \<and> (r = Inr () \<and> filter (\<lambda>x. fst x \<le> 5) (visible a') = [(1, [7])] \<or> r = Inl ErrPayloadTooLarge)"
proof -
  obtain r w' l' where s: "blog_SyncThrough small_sys small_one 5 = (r, w', l')" by (metis prod_cases3)
  show ?thesis using blog_sync_durable [OF small_one_inv _ s] s small_one_ok(2) by fastforce
qed

section \<open>The bound on the buffer\<close>

text \<open>The byte counter of a log is the size of its buffer.\<close>

definition counted :: "blog \<Rightarrow> bool" where
  "counted l \<longleftrightarrow> b_pendingBytes l = sum_list (map (int \<circ> length) (pending (b_pend l)))"

lemma counted_write: "counted l \<Longrightarrow> blog_write l idx p = (r, l') \<Longrightarrow> counted l' \<and> b_maxLag l' = b_maxLag l"
  by (auto simp: counted_def blog_write_def pending_def pv_some_def Let_def split: option.splits if_splits)

lemma counted_sync: "counted l \<Longrightarrow> blog_SyncThrough w l t = (r, w', l') \<Longrightarrow> counted l' \<and> b_maxLag l' = b_maxLag l"
proof -
  assume c: "counted l" and s: "blog_SyncThrough w l t = (r, w', l')"
  obtain first batch where cap: "sync_capture l t = (first, batch)" by fastforce
  show ?thesis
  proof (cases "pv_some (b_pend l)")
    case None
    then show ?thesis using s cap c by (auto simp: blog_SyncThrough_def sync_capture_def)
  next
    case (Some p)
    then have p: "b_pend l = Some p" by (simp add: pv_some_iff)
    have b: "batch = [] \<or> first = pv_first p \<and> pv_entries p = batch @ drop (length batch) (pv_entries p)"
      using cap Some p by (auto simp: sync_capture_def entriesPrefix_def Let_def min_def split: if_splits)
    show ?thesis
    proof (cases "batch = []")
      case True
      then show ?thesis using s cap c by (auto simp: blog_SyncThrough_def)
    next
      case False
      obtain r1 w1 d1 where sw: "sync_writes w (b_inner l) (disk_LastIndex (b_inner l)) first batch = (r1, w1, d1)" by (metis prod_cases3)
      have "sum_list (map (int \<circ> length) (pv_entries p)) =
          sum_list (map (int \<circ> length) batch) + sum_list (map (int \<circ> length) (drop (length batch) (pv_entries p)))"
        using b False by (metis map_append sum_list_append)
      then show ?thesis using s cap c False sw p b
        by (cases r1) (auto simp: blog_SyncThrough_def counted_def pending_def sync_trim_def Let_def)
    qed
  qed
qed

text \<open>C18: A write that is accepted leaves at most the configured number of unsynced bytes in the buffer: one that
  passes the bound syncs everything first. The log still shows all it showed, and the new record.\<close>

theorem blog_write_bounded:
  assumes "buf_inv k (w, l, Idle) a" "counted l" "0 \<le> b_maxLag l" "stableOf k p" "idx + 1 < u64_max" "blog_Write w l idx p = (r, w', l')"
  shows "counted l' \<and> (\<exists>a'. buf_inv k (w', l', Idle) a' \<and>
     (r = Inr () \<longrightarrow> b_pendingBytes l' \<le> b_maxLag l' \<and> shown a' (b_pend l') = shown a (b_pend l) @ [(idx, p)]))"
proof -
  obtain r1 l1 where w1: "blog_write l idx p = (r1, l1)" by fastforce
  have inv1: "buf_inv k (w, l1, Idle) a" using buf_write_keeps [OF assms(1,4,5) w1] by simp
  have c1: "counted l1" "b_maxLag l1 = b_maxLag l" using counted_write [OF assms(2) w1] by auto
  have sh: "r1 = Inr () \<Longrightarrow> idx = buf_next a (b_pend l) \<and> shown a (b_pend l1) = shown a (b_pend l) @ [(idx, p)]"
    using append_shown [OF _ _ assms(5) w1, of k w a] assms(1) by (auto split: if_splits)
  show ?thesis
  proof (cases "r1 = Inr () \<and> b_pendingBytes l1 > b_maxLag l1")
    case False
    then show ?thesis using assms(6) w1 inv1 c1 sh by (cases r1) (auto simp: blog_Write_def split: if_splits)
  next
    case True
    then have s: "blog_SyncThrough w l1 idx = (r, w', l')" using assms(6) w1 by (simp add: blog_Write_def)
    obtain a' where a': "buf_inv k (w', l', Idle) a'" "shown a' (b_pend l') = shown a (b_pend l1)"
      "r = Inr () \<longrightarrow> (\<forall>p. pv_some (b_pend l') = Some p \<longrightarrow> idx < pv_first p)"
      using sync_through [OF inv1 _ s] assms(5) by fastforce
    have "pending (b_pend l') = []" if "r = Inr ()"
    proof (cases "pv_some (b_pend l')")
      case None
      then show ?thesis by (auto simp: pending_def pv_some_def split: option.splits if_splits)
    next
      case (Some q)
      then have "pv_entries q \<noteq> []" by (simp add: pv_some_iff)
      then obtain y ys where "pv_entries q = y # ys" by (cases "pv_entries q") auto
      then have "(pv_first q, y) \<in> set (shown a' (b_pend l'))" using Some by (simp add: shown_def)
      then have "(pv_first q, y) \<in> set (shown a (b_pend l)) \<or> pv_first q = idx" using a'(2) sh True by auto
      moreover have "idx < pv_first q" using a'(3) that Some by simp
      ultimately show ?thesis using shown_below_next [OF assms(1), of "(pv_first q, y)"] sh True by auto
    qed
    then have "r = Inr () \<Longrightarrow> b_pendingBytes l' \<le> b_maxLag l'"
      using counted_sync [OF c1(1) s] assms(3) c1(2) by (simp add: counted_def)
    then show ?thesis using counted_sync [OF c1(1) s] a' sh True by auto
  qed
qed

theorem blog_write_bounded_witness:
  "case blog_Write small_sys small_buf 1 [7] of (r, w', l') \<Rightarrow> r = Inr () \<and> b_pendingBytes l' \<le> b_maxLag l'"
proof -
  have w: "blog_Write small_sys small_buf 1 [7] = (Inr (), small_sys, small_one)"
    using small_buf_write by (simp add: blog_Write_def small_one_def small_buf_def new_blog_def)
  have "counted small_buf" "0 \<le> b_maxLag small_buf" by (simp_all add: counted_def small_buf_def new_blog_def pending_def)
  then show ?thesis using blog_write_bounded [OF small_buf_inv _ _ _ _ w] w by (auto simp: bin_stable_def)
qed

section \<open>Snapshots\<close>

text \<open>What a snapshot keeps of later disk states: the records it shows are still shown below its last index.\<close>

lemma shown_frozen:
  assumes inv: "buf_inv k (w, l, ph) a" and ap: "appended a a' qs" and le: "\<And>i. (i \<le> lst) = (i < buf_next a (b_pend l))"
  shows "filter (\<lambda>x. fst x \<le> lst) (shown a' (b_pend l)) = shown a (b_pend l)"
proof -
  have all: "filter (\<lambda>x. fst x \<le> lst) (shown a (b_pend l)) = shown a (b_pend l)"
    using shown_below_next [OF inv] le by (auto simp: filter_id_conv)
  have vis: "visible a' = visible a @ enumerate (next_index a) qs" using ap by (simp add: appended_def)
  show ?thesis
  proof (cases "pv_some (b_pend l)")
    case None
    then have "filter (\<lambda>x. fst x \<le> lst) (enumerate (next_index a) qs) = []"
      using le by (auto simp: filter_empty_conv in_set_enumerate_eq buf_next_def)
    then show ?thesis using None vis all by (simp add: shown_def)
  next
    case (Some p)
    then have "pv_first p \<le> next_index a" using inv by (auto simp: buf_ok_def)
    then have "filter (\<lambda>x. fst x < pv_first p) (enumerate (next_index a) qs) = []"
      by (auto simp: filter_empty_conv in_set_enumerate_eq)
    then show ?thesis using Some vis all by (simp add: shown_def)
  qed
qed

lemma snapshot_last: "buf_inv k (w, l, ph) a \<Longrightarrow> (i \<le> sn_last (blog_Snapshot l)) = (i < buf_next a (b_pend l)) \<and> sn_last (blog_Snapshot l) < u64_max"
  using blog_LastIndex_next [of k w l a] writable_represents [of k w "b_inner l" a] by (auto simp: blog_Snapshot_def)

text \<open>C17: A snapshot is stable: after any appends and sync steps, its walk still visits exactly the records
  the log showed when it was taken, from the index on.\<close>

theorem snapshot_stable:
  assumes "buf_inv k (w, l, ph) a" "(buf_step k)\<^sup>*\<^sup>* (w, l, ph) (w', l', ph')"
    "\<And>st x. snd (fn st x) \<notin> {Some ErrLogRangeBoundary, Some ErrRangeBoundary}"
  shows "\<exists>d'. snap_Range w' (blog_Snapshot l) (b_inner l') from fn st =
    Some (iterE fn st (filter (\<lambda>x. from \<le> fst x) (shown a (b_pend l))), d')"
proof -
  obtain a' qs where a': "buf_inv k (w', l', ph') a'" "appended a a' qs"
    using buf_steps_keep [OF assms(2,1)] by auto
  have b: "case pv_some (b_pend l) of None \<Rightarrow> True | Some p \<Rightarrow> pv_first p + length (pv_entries p) < u64_max"
    using assms(1) buf_ok_bound by auto
  let ?n = "sn_last (blog_Snapshot l)"
  have fr: "filter (\<lambda>x. fst x \<le> ?n) (shown a' (b_pend l)) = shown a (b_pend l)"
    using shown_frozen [OF assms(1) a'(2), of ?n] snapshot_last [OF assms(1)] by blast
  have "filter (\<lambda>x. from \<le> fst x \<and> fst x \<le> ?n) (shown a' (b_pend l)) = filter (\<lambda>x. from \<le> fst x) (shown a (b_pend l))"
    unfolding fr [symmetric] by (simp add: conj_commute)
  moreover have "represents k w' (b_inner l') a'" using a'(1) writable_represents by auto
  ultimately show ?thesis
    using rangeBounded_shown [of k w' "b_inner l'" a' ?n "b_pend l" fn "from" st, OF _ _ b assms(3)] snapshot_last [OF assms(1)]
    by (auto simp: snap_Range_def blog_Snapshot_def)
qed

theorem snapshot_stable_witness:
  "\<exists>d'. snap_Range small_sys (blog_Snapshot small_buf) (b_inner small_one) 1 (\<lambda>st x. (st @ [x], None)) [] = Some (([], None), d')"
proof -
  have st: "(buf_step Binary)\<^sup>*\<^sup>* (small_sys, small_buf, Idle) (small_sys, small_one, Idle)"
    by (rule r_into_rtranclp, rule buf_step.append [of _ "[7]" 1 _ "Inr ()"]) (use small_buf_write in \<open>simp_all add: bin_stable_def\<close>)
  have fn: "snd ((\<lambda>st x. (st @ [x :: nat \<times> bytes], None :: err option)) st x) \<notin> {Some ErrLogRangeBoundary, Some ErrRangeBoundary}" for st x
    by simp
  show ?thesis
    using snapshot_stable [of Binary small_sys small_buf Idle "ALog [] None 0 None" small_sys small_one Idle "\<lambda>st x. (st @ [x], None)" 1 "[]",
        OF small_buf_inv st fn] small_buf_ok(2) by simp
qed

end
