(* ===== verification/Json_Print.thy ===== *)
theory Json_Print
  imports Jsonl_Codec
begin

text \<open>
  Printing and reading JSON agree: what the canonical printer of the codec
  (\<^verbatim>\<open>marshalCanonical\<close> of \<^verbatim>\<open>segment/hash.go\<close>) writes is decoded to the value that was printed, its
  keys in byte order. The layers above the log rely on it whenever they decode a state, a patch or
  a record they encoded. The values are those the decoder can return: valid UTF-8, number texts of
  the JSON grammar, distinct keys, bounded nesting.
\<close>

section \<open>Well-formed values\<close>

function utf8_ok :: "bytes \<Rightarrow> bool" where
  "utf8_ok [] = True"
| "utf8_ok (a # r) = (case utf8_len (a # r) of 0 \<Rightarrow> False | Suc n \<Rightarrow> utf8_ok (drop n r))"
  by pat_completeness auto
termination
  by (relation "measure length") (auto simp: less_Suc_eq_le)

declare utf8_ok.simps(2) [simp del]

definition number_text :: "bytes \<Rightarrow> bool" where
  "number_text s \<longleftrightarrow> lex_num s = Some (s, [])"

fun jwf :: "json \<Rightarrow> bool" where
  "jwf JNull = True"
| "jwf (JBool b) = True"
| "jwf (JNum s) = number_text s"
| "jwf (JStr s) = utf8_ok s"
| "jwf (JArr vs) = list_all jwf vs"
| "jwf (JObj kvs) = (distinct (map fst kvs) \<and> list_all (\<lambda>(k, v). utf8_ok k \<and> jwf v) kvs)"

fun jdepth :: "json \<Rightarrow> nat" where
  "jdepth (JArr vs) = Suc (fold max (map jdepth vs) 0)"
| "jdepth (JObj kvs) = Suc (fold max (map (jdepth \<circ> snd) kvs) 0)"
| "jdepth _ = 0"

definition jvalid :: "json \<Rightarrow> bool" where
  "jvalid v \<longleftrightarrow> jwf v \<and> jdepth v \<le> maxNestingDepth"

lemma fold_max: "fold max xs (a :: nat) = Max (insert a (set xs))"
proof (induction xs arbitrary: a)
  case (Cons x xs)
  have "Max (insert (max x a) (set xs)) = Max (insert a (insert x (set xs)))"
    by (cases "set xs = {}") (auto simp: max.assoc max.commute max.left_commute)
  with Cons show ?case by simp
qed simp

lemma fold_max_le: "fold max xs (a :: nat) \<le> b \<longleftrightarrow> a \<le> b \<and> (\<forall>x\<in>set xs. x \<le> b)"
  by (simp add: fold_max)

section \<open>Strings\<close>

lemma utf8_len_take:
  assumes "utf8_len (a # r) = Suc n"
  shows "utf8_len (a # take n r @ z) = Suc n" "n \<le> length r"
  using assms by (auto simp: utf8_len.simps split: if_splits list.splits)

lemma utf8_len_ascii [simp]: "unat a < 128 \<Longrightarrow> utf8_len (a # r) = Suc 0"
  by (simp add: utf8_len.simps)

lemma hex_val_lower: "d < 16 \<Longrightarrow> hex_val (hex_lower d) = Some d"
proof -
  assume "d < 16"
  then have "unat (word_of_nat (48 + d) :: byte) = 48 + d" "unat (word_of_nat (87 + d) :: byte) = 87 + d"
    by (simp_all only: unat_of_nat) simp_all
  with \<open>d < 16\<close> show ?thesis by (simp add: hex_val_def hex_lower_def del: of_nat_add)
qed

lemma lex_str_esc_ascii:
  assumes "unat a < 128"
  shows "lex_str (esc_ascii a @ r) = map_option (apfst ((#) a)) (lex_str r)"
proof -
  have u: "lex_str (0x5C # 0x75 # 0x30 # 0x30 # hex_lower (unat a div 16) # hex_lower (unat a mod 16) # r) =
      map_option (apfst ((#) a)) (lex_str r)"
  proof -
    have z: "hex_val 0x30 = Some 0" by (simp add: hex_val_def)
    have "unat a div 16 < 16" using assms by simp
    then have g: "getu4 (0x30 # 0x30 # hex_lower (unat a div 16) # hex_lower (unat a mod 16) # r) = Some (unat a)"
      by (simp add: z hex_val_lower)
    have e: "EncodeRune (unat a) = [a]" using assms by (simp add: EncodeRune_def)
    have "(@) [a] = (#) a" by auto
    then show ?thesis
      using g assms by (subst lex_str.simps) (simp add: is_surrogate_def e)
  qed
  have two: "lex_str (0x5C # b # r) = map_option (apfst ((#) x)) (lex_str r)"
    if "simple_escape b = Some x" "b \<noteq> 0x75" for b x
    using that by (subst lex_str.simps) simp
  have raw: "lex_str (a # r) = map_option (apfst ((#) a)) (lex_str r)"
    if "a \<noteq> 0x22" "a \<noteq> 0x5C" "\<not> unat a < 32"
    using that assms by (subst lex_str.simps) simp
  show ?thesis
    using u two [of "0x22" "0x22"] two [of "0x5C" "0x5C"] two [of "0x62" "8"] two [of "0x66" "12"] two [of "0x6E" "10"]
      two [of "0x72" "13"] two [of "0x74" "9"] raw
    by (auto simp: esc_ascii_def simple_escape_def)
qed

lemma lex_str_esc: "utf8_ok s \<Longrightarrow> lex_str (esc s @ 0x22 # r) = Some (s, r)"
proof (induction s rule: utf8_ok.induct)
  case 1
  then show ?case by (simp add: esc.simps lex_str.simps)
next
  case (2 a s)
  then obtain n where n: "utf8_len (a # s) = Suc n" by (cases "utf8_len (a # s)") (auto simp: utf8_ok.simps)
  then have IH: "lex_str (esc (drop n s) @ 0x22 # r) = Some (drop n s, r)"
    using 2 by (simp add: utf8_ok.simps)
  show ?case
  proof (cases "unat a < 128")
    case True
    then have "n = 0" using n by simp
    then show ?thesis using True IH by (simp add: esc.simps lex_str_esc_ascii)
  next
    case False
    let ?seq = "a # take n s"
    have printed: "esc (a # s) = (if ?seq = [0xE2, 0x80, 0xA8]
        then bytes_of [CHR 0x5C, CHR ''u'', CHR ''2'', CHR ''0'', CHR ''2'', CHR ''8'']
        else if ?seq = [0xE2, 0x80, 0xA9]
        then bytes_of [CHR 0x5C, CHR ''u'', CHR ''2'', CHR ''0'', CHR ''2'', CHR ''9''] else ?seq) @ esc (drop n s)"
      using False n by (simp add: esc.simps del: bytes_of_simps)
    have whole_s: "a # s = ?seq @ drop n s" by simp
    consider "?seq = [0xE2, 0x80, 0xA8]" | "?seq = [0xE2, 0x80, 0xA9]"
      | "?seq \<noteq> [0xE2, 0x80, 0xA8]" "?seq \<noteq> [0xE2, 0x80, 0xA9]" by blast
    then show ?thesis
    proof cases
      case 1
      then have s: "a # s = [0xE2, 0x80, 0xA8] @ drop n s" using whole_s by simp
      show ?thesis unfolding printed using 1 IH
        by (subst s) (simp add: lex_str.simps(2) [of "0x5C"] hex_val_def is_surrogate_def EncodeRune_def)
    next
      case 2
      then have s: "a # s = [0xE2, 0x80, 0xA9] @ drop n s" using whole_s by simp
      show ?thesis unfolding printed using 2 IH
        by (subst s) (simp add: lex_str.simps(2) [of "0x5C"] hex_val_def is_surrogate_def EncodeRune_def)
    next
      case 3
      have "a \<noteq> 0x22" "a \<noteq> 0x5C" "\<not> unat a < 32" using False by auto
      moreover have len: "n \<le> length s" and z: "utf8_len (a # take n s @ z) = Suc n" for z
        using utf8_len_take [OF n] by blast+
      ultimately have "lex_str (?seq @ z) = map_option (apfst (\<lambda>t. ?seq @ t)) (lex_str z)" for z
        using z [of z] by (simp add: lex_str.simps(2) [of a])
      then show ?thesis unfolding printed using 3 IH by (simp only: if_False) simp
    qed
  qed
qed

section \<open>Numbers\<close>

text \<open>A number text ends where no character follows that could continue a number.\<close>

definition num_char :: "byte \<Rightarrow> bool" where
  "num_char c \<longleftrightarrow> is_dig c \<or> c = 0x2E \<or> c = 0x65 \<or> c = 0x45"

definition num_end :: "bytes \<Rightarrow> bool" where
  "num_end r \<longleftrightarrow> r = [] \<or> \<not> num_char (hd r)"

lemma lex_digits_append:
  assumes "lex_digits b = Some (x, y)" "y = [] \<Longrightarrow> num_end r"
  shows "lex_digits (b @ r) = Some (x, y @ r)"
proof -
  have b: "b \<noteq> []" "is_dig (hd b)" "x = takeWhile is_dig b" "y = dropWhile is_dig b"
    using assms(1) by (auto simp: lex_digits_def split: if_splits)
  show ?thesis
  proof (cases "y = []")
    case True
    then have "list_all is_dig b" using b(4) by (simp add: dropWhile_eq_Nil_conv list_all_iff)
    moreover have "r = [] \<or> \<not> is_dig (hd r)" using assms(2) True by (auto simp: num_end_def num_char_def)
    ultimately show ?thesis
      using b True by (cases r) (auto simp: lex_digits_def list_all_iff takeWhile_append dropWhile_append
          takeWhile_eq_all_conv [THEN iffD2])
  next
    case False
    then obtain c where "c \<in> set b" "\<not> is_dig c" using b(4) by (auto simp: dropWhile_eq_Nil_conv)
    then show ?thesis using b by (auto simp: lex_digits_def takeWhile_append1 dropWhile_append1)
  qed
qed

lemma lex_int_append:
  assumes "lex_int b = Some (x, y)" "y = [] \<Longrightarrow> num_end r"
  shows "lex_int (b @ r) = Some (x, y @ r)"
proof -
  have "b \<noteq> []" using assms(1) by (auto simp: lex_int_def lex_digits_def split: if_splits)
  then show ?thesis
    using assms lex_digits_append [of b x y r] by (auto simp: lex_int_def split: if_splits)
qed

lemma lex_frac_append:
  assumes "lex_frac b = Some (x, y)" "y = [] \<Longrightarrow> num_end r"
  shows "lex_frac (b @ r) = Some (x, y @ r)"
proof (cases "b = []")
  case True
  then show ?thesis using assms by (auto simp: lex_frac_def num_end_def num_char_def)
next
  case False
  show ?thesis
  proof (cases "hd b = 0x2E")
    case True
    then obtain d where d: "lex_digits (tl b) = Some (d, y)" "x = 0x2E # d"
      using assms(1) False by (auto simp: lex_frac_def map_apfst_Some)
    from lex_digits_append [OF d(1) assms(2)] show ?thesis
      using True False d(2) by (simp add: lex_frac_def)
  qed (use assms(1) False in \<open>auto simp: lex_frac_def\<close>)
qed

lemma lex_exp_append:
  assumes "lex_exp b = Some (x, y)" "y = [] \<Longrightarrow> num_end r"
  shows "lex_exp (b @ r) = Some (x, y @ r)"
proof (cases "b = []")
  case True
  then show ?thesis using assms by (auto simp: lex_exp_def num_end_def num_char_def)
next
  case False
  show ?thesis
  proof (cases "hd b = 0x65 \<or> hd b = 0x45")
    case True
    define sign where "sign = (if tl b \<noteq> [] \<and> (hd (tl b) = 0x2B \<or> hd (tl b) = 0x2D) then [hd (tl b)] else [])"
    obtain d where d: "lex_digits (drop (length sign) (tl b)) = Some (d, y)" "x = hd b # sign @ d"
      using assms(1) False True by (auto simp: lex_exp_def map_apfst_Some Let_def sign_def)
    then have "drop (length sign) (tl b) \<noteq> []" by (simp add: lex_digits_def split: if_splits)
    then have ne: "tl b \<noteq> []" by (metis drop_Nil)
    from lex_digits_append [OF d(1) assms(2)]
    moreover have "length sign \<le> length (tl b)" using ne by (cases "tl b") (auto simp: sign_def)
    ultimately have "lex_digits (drop (length sign) (tl b @ r)) = Some (d, y @ r)" by simp
    moreover have "(if tl (b @ r) \<noteq> [] \<and> (hd (tl (b @ r)) = 0x2B \<or> hd (tl (b @ r)) = 0x2D) then [hd (tl (b @ r))] else []) = sign"
      using False ne by (simp add: sign_def)
    ultimately show ?thesis using True False d(2) unfolding lex_exp_def by simp
  qed (use assms(1) False in \<open>auto simp: lex_exp_def\<close>)
qed

lemma lex_num_append:
  assumes "lex_num b = Some (x, y)" "y = [] \<Longrightarrow> num_end r"
  shows "lex_num (b @ r) = Some (x, y @ r)"
proof -
  define sign where "sign = (if b \<noteq> [] \<and> hd b = 0x2D then [0x2D :: byte] else [])"
  obtain i r1 f r2 e where p: "lex_int (drop (length sign) b) = Some (i, r1)"
    "lex_frac r1 = Some (f, r2)" "lex_exp r2 = Some (e, y)" "x = sign @ i @ f @ e"
    using assms(1) by (auto simp: lex_num_def Let_def sign_def split: option.splits)
  have ne: "drop (length sign) b \<noteq> []" using p(1) by (auto simp: lex_int_def lex_digits_def)
  have "r2 = [] \<Longrightarrow> y = []" using p(3) by (simp add: lex_exp_def)
  then have r2: "r2 = [] \<Longrightarrow> num_end r" using assms(2) by blast
  have "r1 = [] \<Longrightarrow> r2 = []" using p(2) by (simp add: lex_frac_def)
  then have r1: "r1 = [] \<Longrightarrow> num_end r" using r2 by blast
  have b: "b \<noteq> []" using ne by auto
  have "drop (length sign) (b @ r) = drop (length sign) b @ r" using ne by (simp add: sign_def)
  moreover have "(if b @ r \<noteq> [] \<and> hd (b @ r) = 0x2D then [0x2D :: byte] else []) = sign"
    using b by (simp add: sign_def)
  ultimately show ?thesis
    using lex_int_append [OF p(1) r1] lex_frac_append [OF p(2) r2] lex_exp_append [OF p(3) assms(2)] p(4)
    unfolding lex_num_def by simp
qed

lemma number_text_lex: "number_text s \<Longrightarrow> num_end r \<Longrightarrow> lex_num (s @ r) = Some (s, r)"
  using lex_num_append [of s s "[]" r] by (simp add: number_text_def)

lemma number_text_start: "number_text s \<Longrightarrow> \<exists>a b. s = a # b \<and> (a = 0x2D \<or> is_dig a)"
proof -
  assume s: "number_text s"
  show ?thesis
  proof (cases s)
    case Nil
    then show ?thesis using s by (simp add: number_text_def lex_num_def lex_int_def lex_digits_def)
  next
    case (Cons a b)
    have "is_dig 0x30" by (simp add: is_dig_def in_range_def)
    then show ?thesis using s Cons
      by (auto simp: number_text_def lex_num_def lex_int_def lex_digits_def Let_def split: if_splits)
  qed
qed

section \<open>The tokens of a printed value\<close>

text \<open>The value with the keys of every object in order; printing without sorting.\<close>

fun sorted_keys :: "json \<Rightarrow> json" where
  "sorted_keys (JArr vs) = JArr (map sorted_keys vs)"
| "sorted_keys (JObj kvs) = JObj (sort_key fst (map (\<lambda>(k, v). (k, sorted_keys v)) kvs))"
| "sorted_keys v = v"

fun show_json :: "json \<Rightarrow> bytes" where
  "show_json JNull = bytes_of ''null''"
| "show_json (JBool b) = (if b then bytes_of ''true'' else bytes_of ''false'')"
| "show_json (JNum s) = s"
| "show_json (JStr s) = marshal_string s"
| "show_json (JArr vs) = 0x5B # join 0x2C (map show_json vs) @ [0x5D]"
| "show_json (JObj kvs) = 0x7B # join 0x2C (map (\<lambda>(k, v). marshal_string k @ 0x3A # show_json v) kvs) @ [0x7D]"

fun sep_toks :: "token list list \<Rightarrow> token list" where
  "sep_toks [] = []"
| "sep_toks [x] = x"
| "sep_toks (x # y # zs) = x @ TComma # sep_toks (y # zs)"

fun toks :: "json \<Rightarrow> token list" where
  "toks JNull = [TNull]"
| "toks (JBool b) = [if b then TTrue else TFalse]"
| "toks (JNum s) = [TNum s]"
| "toks (JStr s) = [TStr s]"
| "toks (JArr vs) = TOpenArr # sep_toks (map toks vs) @ [TCloseArr]"
| "toks (JObj kvs) = TOpenObj # sep_toks (map (\<lambda>(k, v). TStr k # TColon # toks v) kvs) @ [TCloseObj]"

lemma sort_key_map_snd:
  "sort_key fst (map (\<lambda>(k, v). (k, f v)) kvs) = map (\<lambda>(k, v). (k, f v)) (sort_key fst kvs)"
proof -
  have "insort_key fst (k, f v) (map (\<lambda>(k, v). (k, f v)) xs) = map (\<lambda>(k, v). (k, f v)) (insort_key fst (k, v) xs)"
    for k v xs
    by (induction xs) auto
  note ins = this
  show ?thesis by (induction kvs) (auto simp: sort_key_def ins)
qed

lemma marshal_show: "marshalCanonical v = show_json (sorted_keys v)"
proof (induction v rule: marshalCanonical.induct)
  case (5 vs)
  then show ?case by (simp add: comp_def cong: map_cong)
next
  case (6 kvs)
  have "map (\<lambda>(k, v). (k, marshalCanonical v)) kvs =
      map (\<lambda>(k, v). (k, show_json v)) (map (\<lambda>(k, v). (k, sorted_keys v)) kvs)"
    using 6 by auto
  then have "sort_key fst (map (\<lambda>(k, v). (k, marshalCanonical v)) kvs) =
      map (\<lambda>(k, v). (k, show_json v)) (sort_key fst (map (\<lambda>(k, v). (k, sorted_keys v)) kvs))"
    by (simp only: sort_key_map_snd [of show_json])
  then show ?case by (simp add: comp_def case_prod_unfold)
qed simp_all

lemma lex_step: "\<not> is_space a \<Longrightarrow> lex_one a r = (t, r') \<Longrightarrow> t \<noteq> TErr \<Longrightarrow> lex (a # r) = t # lex r'"
  by (subst lex.simps) simp

lemma lex_punct:
  "lex (0x7B # r) = TOpenObj # lex r" "lex (0x7D # r) = TCloseObj # lex r"
  "lex (0x5B # r) = TOpenArr # lex r" "lex (0x5D # r) = TCloseArr # lex r"
  "lex (0x3A # r) = TColon # lex r" "lex (0x2C # r) = TComma # lex r"
  by (simp_all add: lex_step is_space_def lex_one_def)

lemma lex_string: "utf8_ok s \<Longrightarrow> lex (marshal_string s @ r) = TStr s # lex r"
  unfolding marshal_string_def by (simp add: lex_step is_space_def lex_one_def lex_str_esc)

lemma lex_literal:
  "lex (bytes_of ''null'' @ r) = TNull # lex r"
  "lex (bytes_of ''true'' @ r) = TTrue # lex r"
  "lex (bytes_of ''false'' @ r) = TFalse # lex r"
  by (simp_all add: lex_step is_space_def lex_one_def is_dig_def in_range_def)

lemma lex_number:
  assumes "number_text s" "num_end r"
  shows "lex (s @ r) = TNum s # lex r"
proof -
  obtain a b where s: "s = a # b" and a: "a = 0x2D \<or> is_dig a" using number_text_start [OF assms(1)] by blast
  have "\<not> is_space a \<and> a \<notin> {0x7B, 0x7D, 0x5B, 0x5D, 0x3A, 0x2C, 0x22}"
    using a by (auto simp: is_space_def is_dig_def in_range_def)
  then show ?thesis
    using a number_text_lex [OF assms] unfolding s by (simp add: lex_step lex_one_def)
qed

lemma num_end_punct [simp]:
  "num_end (0x2C # r)" "num_end (0x5D # r)" "num_end (0x7D # r)" "num_end []"
  by (simp_all add: num_end_def num_char_def is_dig_def in_range_def)

lemma lex_join:
  assumes "\<And>x r. x \<in> set xs \<Longrightarrow> num_end r \<Longrightarrow> lex (f x @ r) = g x @ lex r" "num_end r"
  shows "lex (join 0x2C (map f xs) @ r) = sep_toks (map g xs) @ lex r"
  using assms
proof (induction xs rule: induct_list012)
  case (3 x y zs)
  have "lex (join 0x2C (map f (x # y # zs)) @ r) = g x @ lex (0x2C # join 0x2C (map f (y # zs)) @ r)"
    using 3(3) [of x] by simp
  also have "\<dots> = g x @ TComma # sep_toks (map g (y # zs)) @ lex r"
    using 3(2) [OF 3(3)] 3(4) by (simp add: lex_punct)
  finally show ?case by simp
qed simp_all

lemma lex_show: "jwf v \<Longrightarrow> num_end r \<Longrightarrow> lex (show_json v @ r) = toks v @ lex r"
proof (induction v arbitrary: r rule: show_json.induct)
  case (5 vs)
  have "lex (join 0x2C (map show_json vs) @ 0x5D # r) = sep_toks (map toks vs) @ lex (0x5D # r)"
    using 5 by (intro lex_join) (auto simp: list_all_iff)
  then show ?case by (simp add: lex_punct)
next
  case (6 kvs)
  have "lex (join 0x2C (map (\<lambda>(k, v). marshal_string k @ 0x3A # show_json v) kvs) @ 0x7D # r) =
      sep_toks (map (\<lambda>(k, v). TStr k # TColon # toks v) kvs) @ lex (0x7D # r)"
  proof (rule lex_join)
    fix x and r' :: bytes assume x: "x \<in> set kvs" "num_end r'"
    obtain k v where kv: "x = (k, v)" by force
    then have wf: "utf8_ok k" "jwf v" using 6(2) x(1) by (auto simp: list_all_iff)
    have "lex (show_json v @ r') = toks v @ lex r'" by (rule 6(1) [OF x(1) kv [symmetric] wf(2) x(2)])
    then show "lex ((case x of (k, v) \<Rightarrow> marshal_string k @ 0x3A # show_json v) @ r') =
        (case x of (k, v) \<Rightarrow> TStr k # TColon # toks v) @ lex r'"
      by (simp add: kv lex_string [OF wf(1)] lex_punct)
  qed simp
  then show ?case by (simp add: lex_punct)
qed (simp_all add: lex_literal lex_number lex_string del: bytes_of_simps)

section \<open>Parsing the tokens of a value\<close>

text \<open>The parser with the tokens it leaves, and what follows when a value is complete.\<close>

fun parse_rest :: "frame list \<Rightarrow> pstate \<Rightarrow> token list \<Rightarrow> (json \<times> token list) option" where
  "parse_rest st s [] = None"
| "parse_rest st s (t # ts) = (case pstep t st s of
     PDone v \<Rightarrow> Some (v, ts) | PMore st' s' \<Rightarrow> parse_rest st' s' ts | PFail \<Rightarrow> None)"

lemma parse_parse_rest: "parse st s ts = map_option fst (parse_rest st s ts)"
  by (induction st s ts rule: parse_rest.induct) (auto split: pres.split)

definition deliver :: "json \<Rightarrow> frame list \<Rightarrow> token list \<Rightarrow> (json \<times> token list) option" where
  "deliver v st ts = (case st of [] \<Rightarrow> Some (v, ts) | f # fs \<Rightarrow> parse_rest (plug v f # fs) WantSep ts)"

lemma parse_finish:
  "(case finish v st of PDone v \<Rightarrow> Some (v, ts) | PMore st' s' \<Rightarrow> parse_rest st' s' ts | PFail \<Rightarrow> None) = deliver v st ts"
  by (cases st) (simp_all add: finish_def deliver_def)

lemma parse_or_end: "parse_rest st WantValueOrEnd (toks v @ ts) = parse_rest st WantValue (toks v @ ts)"
  by (cases v) (simp_all add: pstep_def)

lemma update_fresh: "k \<notin> fst ` set kvs \<Longrightarrow> AList.update k v kvs = kvs @ [(k, v)]"
  by (induction kvs) auto

lemma parse_array:
  assumes "\<And>v st ts. v \<in> set vs \<Longrightarrow> jdepth v + length st \<le> maxNestingDepth \<Longrightarrow>
      parse_rest st WantValue (toks v @ ts) = deliver v st ts"
    and "\<forall>v\<in>set vs. jdepth v + Suc (length st) \<le> maxNestingDepth" "vs \<noteq> []"
  shows "parse_rest (FArr xs # st) WantValue (sep_toks (map toks vs) @ TCloseArr # ts) = deliver (JArr (xs @ vs)) st ts"
  using assms
proof (induction vs arbitrary: xs rule: induct_list012)
  case (2 v)
  then show ?case by (simp add: deliver_def [of v] pstep_def parse_finish)
next
  case (3 v u us)
  have "parse_rest (FArr xs # st) WantValue (toks v @ TComma # sep_toks (map toks (u # us)) @ TCloseArr # ts) =
      parse_rest (FArr (xs @ [v]) # st) WantSep (TComma # sep_toks (map toks (u # us)) @ TCloseArr # ts)"
    using 3(3) [of v "FArr xs # st"] 3(4) by (simp add: deliver_def)
  also have "\<dots> = parse_rest (FArr (xs @ [v]) # st) WantValue (sep_toks (map toks (u # us)) @ TCloseArr # ts)"
    by (simp add: pstep_def)
  also have "\<dots> = deliver (JArr ((xs @ [v]) @ u # us)) st ts"
    using 3(3,4) by (intro 3(2)) auto
  finally show ?case by simp
qed simp

lemma parse_object:
  assumes "\<And>k v st ts. (k, v) \<in> set kvs \<Longrightarrow> jdepth v + length st \<le> maxNestingDepth \<Longrightarrow>
      parse_rest st WantValue (toks v @ ts) = deliver v st ts"
    and "\<forall>(k, v)\<in>set kvs. jdepth v + Suc (length st) \<le> maxNestingDepth" "kvs \<noteq> []" "distinct (map fst (ds @ kvs))"
  shows "parse_rest (FObj ds c # st) WantKey
      (sep_toks (map (\<lambda>(k, v). TStr k # TColon # toks v) kvs) @ TCloseObj # ts) = deliver (JObj (ds @ kvs)) st ts"
  using assms
proof (induction kvs arbitrary: ds c rule: induct_list012)
  case (2 x)
  obtain k v where x: "x = (k, v)" by force
  have "parse_rest (FObj ds k # st) WantValue (toks v @ TCloseObj # ts) =
      parse_rest (FObj (ds @ [(k, v)]) k # st) WantSep (TCloseObj # ts)"
    using 2(1) [of k v "FObj ds k # st"] 2(2,4) x by (simp add: deliver_def update_fresh)
  then show ?case by (simp add: x pstep_def parse_finish)
next
  case (3 x y zs)
  obtain k v where x: "x = (k, v)" by force
  let ?rest = "sep_toks (map (\<lambda>(k, v). TStr k # TColon # toks v) (y # zs)) @ TCloseObj # ts"
  have "parse_rest (FObj ds k # st) WantValue (toks v @ TComma # ?rest) =
      parse_rest (FObj (ds @ [(k, v)]) k # st) WantSep (TComma # ?rest)"
    using 3(3) [of k v "FObj ds k # st"] 3(4,6) x by (simp add: deliver_def update_fresh)
  also have "\<dots> = parse_rest (FObj (ds @ [(k, v)]) k # st) WantKey ?rest" by (simp add: pstep_def)
  also have "\<dots> = deliver (JObj ((ds @ [(k, v)]) @ y # zs)) st ts"
    using 3(4,6) x by (intro 3(2)) (auto intro: 3(3))
  finally show ?case by (simp add: x pstep_def)
qed simp

lemma depth_below: "Suc (fold max ds 0) + n \<le> (m :: nat) \<Longrightarrow> (\<forall>d\<in>set ds. d + Suc n \<le> m) \<and> n < m"
proof -
  assume h: "Suc (fold max ds 0) + n \<le> m"
  then have "fold max ds 0 \<le> m - Suc n" by simp
  then show ?thesis using h by (auto simp: fold_max_le)
qed

lemma parse_toks:
  "jwf v \<Longrightarrow> jdepth v + length st \<le> maxNestingDepth \<Longrightarrow> parse_rest st WantValue (toks v @ ts) = deliver v st ts"
proof (induction v arbitrary: st ts rule: toks.induct)
  case (5 vs)
  have d: "\<forall>v\<in>set vs. jdepth v + Suc (length st) \<le> maxNestingDepth" and len: "length st < maxNestingDepth"
    using depth_below [of "map jdepth vs" "length st"] 5(3) by auto
  have IH: "parse_rest s WantValue (toks v @ t) = deliver v s t"
    if "v \<in> set vs" "jdepth v + length s \<le> maxNestingDepth" for v s t
    using 5(1) [OF that(1)] 5(2) that by (auto simp: list_all_iff)
  have "parse_rest (FArr [] # st) WantValueOrEnd (sep_toks (map toks vs) @ TCloseArr # ts) = deliver (JArr vs) st ts"
  proof (cases vs)
    case Nil
    then show ?thesis by (simp add: pstep_def parse_finish)
  next
    case (Cons u us)
    then have "\<exists>rest. sep_toks (map toks vs) @ TCloseArr # ts = toks u @ rest" by (cases us) auto
    then show ?thesis using parse_array [OF IH d, where xs = "[]" and ts = ts] parse_or_end [of "FArr [] # st" u] Cons by auto
  qed
  then show ?case using len by (simp add: pstep_def pstep_value_def push_def)
next
  case (6 kvs)
  have d: "\<forall>(k, v)\<in>set kvs. jdepth v + Suc (length st) \<le> maxNestingDepth" and len: "length st < maxNestingDepth"
    using depth_below [of "map (jdepth \<circ> snd) kvs" "length st"] 6(3) by fastforce+
  have IH: "parse_rest s WantValue (toks v @ t) = deliver v s t"
    if "(k, v) \<in> set kvs" "jdepth v + length s \<le> maxNestingDepth" for k v s t
    using 6(1) [OF that(1) refl] 6(2) that by (auto simp: list_all_iff)
  have "parse_rest (FObj [] [] # st) WantKeyOrEnd
      (sep_toks (map (\<lambda>(k, v). TStr k # TColon # toks v) kvs) @ TCloseObj # ts) = deliver (JObj kvs) st ts"
  proof (cases kvs)
    case Nil
    then show ?thesis by (simp add: pstep_def parse_finish)
  next
    case (Cons x xs)
    then have "\<exists>k rest. sep_toks (map (\<lambda>(k, v). TStr k # TColon # toks v) kvs) @ TCloseObj # ts = TStr k # rest"
      by (cases xs; cases x) auto
    then obtain k rest where r: "sep_toks (map (\<lambda>(k, v). TStr k # TColon # toks v) kvs) @ TCloseObj # ts = TStr k # rest"
      by blast
    have "parse_rest (FObj [] [] # st) WantKey (TStr k # rest) = deliver (JObj kvs) st ts"
      using parse_object [OF IH d, where ds = "[]" and c = "[]" and ts = ts] 6(2) Cons r by simp
    then show ?thesis unfolding r by (simp add: pstep_def)
  qed
  then show ?case using len by (simp add: pstep_def pstep_value_def push_def)
qed (simp_all add: pstep_def pstep_value_def scalar_def parse_finish)

section \<open>Printing and reading agree\<close>

lemma jwf_sorted_keys: "jwf v \<Longrightarrow> jwf (sorted_keys v)"
proof (induction v rule: sorted_keys.induct)
  case (2 kvs)
  have "distinct (map fst (map (\<lambda>(k, v). (k, sorted_keys v)) kvs))"
    using 2(2) by (simp add: comp_def case_prod_unfold)
  moreover have "distinct (map fst (sort_key fst xs))" if "distinct (map fst xs)" for xs :: "(bytes \<times> json) list"
    using that by (simp add: distinct_map)
  ultimately have "distinct (map fst (sort_key fst (map (\<lambda>(k, v). (k, sorted_keys v)) kvs)))" by blast
  moreover have "list_all (\<lambda>(k, v). utf8_ok k \<and> jwf v) (sort_key fst (map (\<lambda>(k, v). (k, sorted_keys v)) kvs))"
    using 2 by (fastforce simp: list_all_iff)
  ultimately show ?case by simp
qed (auto simp: list_all_iff)

lemma jdepth_sorted_keys [simp]: "jdepth (sorted_keys v) = jdepth v"
proof (induction v rule: sorted_keys.induct)
  case (1 vs)
  then show ?case by (simp add: comp_def cong: map_cong)
next
  case (2 kvs)
  have "(jdepth \<circ> snd) ` set (sort_key fst (map (\<lambda>(k, v). (k, sorted_keys v)) kvs)) = (jdepth \<circ> snd) ` set kvs"
    unfolding set_sort set_map image_image by (rule image_cong) (use 2 in auto)
  then show ?case by (simp add: fold_max)
qed simp_all

lemma sorted_keys_idem [simp]: "sorted_keys (sorted_keys v) = sorted_keys v"
proof (induction v rule: sorted_keys.induct)
  case (2 kvs)
  have "map (\<lambda>(k, v). (k, sorted_keys v)) (map (\<lambda>(k, v). (k, sorted_keys v)) kvs) = map (\<lambda>(k, v). (k, sorted_keys v)) kvs"
    using 2 by auto
  then have "map (\<lambda>(k, v). (k, sorted_keys v)) (sort_key fst (map (\<lambda>(k, v). (k, sorted_keys v)) kvs)) =
      sort_key fst (map (\<lambda>(k, v). (k, sorted_keys v)) kvs)"
    by (simp only: sort_key_map_snd [symmetric])
  then show ?case by (simp add: sort_key_id_if_sorted)
qed simp_all

lemma json_Decode_marshal: "jvalid v \<Longrightarrow> json_Decode (marshalCanonical v) = Some (sorted_keys v)"
  using lex_show [of "sorted_keys v" "[]"] parse_toks [of "sorted_keys v" "[]" "lex []"]
  by (simp add: json_Decode_def parse_parse_rest marshal_show jvalid_def jwf_sorted_keys deliver_def)

lemma marshal_sorted_keys [simp]: "marshalCanonical (sorted_keys v) = marshalCanonical v"
  by (simp add: marshal_show)

section \<open>What the decoder returns\<close>

lemma utf8_ok_append: "utf8_ok x \<Longrightarrow> utf8_ok y \<Longrightarrow> utf8_ok (x @ y)"
proof (induction x rule: utf8_ok.induct)
  case (2 a r)
  then obtain n where n: "utf8_len (a # r) = Suc n" "utf8_ok (drop n r)"
    by (cases "utf8_len (a # r)") (auto simp: utf8_ok.simps)
  note len = utf8_len_take [OF n(1)]
  have "take n r @ drop n r @ y = r @ y" unfolding append_assoc [symmetric] append_take_drop_id ..
  then have "utf8_len (a # r @ y) = Suc n" using len(1) [of "drop n r @ y"] by (simp only:)
  then show ?case using 2 n len(2) by (simp add: utf8_ok.simps)
qed simp

lemma utf8_ok_seq: "utf8_len (a # r) = Suc n \<Longrightarrow> utf8_ok (a # take n r)"
  using utf8_len_take(1) [of a r n "[]"] by (simp add: utf8_ok.simps)

lemma utf8_ok_ascii: "unat x < 128 \<Longrightarrow> utf8_ok [x]"
  by (simp add: utf8_ok.simps)

lemma unat_small: "n < 256 \<Longrightarrow> unat (word_of_nat n :: byte) = n"
  by (simp add: unat_of_nat)

lemma utf8_ok_EncodeRune:
  assumes "r < 0x110000" "\<not> is_surrogate r"
  shows "utf8_ok (EncodeRune r)"
proof -
  consider "r < 128" | "128 \<le> r" "r < 2048" | "2048 \<le> r" "r < 65536" | "65536 \<le> r" by linarith
  then show ?thesis
  proof cases
    case 1
    then show ?thesis by (simp add: EncodeRune_def utf8_ok_ascii unat_small)
  next
    case 2
    have "r div 64 < 32" "2 \<le> r div 64" "r mod 64 < 64" using 2 by auto
    then show ?thesis using 2
      by (simp add: EncodeRune_def utf8_ok.simps utf8_len.simps in_range_def unat_small del: of_nat_add)
  next
    case 3
    define q where "q = r div 64"
    have d: "r div 4096 = q div 64" by (simp add: q_def div_mult2_eq [symmetric])
    have low: "32 \<le> q" using div_le_mono [OF 3(1), of 64] by (simp add: q_def)
    have high: "q < 1024" unfolding q_def using 3(2) by (intro less_mult_imp_div_less) simp
    have split_q: "64 * (q div 64) + q mod 64 = q" by simp
    have b: "q div 64 < 16" "q mod 64 < 64" "r mod 64 < 64"
      using high by (simp_all add: less_mult_imp_div_less)
    have "q < 864 \<or> 896 \<le> q"
    proof (cases "r < 55296")
      case True
      then show ?thesis unfolding q_def by (intro disjI1 less_mult_imp_div_less) simp
    next
      case False
      then have "57344 \<le> r" using assms(2) by (simp add: is_surrogate_def)
      then show ?thesis using div_le_mono [of 57344 r 64] by (simp add: q_def)
    qed
    then have gap: "q div 64 = 13 \<Longrightarrow> q mod 64 < 32" and first: "q div 64 = 0 \<Longrightarrow> 32 \<le> q mod 64"
      using split_q low b(2) by linarith+
    have enc: "EncodeRune r = map word_of_nat [224 + q div 64, 128 + q mod 64, 128 + r mod 64]"
      using 3 by (simp add: EncodeRune_def d q_def [symmetric] del: of_nat_add)
    have "q mod 64 \<le> 63" "r mod 64 \<le> 63" using b by simp_all
    then show ?thesis unfolding enc using b(1) gap first
      by (auto simp add: utf8_ok.simps utf8_len.simps in_range_def unat_small div_eq_0_iff simp del: of_nat_add)
  next
    case 4
    define q where "q = r div 4096"
    have d: "r div 262144 = q div 64" by (simp add: q_def div_mult2_eq [symmetric])
    have low: "16 \<le> q" using div_le_mono [OF 4, of 4096] by (simp add: q_def)
    have high: "q < 272" unfolding q_def using assms(1) by (intro less_mult_imp_div_less) simp
    have split_q: "64 * (q div 64) + q mod 64 = q" by simp
    have b: "q div 64 < 5" "q mod 64 < 64" "r div 64 mod 64 < 64" "r mod 64 < 64"
      using high by (simp_all add: less_mult_imp_div_less)
    have first: "q div 64 = 0 \<Longrightarrow> 16 \<le> q mod 64" and last: "q div 64 = 4 \<Longrightarrow> q mod 64 < 16"
      using split_q low high by linarith+
    have enc: "EncodeRune r = map word_of_nat [240 + q div 64, 128 + q mod 64, 128 + r div 64 mod 64, 128 + r mod 64]"
      using 4 by (simp add: EncodeRune_def d q_def [symmetric] del: of_nat_add)
    have "q mod 64 \<le> 63" "r div 64 mod 64 \<le> 63" "r mod 64 \<le> 63" using b by simp_all
    then show ?thesis unfolding enc using b(1) first last
      by (auto simp add: utf8_ok.simps utf8_len.simps in_range_def unat_small div_eq_0_iff simp del: of_nat_add)
  qed
qed

lemma hex_val_bound: "hex_val b = Some n \<Longrightarrow> n < 16"
  by (auto simp: hex_val_def Let_def split: if_splits)

lemma getu4_bound: "getu4 b = Some n \<Longrightarrow> n < 65536"
proof -
  assume h: "getu4 b = Some n"
  then obtain x y z u where "n = ((x * 16 + y) * 16 + z) * 16 + u" "x < 16" "y < 16" "z < 16" "u < 16"
    by (cases b rule: getu4.cases) (auto dest!: hex_val_bound split: option.splits)
  then show ?thesis by simp
qed

lemma low_half_bound: "low_half b = Some m \<Longrightarrow> 0xDC00 \<le> m \<and> m < 0xE000"
  by (auto simp: low_half_def split: list.splits if_splits option.splits)

lemma simple_escape_ascii: "simple_escape b = Some x \<Longrightarrow> unat x < 128"
  by (auto simp: simple_escape_def split: if_splits)

lemma utf8_ok_replacement: "utf8_ok replacement"
  by (simp add: replacement_def utf8_ok.simps utf8_len.simps in_range_def)

lemma utf8_ok_pair:
  assumes "n < 0xDC00" "is_surrogate n" "0xDC00 \<le> m" "m < 0xE000"
  shows "utf8_ok (EncodeRune ((n - 0xD800) * 1024 + (m - 0xDC00) + 0x10000))"
  by (rule utf8_ok_EncodeRune) (use assms in \<open>auto simp: is_surrogate_def\<close>)

lemma lex_str_utf8: "lex_str b = Some (s, r) \<Longrightarrow> utf8_ok s"
proof (induction b arbitrary: s r rule: length_induct)
  case (1 b)
  have IH: "utf8_ok s'" if "lex_str b' = Some (s', r')" "length b' < length b" for b' s' r'
    using "1.IH" that by blast
  obtain a c where b: "b = a # c" using "1.prems" by (cases b) (auto simp: lex_str.simps)
  note eq = "1.prems" [unfolded b lex_str.simps(2)]
  consider "a = 0x22" | "a \<noteq> 0x22" "a = 0x5C" | "a \<noteq> 0x22" "a \<noteq> 0x5C" by blast
  then show ?case
  proof cases
    case 1
    then show ?thesis using eq by simp
  next
    case 2
    then obtain d r1 where c: "c = d # r1" using eq by (cases c) auto
    have sub: "utf8_ok s'" if "lex_str (drop k r1) = Some (s', r')" for k s' r'
      using IH [OF that] by (simp add: b c)
    show ?thesis
    proof (cases "d = 0x75")
      case True
      obtain n where n: "getu4 r1 = Some n" using eq 2 c True by (cases "getu4 r1") auto
      have nb: "n < 0x110000" using getu4_bound [OF n] by simp
      show ?thesis
      proof (cases "is_surrogate n \<and> n < 0xDC00 \<and> low_half (drop 4 r1) \<noteq> None")
        case sur: True
        then obtain m where m: "low_half (drop 4 r1) = Some m" by blast
        then show ?thesis
          using eq 2 c True n sur sub [of 10] utf8_ok_pair [of n m] low_half_bound [OF m]
          by (auto simp: map_apfst_Some intro!: utf8_ok_append)
      next
        case False
        then show ?thesis
          using eq 2 c True n nb sub [of 4] utf8_ok_EncodeRune utf8_ok_replacement
          by (auto simp: map_apfst_Some split: if_splits option.splits bool.splits intro!: utf8_ok_append)
      qed
    next
      case False
      then obtain x s' where x: "simple_escape d = Some x" "lex_str r1 = Some (s', r)" "s = x # s'"
        using eq 2 c by (auto simp: map_apfst_Some split: if_splits option.splits)
      show ?thesis using utf8_ok_append [OF utf8_ok_ascii [OF simple_escape_ascii [OF x(1)]] sub [of 0]] x(2,3) by simp
    qed
  next
    case 3
    have sub: "utf8_ok s'" if "lex_str (drop k c) = Some (s', r')" for k s' r'
      using IH [OF that] by (simp add: b)
    show ?thesis
    proof (cases "utf8_len (a # c)")
      case 0
      then show ?thesis
        using eq 3 sub [of 0] utf8_ok_replacement by (auto simp: map_apfst_Some split: if_splits intro!: utf8_ok_append)
    next
      case (Suc n)
      then obtain s' where "lex_str (drop n c) = Some (s', r)" "s = (a # take n c) @ s'"
        using eq 3 by (auto simp: map_apfst_Some split: if_splits)
      then show ?thesis using utf8_ok_append [OF utf8_ok_seq [OF Suc] sub] by simp
    qed
  qed
qed

text \<open>The parts of a number text, and that they are found again in it.\<close>

definition digits_end :: "bytes \<Rightarrow> bool" where
  "digits_end y \<longleftrightarrow> y = [] \<or> \<not> is_dig (hd y)"

lemma lex_digits_iff:
  "lex_digits b = Some (x, y) \<longleftrightarrow> b = x @ y \<and> x \<noteq> [] \<and> list_all is_dig x \<and> digits_end y"
proof
  assume "lex_digits b = Some (x, y)"
  then have b: "b \<noteq> []" "is_dig (hd b)" "x = takeWhile is_dig b" "y = dropWhile is_dig b"
    by (auto simp: lex_digits_def split: if_splits)
  have "digits_end y" unfolding b(4) digits_end_def using hd_dropWhile [of is_dig b] by blast
  with b show "b = x @ y \<and> x \<noteq> [] \<and> list_all is_dig x \<and> digits_end y"
    by (cases b) (auto simp: list_all_iff dest: set_takeWhileD)
next
  assume h: "b = x @ y \<and> x \<noteq> [] \<and> list_all is_dig x \<and> digits_end y"
  then have "takeWhile is_dig b = x" "dropWhile is_dig b = y"
    by (cases y; simp add: list_all_iff digits_end_def takeWhile_eq_all_conv [THEN iffD2])+
  then show "lex_digits b = Some (x, y)" using h by (cases x) (auto simp: lex_digits_def)
qed

lemma lex_int_iff:
  "lex_int b = Some (x, y) \<longleftrightarrow> b = x @ y \<and> (x = [0x30] \<or> x \<noteq> [] \<and> hd x \<noteq> 0x30 \<and> list_all is_dig x \<and> digits_end y)"
  by (cases b; cases x) (auto simp: lex_int_def lex_digits_iff)

definition sign_of :: "bytes \<Rightarrow> bytes" where
  "sign_of b = (if b \<noteq> [] \<and> (hd b = 0x2B \<or> hd b = 0x2D) then [hd b] else [])"

lemma lex_frac_parts:
  "lex_frac b = Some (x, y) \<Longrightarrow> b = x @ y \<and> (x = [] \<and> (y = [] \<or> hd y \<noteq> 0x2E) \<or>
     (\<exists>d. x = 0x2E # d \<and> d \<noteq> [] \<and> list_all is_dig d \<and> digits_end y))"
  by (cases b) (auto simp: lex_frac_def map_apfst_Some lex_digits_iff split: if_splits)

lemma lex_exp_Cons:
  "lex_exp (a # c) = (if a = 0x65 \<or> a = 0x45
     then map_option (apfst (\<lambda>s. a # sign_of c @ s)) (lex_digits (drop (length (sign_of c)) c)) else Some ([], a # c))"
  by (simp add: lex_exp_def sign_of_def Let_def cong: if_cong)

lemma lex_exp_parts:
  assumes "lex_exp b = Some (x, y)"
  shows "b = x @ y \<and> (x = [] \<or> (hd x = 0x65 \<or> hd x = 0x45) \<and> lex_exp x = Some (x, []))"
proof (cases "b \<noteq> [] \<and> (hd b = 0x65 \<or> hd b = 0x45)")
  case True
  then obtain a c where b: "b = a # c" by (cases b) auto
  obtain d where d: "lex_digits (drop (length (sign_of c)) c) = Some (d, y)" "x = a # sign_of c @ d"
    using assms True b by (auto simp: lex_exp_Cons map_apfst_Some)
  have c: "c = sign_of c @ d @ y" using d(1) by (cases c) (auto simp: lex_digits_iff sign_of_def split: if_splits)
  have dd: "d \<noteq> []" "list_all is_dig d" using d(1) by (auto simp: lex_digits_iff)
  have sg: "sign_of (sign_of c @ d) = sign_of c"
  proof (cases "sign_of c")
    case Nil
    have "hd d \<noteq> 0x2B \<and> hd d \<noteq> 0x2D" using dd by (cases d) (auto simp: is_dig_def in_range_def)
    with Nil show ?thesis using dd(1) by (simp add: sign_of_def [of d])
  next
    case (Cons e es)
    then show ?thesis by (auto simp: sign_of_def split: if_splits)
  qed
  have "lex_digits d = Some (d, [])" using dd by (simp add: lex_digits_iff digits_end_def)
  then have "lex_exp x = Some (x, [])"
    using True b sg unfolding d(2) by (simp add: lex_exp_Cons)
  then show ?thesis using True b c d(2) by simp
qed (use assms in \<open>auto simp: lex_exp_def split: if_splits\<close>)

lemma lex_num_text:
  assumes "lex_num b = Some (s, r)"
  shows "number_text s"
proof -
  define sign where "sign = (if b \<noteq> [] \<and> hd b = 0x2D then [0x2D :: byte] else [])"
  obtain i r1 f r2 e where p: "lex_int (drop (length sign) b) = Some (i, r1)"
    "lex_frac r1 = Some (f, r2)" "lex_exp r2 = Some (e, r)" and s: "s = sign @ i @ f @ e"
    using assms by (auto simp: lex_num_def Let_def sign_def split: option.splits)
  note i = p(1) [unfolded lex_int_iff] and f = lex_frac_parts [OF p(2)] and e = lex_exp_parts [OF p(3)]
  have nd: "\<not> is_dig 0x2E" "\<not> is_dig 0x65" "\<not> is_dig 0x45" by (simp_all add: is_dig_def in_range_def)
  have e_end: "digits_end e" "e = [] \<or> hd e \<noteq> 0x2E" using e nd by (auto simp: digits_end_def)
  have fe_end: "digits_end (f @ e)" using f e_end nd by (auto simp: digits_end_def)
  have "lex_exp e = Some (e, [])" using e by (auto simp: lex_exp_def)
  moreover have "lex_frac (f @ e) = Some (f, e)"
    using f e_end by (auto simp: lex_frac_def map_apfst_Some lex_digits_iff)
  moreover have "lex_int (i @ f @ e) = Some (i, f @ e)" using i fe_end by (auto simp: lex_int_iff)
  moreover have "(if s \<noteq> [] \<and> hd s = 0x2D then [0x2D :: byte] else []) = sign"
  proof (cases "sign = []")
    case True
    then have "hd i \<noteq> 0x2D" using i by (cases i) (auto simp: is_dig_def in_range_def)
    then show ?thesis using True i s by (cases i) auto
  next
    case False
    then show ?thesis by (auto simp: s sign_def split: if_splits)
  qed
  ultimately show ?thesis unfolding number_text_def lex_num_def by (simp add: s)
qed

section \<open>The decoder's values are well formed\<close>

fun tok_ok :: "token \<Rightarrow> bool" where
  "tok_ok (TStr s) = utf8_ok s"
| "tok_ok (TNum s) = number_text s"
| "tok_ok t = True"

lemma lex_one_ok: "tok_ok (fst (lex_one a r))"
  by (auto simp: lex_one_def dest: lex_str_utf8 lex_num_text split: option.splits simp del: bytes_of_simps)

lemma lex_ok: "list_all tok_ok (lex b)"
proof (induction b rule: lex.induct)
  case (1 b)
  show ?case
  proof (cases "dropWhile is_space b")
    case Nil
    then show ?thesis unfolding lex.simps [of b] by (simp only: list.case list.pred_inject)
  next
    case (Cons a r)
    obtain t r' where o: "lex_one a r = (t, r')" by force
    then show ?thesis using 1 [OF Cons] lex_one_ok [of a r] Cons by (subst lex.simps) auto
  qed
qed

text \<open>
  An open array or object holds well-formed values, not deeper than the bound leaves room for.
\<close>

fun frame_ok :: "frame \<Rightarrow> nat \<Rightarrow> bool" where
  "frame_ok (FArr vs) n \<longleftrightarrow> (\<forall>v\<in>set vs. jwf v \<and> jdepth v + Suc n \<le> maxNestingDepth)"
| "frame_ok (FObj kvs k) n \<longleftrightarrow> utf8_ok k \<and> distinct (map fst kvs) \<and>
     (\<forall>(k, v)\<in>set kvs. utf8_ok k \<and> jwf v \<and> jdepth v + Suc n \<le> maxNestingDepth)"

fun stack_ok :: "frame list \<Rightarrow> bool" where
  "stack_ok [] \<longleftrightarrow> True"
| "stack_ok (f # fs) \<longleftrightarrow> frame_ok f (length fs) \<and> length fs < maxNestingDepth \<and> stack_ok fs"

fun pres_ok :: "pres \<Rightarrow> bool" where
  "pres_ok (PDone v) \<longleftrightarrow> jvalid v"
| "pres_ok (PMore st s) \<longleftrightarrow> stack_ok st"
| "pres_ok PFail \<longleftrightarrow> True"

lemma finish_ok:
  assumes "jwf v" "jdepth v + length st \<le> maxNestingDepth" "stack_ok st"
  shows "pres_ok (finish v st)"
proof (cases st)
  case Nil
  then show ?thesis using assms by (simp add: finish_def jvalid_def)
next
  case (Cons f fs)
  have "frame_ok (plug v f) (length fs)"
  proof (cases f)
    case (FArr vs)
    then show ?thesis using assms Cons by auto
  next
    case (FObj kvs k)
    have "set (AList.update k v kvs) \<subseteq> insert (k, v) (set kvs)" by (induction kvs) auto
    then show ?thesis using assms Cons FObj by (auto simp: distinct_update)
  qed
  then show ?thesis using assms Cons by (simp add: finish_def)
qed

lemma frame_closed:
  "stack_ok (FArr vs # fs) \<Longrightarrow> pres_ok (finish (JArr vs) fs)"
  "stack_ok (FObj kvs k # fs) \<Longrightarrow> pres_ok (finish (JObj kvs) fs)"
proof -
  assume h: "stack_ok (FArr vs # fs)"
  have "fold max (map jdepth vs) 0 \<le> maxNestingDepth - Suc (length fs)"
    using h by (auto simp: fold_max_le)
  then show "pres_ok (finish (JArr vs) fs)" using h by (intro finish_ok) (auto simp: list_all_iff)
next
  assume h: "stack_ok (FObj kvs k # fs)"
  have "fold max (map (jdepth \<circ> snd) kvs) 0 \<le> maxNestingDepth - Suc (length fs)"
    using h by (fastforce simp: fold_max_le)
  then show "pres_ok (finish (JObj kvs) fs)" using h by (intro finish_ok) (auto simp: list_all_iff)
qed

lemma pstep_value_ok:
  assumes "stack_ok st" "length st \<le> maxNestingDepth" "tok_ok t"
  shows "pres_ok (pstep_value t st)"
proof (cases "scalar t")
  case None
  then show ?thesis using assms by (cases t) (auto simp: pstep_value_def push_def scalar_def)
next
  case (Some v)
  then have "jwf v" "jdepth v = 0" using assms(3) by (cases t; auto simp: scalar_def)+
  then show ?thesis using Some assms finish_ok [of v st] by (cases t) (auto simp: pstep_value_def scalar_def)
qed

lemma pstep_ok:
  assumes "stack_ok st" "tok_ok t"
  shows "pres_ok (pstep t st s)"
proof -
  have len: "length st \<le> maxNestingDepth" using assms(1) by (cases st) auto
  have key: "stack_ok (FObj kvs k # fs)" if "stack_ok (FObj kvs k' # fs)" "utf8_ok k" for kvs k k' fs
    using that by simp
  note v = pstep_value_ok [OF assms(1) len assms(2)]
  show ?thesis
  proof (cases s)
    case WantValueOrEnd
    then show ?thesis using v frame_closed assms by (auto simp: pstep_def split: token.split list.split frame.split)
  next
    case WantKeyOrEnd
    then show ?thesis using frame_closed assms
      by (auto simp: pstep_def split: token.split list.split frame.split)
  next
    case WantKey
    then show ?thesis using assms by (auto simp: pstep_def split: token.split list.split frame.split)
  next
    case WantSep
    then show ?thesis using frame_closed assms by (auto simp: pstep_def split: token.split list.split frame.split)
  qed (use v assms in \<open>auto simp: pstep_def\<close>)
qed

lemma parse_ok: "parse st s ts = Some v \<Longrightarrow> stack_ok st \<Longrightarrow> list_all tok_ok ts \<Longrightarrow> jvalid v"
proof (induction st s ts rule: parse.induct)
  case (2 st s t ts)
  have "pres_ok (pstep t st s)" using pstep_ok 2 by simp
  then show ?case using 2 by (cases "pstep t st s") auto
qed simp

lemma json_Decode_valid: "json_Decode b = Some v \<Longrightarrow> jvalid v"
  using parse_ok [of "[]" WantValue "lex b" v] lex_ok [of b] by (simp add: json_Decode_def)



text \<open>C34: Printing and reading agree. A well-formed value is read back from its canonical text with the
  keys of its objects in byte order; canonicalising a text gives a text that canonicalises to
  itself, with the same hash; so two texts of the same value have the same hash however they were
  spelled.\<close>

theorem canonical_json_roundtrip:
  "(jvalid v \<longrightarrow> json_Decode (marshalCanonical v) = Some (sorted_keys v)) \<and>
   (canonicalJSON b = Inr c \<longrightarrow> canonicalJSON c = Inr c \<and> ValueHash c = ValueHash b) \<and>
   (canonicalJSON b = Inr c \<longrightarrow> canonicalJSON b2 = Inr c \<longrightarrow> ValueHash b = ValueHash b2)"
proof -
  have "canonicalJSON c = Inr c \<and> ValueHash c = ValueHash b" if h: "canonicalJSON b = Inr c"
  proof -
    obtain u where u: "json_Decode b = Some u" "c = marshalCanonical u"
      using h by (auto simp: canonicalJSON_def split: option.splits)
    then have "json_Decode c = Some (sorted_keys u)" by (simp add: json_Decode_marshal json_Decode_valid)
    then have "canonicalJSON c = Inr c" using u(2) by (simp add: canonicalJSON_def)
    then show ?thesis using h by (simp add: ValueHash_def)
  qed
  then show ?thesis by (auto simp: json_Decode_marshal ValueHash_def)
qed

theorem canonical_json_roundtrip_witness:
  "json_Decode (marshalCanonical (JObj [(bytes_of ''b'', JNull), (bytes_of ''a'', JNum (bytes_of ''1''))])) =
     Some (JObj [(bytes_of ''a'', JNum (bytes_of ''1'')), (bytes_of ''b'', JNull)])"
proof -
  have "jvalid (JObj [(bytes_of ''b'', JNull), (bytes_of ''a'', JNum (bytes_of ''1''))])" by code_simp
  moreover have "sorted_keys (JObj [(bytes_of ''b'', JNull), (bytes_of ''a'', JNum (bytes_of ''1''))]) =
      JObj [(bytes_of ''a'', JNum (bytes_of ''1'')), (bytes_of ''b'', JNull)]" by code_simp
  ultimately show ?thesis
    using canonical_json_roundtrip [of "JObj [(bytes_of ''b'', JNull), (bytes_of ''a'', JNum (bytes_of ''1''))]"]
    by (metis (no_types, lifting))
qed

end
