(* ===== verification/Json_Struct.thy ===== *)
theory Json_Struct
  imports Json_Print
begin

text \<open>
  More of \<^verbatim>\<open>encoding/json\<close> and \<^verbatim>\<open>encoding/base64\<close>, as the record frames of the \<^verbatim>\<open>xwal\<close> layer use them:
  whether a text is one valid value (\<^verbatim>\<open>json.Valid\<close>), compacting a raw value on output, the fields of
  an object with their raw texts in order, as decoding into a struct visits them, names of fields
  compared without case, and base64 in its padded standard form.
\<close>

section \<open>Validity and compaction\<close>

definition json_Valid :: "bytes \<Rightarrow> bool" where
  "json_Valid b = (case parse_rest [] WantValue (lex b) of Some (_, []) \<Rightarrow> True | _ \<Rightarrow> False)"

text \<open>
  A raw message on output: white space outside strings goes, and the HTML characters and the two
  line separators are escaped. The flag says whether the position is inside a string.
\<close>

fun compact :: "bool \<Rightarrow> bytes \<Rightarrow> bytes" where
  "compact inStr [] = []"
| "compact False (c # r) =
     (if is_space c then compact False r
      else c # compact (c = 0x22) r)"
| "compact True (c # r) =
     (if c = 0x22 then c # compact False r
      else if c = 0x5C then (case r of [] \<Rightarrow> [c] | d # r1 \<Rightarrow> c # d # compact True r1)
      else if c = 0x3C \<or> c = 0x3E \<or> c = 0x26
        then bytes_of [CHR 0x5C, CHR ''u'', CHR ''0'', CHR ''0''] @ [hex_lower (unat c div 16), hex_lower (unat c mod 16)] @ compact True r
      else if c = 0xE2 \<and> take 2 r = [0x80, 0xA8]
        then bytes_of [CHR 0x5C, CHR ''u'', CHR ''2'', CHR ''0'', CHR ''2'', CHR ''8''] @ compact True (drop 2 r)
      else if c = 0xE2 \<and> take 2 r = [0x80, 0xA9]
        then bytes_of [CHR 0x5C, CHR ''u'', CHR ''2'', CHR ''0'', CHR ''2'', CHR ''9''] @ compact True (drop 2 r)
      else c # compact True r)"

section \<open>The fields of an object\<close>

text \<open>The next token and what follows it.\<close>

definition next_tok :: "bytes \<Rightarrow> (token \<times> bytes) option" where
  "next_tok b = (case dropWhile is_space b of [] \<Rightarrow> None | a # r \<Rightarrow> Some (lex_one a r))"

lemma next_tok_shorter: "next_tok b = Some (t, r) \<Longrightarrow> length r < length b"
proof -
  assume h: "next_tok b = Some (t, r)"
  then obtain a c where a: "dropWhile is_space b = a # c" "lex_one a c = (t, r)"
    by (auto simp: next_tok_def split: list.splits)
  have "length r \<le> length c" using lex_one_shorter [of a c] a(2) by simp
  also have "\<dots> < length b" using length_dropWhile_le [of is_space b] a(1) by simp
  finally show ?thesis .
qed

text \<open>Behind one value; \<open>d\<close> counts the brackets open.\<close>

function skip_value :: "nat \<Rightarrow> bytes \<Rightarrow> bytes option" where
  "skip_value d b = (case next_tok b of
     None \<Rightarrow> None
   | Some (t, r) \<Rightarrow>
       if t = TErr then None
       else let d' = (if t = TOpenObj \<or> t = TOpenArr then Suc d else if t = TCloseObj \<or> t = TCloseArr then d - 1 else d)
         in if d' = 0 then Some r else skip_value d' r)"
  by pat_completeness auto
termination
  by (relation "measure (length \<circ> snd)") (auto dest: next_tok_shorter)

declare skip_value.simps [simp del]

lemma skip_value_shorter: "skip_value d b = Some r \<Longrightarrow> length r < length b"
proof (induction d b rule: skip_value.induct)
  case (1 d b)
  then show ?case
    by (subst (asm) (2) skip_value.simps)
      (auto simp: Let_def dest!: next_tok_shorter split: option.splits if_splits; fastforce)
qed

text \<open>A field: its decoded name, the raw text of its value, and what follows.\<close>

definition one_field :: "bytes \<Rightarrow> ((bytes \<times> bytes) \<times> bytes) option" where
  "one_field b = (case next_tok b of
     Some (TStr k, r1) \<Rightarrow> (case next_tok r1 of
         Some (TColon, r2) \<Rightarrow>
           (let v = dropWhile is_space r2 in
            case skip_value 0 v of None \<Rightarrow> None | Some r3 \<Rightarrow> Some ((k, take (length v - length r3) v), r3))
       | _ \<Rightarrow> None)
   | _ \<Rightarrow> None)"

lemma one_field_shorter: "one_field b = Some (f, r) \<Longrightarrow> length r < length b"
proof -
  assume h: "one_field b = Some (f, r)"
  then obtain k r1 r2 where n: "next_tok b = Some (TStr k, r1)" "next_tok r1 = Some (TColon, r2)"
      "skip_value 0 (dropWhile is_space r2) = Some r"
    by (auto simp: one_field_def Let_def split: option.splits token.splits)
  have "length (dropWhile is_space r2) \<le> length r2" by (rule length_dropWhile_le)
  then show ?thesis using next_tok_shorter [OF n(1)] next_tok_shorter [OF n(2)] skip_value_shorter [OF n(3)] by linarith
qed

function fields_from :: "bytes \<Rightarrow> (bytes \<times> bytes) list option" where
  "fields_from b = (case one_field b of
     None \<Rightarrow> None
   | Some (f, r) \<Rightarrow> (case next_tok r of
         Some (TComma, r') \<Rightarrow> map_option ((#) f) (fields_from r')
       | Some (TCloseObj, _) \<Rightarrow> Some [f]
       | _ \<Rightarrow> None))"
  by pat_completeness auto
termination
proof (relation "measure length", goal_cases)
  case (2 b fr f r tr t r')
  then have "length r < length b" "length r' < length r"
    using one_field_shorter [of b f r] next_tok_shorter [of r TComma r'] by auto
  then show ?case by simp
qed simp

declare fields_from.simps [simp del]

definition object_fields :: "bytes \<Rightarrow> (bytes \<times> bytes) list option" where
  "object_fields b = (case next_tok b of
     Some (TOpenObj, r) \<Rightarrow> (case next_tok r of Some (TCloseObj, _) \<Rightarrow> Some [] | _ \<Rightarrow> fields_from r)
   | _ \<Rightarrow> None)"

text \<open>Names of struct fields are compared without case; two letters have a third form outside ASCII.\<close>

fun key_fold :: "bytes \<Rightarrow> bytes" where
  "key_fold [] = []"
| "key_fold (a # r) =
     (if a = 0xC5 \<and> take 1 r = [0xBF] then 0x53 # key_fold (drop 1 r)
      else if a = 0xE2 \<and> take 2 r = [0x84, 0xAA] then 0x4B # key_fold (drop 2 r)
      else (if in_range 97 122 a then a - 32 else a) # key_fold r)"

definition names_field :: "string \<Rightarrow> bytes \<Rightarrow> bool" where
  "names_field name k \<longleftrightarrow> key_fold k = key_fold (bytes_of name)"

section \<open>Base64\<close>

definition b64_char :: "nat \<Rightarrow> byte" where
  "b64_char n = word_of_nat
     (if n < 26 then n + 65 else if n < 52 then n + 71 else if n < 62 then n - 4 else if n = 62 then 43 else 47)"

definition b64_val :: "byte \<Rightarrow> nat option" where
  "b64_val c = (let n = unat c in
     if 65 \<le> n \<and> n \<le> 90 then Some (n - 65)
     else if 97 \<le> n \<and> n \<le> 122 then Some (n - 71)
     else if 48 \<le> n \<and> n \<le> 57 then Some (n + 4)
     else if n = 43 then Some 62 else if n = 47 then Some 63 else None)"

fun b64_encode :: "bytes \<Rightarrow> bytes" where
  "b64_encode [] = []"
| "b64_encode [a] = [b64_char (unat a div 4), b64_char (unat a mod 4 * 16), 0x3D, 0x3D]"
| "b64_encode [a, b] = [b64_char (unat a div 4), b64_char (unat a mod 4 * 16 + unat b div 16),
     b64_char (unat b mod 16 * 4), 0x3D]"
| "b64_encode (a # b # c # r) = [b64_char (unat a div 4), b64_char (unat a mod 4 * 16 + unat b div 16),
     b64_char (unat b mod 16 * 4 + unat c div 64), b64_char (unat c mod 64)] @ b64_encode r"

fun b64_groups :: "bytes \<Rightarrow> bytes option" where
  "b64_groups [] = Some []"
| "b64_groups (a # b # c # d # r) =
     (case (b64_val a, b64_val b) of
        (Some x, Some y) \<Rightarrow>
          if c = 0x3D then (if d = 0x3D \<and> r = [] then Some [word_of_nat (x * 4 + y div 16)] else None)
          else (case b64_val c of
              None \<Rightarrow> None
            | Some z \<Rightarrow>
                if d = 0x3D then
                  (if r = [] then Some [word_of_nat (x * 4 + y div 16), word_of_nat (y mod 16 * 16 + z div 4)] else None)
                else (case b64_val d of
                    None \<Rightarrow> None
                  | Some u \<Rightarrow> map_option (\<lambda>bs. [word_of_nat (x * 4 + y div 16), word_of_nat (y mod 16 * 16 + z div 4),
                        word_of_nat (z mod 4 * 64 + u)] @ bs) (b64_groups r)))
      | _ \<Rightarrow> None)"
| "b64_groups _ = None"

text \<open>Line breaks in the text are ignored.\<close>

definition b64_decode :: "bytes \<Rightarrow> bytes option" where
  "b64_decode s = b64_groups (filter (\<lambda>c. c \<noteq> 10 \<and> c \<noteq> 13) s)"

section \<open>Printed values\<close>

lemma json_Valid_show: "jvalid v \<Longrightarrow> json_Valid (show_json v)"
  using lex_show [of v "[]"] parse_toks [of v "[]" "lex []"]
  by (simp add: json_Valid_def jvalid_def deliver_def lex.simps [of "[]"])

lemma next_tok_punct [simp]:
  "next_tok (0x7B # r) = Some (TOpenObj, r)" "next_tok (0x7D # r) = Some (TCloseObj, r)"
  "next_tok (0x5B # r) = Some (TOpenArr, r)" "next_tok (0x5D # r) = Some (TCloseArr, r)"
  "next_tok (0x3A # r) = Some (TColon, r)" "next_tok (0x2C # r) = Some (TComma, r)"
  by (simp_all add: next_tok_def is_space_def lex_one_def)

lemma next_tok_string: "utf8_ok s \<Longrightarrow> next_tok (marshal_string s @ r) = Some (TStr s, r)"
  by (simp add: next_tok_def marshal_string_def is_space_def lex_one_def lex_str_esc)

lemma next_tok_number:
  assumes "number_text s" "num_end r"
  shows "next_tok (s @ r) = Some (TNum s, r)"
proof -
  obtain a b where s: "s = a # b" and a: "a = 0x2D \<or> is_dig a" using number_text_start [OF assms(1)] by blast
  have "\<not> is_space a \<and> a \<notin> {0x7B, 0x7D, 0x5B, 0x5D, 0x3A, 0x2C, 0x22}"
    using a by (auto simp: is_space_def is_dig_def in_range_def)
  then show ?thesis
    using a number_text_lex [OF assms] unfolding s by (simp add: next_tok_def lex_one_def)
qed

lemma next_tok_literal:
  "next_tok (bytes_of ''null'' @ r) = Some (TNull, r)"
  "next_tok (bytes_of ''true'' @ r) = Some (TTrue, r)"
  "next_tok (bytes_of ''false'' @ r) = Some (TFalse, r)"
  by (simp_all add: next_tok_def is_space_def lex_one_def is_dig_def in_range_def)

text \<open>The first token of a printed scalar is the whole of it.\<close>

lemma next_tok_scalar:
  assumes "jwf v" "num_end r" "\<nexists>vs. v = JArr vs" "\<nexists>kvs. v = JObj kvs"
  shows "\<exists>t. next_tok (show_json v @ r) = Some (t, r) \<and> t \<notin> {TErr, TOpenObj, TCloseObj, TOpenArr, TCloseArr, TComma}"
  using assms by (cases v) (auto simp: next_tok_literal next_tok_number next_tok_string simp del: bytes_of_simps)

lemma skip_join:
  assumes "\<And>x r. x \<in> set xs \<Longrightarrow> num_end r \<Longrightarrow> skip_value (Suc d) (f x @ r) = skip_value (Suc d) r" "num_end r"
  shows "skip_value (Suc d) (join 0x2C (map f xs) @ r) = skip_value (Suc d) r"
  using assms
proof (induction xs rule: induct_list012)
  case (3 x y zs)
  have "skip_value (Suc d) (join 0x2C (map f (x # y # zs)) @ r) =
      skip_value (Suc d) (0x2C # join 0x2C (map f (y # zs)) @ r)"
    using 3(3) [of x] by simp
  also have "\<dots> = skip_value (Suc d) (join 0x2C (map f (y # zs)) @ r)"
    by (simp add: skip_value.simps [of "Suc d" "0x2C # _"])
  finally show ?case using 3(2) [OF 3(3)] 3(4) by simp
qed simp_all

lemma skip_deep: "jwf v \<Longrightarrow> num_end r \<Longrightarrow> skip_value (Suc d) (show_json v @ r) = skip_value (Suc d) r"
proof (induction v arbitrary: d r rule: show_json.induct)
  case (5 vs)
  have "skip_value (Suc (Suc d)) (join 0x2C (map show_json vs) @ 0x5D # r) = skip_value (Suc (Suc d)) (0x5D # r)"
    using 5 by (intro skip_join) (auto simp: list_all_iff)
  then show ?case
    by (simp add: skip_value.simps [of "Suc d" "0x5B # _"] skip_value.simps [of "Suc (Suc d)" "0x5D # _"])
next
  case (6 kvs)
  have "skip_value (Suc (Suc d)) (join 0x2C (map (\<lambda>(k, v). marshal_string k @ 0x3A # show_json v) kvs) @ 0x7D # r) =
      skip_value (Suc (Suc d)) (0x7D # r)"
  proof (rule skip_join)
    fix x and r' :: bytes assume x: "x \<in> set kvs" "num_end r'"
    obtain k v where kv: "x = (k, v)" by force
    then have wf: "utf8_ok k" "jwf v" using 6(2) x(1) by (auto simp: list_all_iff)
    have "skip_value (Suc (Suc d)) (show_json v @ r') = skip_value (Suc (Suc d)) r'"
      by (rule 6(1) [OF x(1) kv [symmetric] wf(2) x(2)])
    then show "skip_value (Suc (Suc d)) ((case x of (k, v) \<Rightarrow> marshal_string k @ 0x3A # show_json v) @ r') =
        skip_value (Suc (Suc d)) r'"
      by (simp add: kv skip_value.simps [of "Suc (Suc d)" "marshal_string k @ _"] next_tok_string [OF wf(1)]
          skip_value.simps [of "Suc (Suc d)" "0x3A # _"])
  qed simp
  then show ?case
    by (simp add: skip_value.simps [of "Suc d" "0x7B # _"] skip_value.simps [of "Suc (Suc d)" "0x7D # _"])
qed (use next_tok_scalar in \<open>fastforce simp: skip_value.simps [of "Suc _"]\<close>)+

lemma skip_pairs:
  assumes "list_all (\<lambda>(k, v). utf8_ok k \<and> jwf v) kvs" "num_end r"
  shows "skip_value (Suc d) (join 0x2C (map (\<lambda>(k, v). marshal_string k @ 0x3A # show_json v) kvs) @ r) = skip_value (Suc d) r"
proof (rule skip_join)
  fix x and r' :: bytes assume x: "x \<in> set kvs" "num_end r'"
  obtain k v where kv: "x = (k, v)" by force
  then have wf: "utf8_ok k" "jwf v" using assms(1) x(1) by (auto simp: list_all_iff)
  show "skip_value (Suc d) ((case x of (k, v) \<Rightarrow> marshal_string k @ 0x3A # show_json v) @ r') = skip_value (Suc d) r'"
    using skip_deep [OF wf(2) x(2), of d]
    by (simp add: kv skip_value.simps [of "Suc d" "marshal_string k @ _"] next_tok_string [OF wf(1)]
        skip_value.simps [of "Suc d" "0x3A # _"])
qed (rule assms(2))

lemma skip_value_show:
  assumes "jwf v" "num_end r"
  shows "skip_value 0 (show_json v @ r) = Some r"
proof -
  consider vs where "v = JArr vs" | kvs where "v = JObj kvs" | "\<nexists>vs. v = JArr vs" "\<nexists>kvs. v = JObj kvs" by blast
  then show ?thesis
  proof cases
    case (1 vs)
    have "skip_value (Suc 0) (join 0x2C (map show_json vs) @ 0x5D # r) = skip_value (Suc 0) (0x5D # r)"
      using assms(1) 1 by (intro skip_join skip_deep) (auto simp: list_all_iff)
    then show ?thesis
      by (simp add: 1 skip_value.simps [of 0 "0x5B # _"] skip_value.simps [of "Suc 0" "0x5D # _"])
  next
    case (2 kvs)
    have "skip_value (Suc 0) (join 0x2C (map (\<lambda>(k, v). marshal_string k @ 0x3A # show_json v) kvs) @ 0x7D # r) =
        skip_value (Suc 0) (0x7D # r)"
      using assms(1) 2 by (intro skip_pairs) auto
    then show ?thesis
      by (simp add: 2 skip_value.simps [of 0 "0x7B # _"] skip_value.simps [of "Suc 0" "0x7D # _"])
  next
    case 3
    then show ?thesis using next_tok_scalar [OF assms 3] by (auto simp: skip_value.simps [of 0])
  qed
qed

lemma show_json_start: "jwf v \<Longrightarrow> \<exists>a r. show_json v = a # r \<and> \<not> is_space a"
proof (cases v)
  case (JNum s)
  assume "jwf v"
  then have "number_text s" using JNum by simp
  then obtain a b where "s = a # b" "a = 0x2D \<or> is_dig a" using number_text_start by blast
  then show ?thesis using JNum by (auto simp: is_space_def is_dig_def in_range_def)
qed (auto simp: marshal_string_def is_space_def)

lemma one_field_show:
  assumes "utf8_ok k" "jwf v" "num_end r"
  shows "one_field (marshal_string k @ 0x3A # show_json v @ r) = Some ((k, show_json v), r)"
proof -
  obtain a c where "show_json v = a # c" "\<not> is_space a" using show_json_start [OF assms(2)] by blast
  then have "dropWhile is_space (show_json v @ r) = show_json v @ r" by simp
  then show ?thesis
    using assms by (simp add: one_field_def next_tok_string skip_value_show)
qed

lemma fields_from_show:
  assumes "list_all (\<lambda>(k, v). utf8_ok k \<and> jwf v) kvs" "kvs \<noteq> []"
  shows "fields_from (join 0x2C (map (\<lambda>(k, v). marshal_string k @ 0x3A # show_json v) kvs) @ 0x7D # r) =
    Some (map (\<lambda>(k, v). (k, show_json v)) kvs)"
  using assms
proof (induction kvs rule: induct_list012)
  case (2 x)
  then show ?case by (cases x) (simp add: fields_from.simps one_field_show)
next
  case (3 x y zs)
  then show ?case
    by (cases x) (simp add: fields_from.simps [of "marshal_string _ @ _"] one_field_show)
qed simp

lemma object_fields_show:
  assumes "jwf (JObj kvs)"
  shows "object_fields (show_json (JObj kvs)) = Some (map (\<lambda>(k, v). (k, show_json v)) kvs)"
proof (cases kvs)
  case Nil
  then show ?thesis by (simp add: object_fields_def)
next
  case (Cons x xs)
  obtain k v where x: "x = (k, v)" by force
  then have k: "utf8_ok k" using assms Cons by simp
  obtain r where r: "join 0x2C (map (\<lambda>(k, v). marshal_string k @ 0x3A # show_json v) kvs) @ [0x7D] = marshal_string k @ r"
    using Cons x by (cases xs) auto
  have "fields_from (marshal_string k @ r) = Some (map (\<lambda>(k, v). (k, show_json v)) kvs)"
    using fields_from_show [of kvs "[]"] assms Cons unfolding r by simp
  then show ?thesis using r next_tok_string [OF k, of r] by (simp add: object_fields_def)
qed

section \<open>Compacting what was printed\<close>

lemma compact_esc_ascii:
  assumes "unat a < 128"
  shows "compact True (esc_ascii a @ r) = esc_ascii a @ compact True r"
proof -
  have hex: "compact True (hex_lower d # r) = hex_lower d # compact True r" if "d < 16" for d r
  proof -
    have "unat (hex_lower d) = (if d < 10 then 48 + d else 87 + d)"
      using that by (simp add: hex_lower_def unat_of_nat del: of_nat_add)
    then have "unat (hex_lower d) \<notin> {0x22, 0x5C, 0x3C, 0x3E, 0x26, 0xE2}" using that by auto
    then have "hex_lower d \<notin> {0x22, 0x5C, 0x3C, 0x3E, 0x26, 0xE2}" by auto
    then show ?thesis by simp
  qed
  have "unat a div 16 < 16" using assms by simp
  then have u: "compact True (0x5C # 0x75 # 0x30 # 0x30 # hex_lower (unat a div 16) # hex_lower (unat a mod 16) # r) =
      0x5C # 0x75 # 0x30 # 0x30 # hex_lower (unat a div 16) # hex_lower (unat a mod 16) # compact True r"
    using hex by simp
  have two: "compact True (0x5C # b # r) = 0x5C # b # compact True r" for b by simp
  have raw: "compact True (a # r) = a # compact True r" if "a \<notin> {0x22, 0x5C, 0x3C, 0x3E, 0x26}"
  proof -
    have "a \<noteq> 0xE2" using assms by auto
    then show ?thesis using that by simp
  qed
  show ?thesis
  proof (cases "a \<in> {0x5C, 0x22, 8, 12, 10, 13, 9}")
    case True
    then show ?thesis using two by (auto simp: esc_ascii_def simp del: compact.simps)
  next
    case False
    then show ?thesis using u raw by (simp add: esc_ascii_def del: compact.simps)
  qed
qed

lemma utf8_seq_bytes:
  assumes "utf8_len (a # r) = Suc n" "\<not> unat a < 128"
  shows "\<forall>c\<in>set (take n r). 128 \<le> unat c \<and> unat c < 192" "a = 0xE2 \<Longrightarrow> n = 2 \<and> 2 \<le> length r"
  using assms by (auto simp: utf8_len.simps in_range_def split: if_splits list.splits)

lemma compact_cont:
  "\<forall>c\<in>set s. 128 \<le> unat c \<and> unat c < 192 \<Longrightarrow> compact True (s @ r) = s @ compact True r"
proof (induction s)
  case (Cons c s)
  then have "unat c \<notin> {0x22, 0x5C, 0x3C, 0x3E, 0x26, 0xE2}" by auto
  then have "c \<notin> {0x22, 0x5C, 0x3C, 0x3E, 0x26, 0xE2}" by auto
  then show ?case using Cons by simp
qed simp

lemma compact_esc: "utf8_ok s \<Longrightarrow> compact True (esc s @ r) = esc s @ compact True r"
proof (induction s rule: utf8_ok.induct)
  case 1
  then show ?case by (simp add: esc.simps)
next
  case (2 a s)
  then obtain n where n: "utf8_len (a # s) = Suc n" by (cases "utf8_len (a # s)") (auto simp: utf8_ok.simps)
  then have IH: "compact True (esc (drop n s) @ r) = esc (drop n s) @ compact True r"
    using 2 by (simp add: utf8_ok.simps)
  show ?case
  proof (cases "unat a < 128")
    case True
    then have "n = 0" using n by simp
    then show ?thesis using True IH by (simp add: esc.simps compact_esc_ascii)
  next
    case False
    let ?seq = "a # take n s"
    have printed: "esc (a # s) = (if ?seq = [0xE2, 0x80, 0xA8]
        then bytes_of [CHR 0x5C, CHR ''u'', CHR ''2'', CHR ''0'', CHR ''2'', CHR ''8'']
        else if ?seq = [0xE2, 0x80, 0xA9]
        then bytes_of [CHR 0x5C, CHR ''u'', CHR ''2'', CHR ''0'', CHR ''2'', CHR ''9''] else ?seq) @ esc (drop n s)"
      using False n by (simp add: esc.simps del: bytes_of_simps)
    have "compact True (?seq @ z) = ?seq @ compact True z"
      if "?seq \<noteq> [0xE2, 0x80, 0xA8]" "?seq \<noteq> [0xE2, 0x80, 0xA9]" for z
    proof -
      have "take 2 (take n s @ z) = take n s" if "a = 0xE2" using utf8_seq_bytes(2) [OF n False that] by simp
      moreover have "a \<notin> {0x22, 0x5C, 0x3C, 0x3E, 0x26}" using False by auto
      ultimately have "compact True (a # take n s @ z) = a # compact True (take n s @ z)" using that by auto
      then show ?thesis using compact_cont [OF utf8_seq_bytes(1) [OF n False]] by simp
    qed
    then show ?thesis using IH unfolding printed by auto
  qed
qed

lemma compact_string: "utf8_ok s \<Longrightarrow> compact False (marshal_string s @ r) = marshal_string s @ compact False r"
  by (simp add: marshal_string_def is_space_def compact_esc)

lemma compact_join:
  assumes "\<And>x r. x \<in> set xs \<Longrightarrow> compact False (f x @ r) = f x @ compact False r"
  shows "compact False (join 0x2C (map f xs) @ r) = join 0x2C (map f xs) @ compact False r"
  using assms
proof (induction xs rule: induct_list012)
  case (3 x y zs)
  have "compact False (join 0x2C (map f (y # zs)) @ r) = join 0x2C (map f (y # zs)) @ compact False r"
    using 3(3) by (intro 3(2)) auto
  then show ?case using 3(3) [of x] by (simp add: is_space_def)
qed simp_all

lemma lex_num_bytes:
  assumes "lex_num b = Some (s, r)" "c \<in> set s"
  shows "is_dig c \<or> c \<in> {0x2B, 0x2D, 0x2E, 0x65, 0x45}"
proof -
  define sign where "sign = (if b \<noteq> [] \<and> hd b = 0x2D then [0x2D :: byte] else [])"
  obtain i r1 f r2 e where p: "lex_int (drop (length sign) b) = Some (i, r1)"
    "lex_frac r1 = Some (f, r2)" "lex_exp r2 = Some (e, r)" and s: "s = sign @ i @ f @ e"
    using assms(1) by (auto simp: lex_num_def Let_def sign_def split: option.splits)
  have "is_dig 0x30" by (simp add: is_dig_def in_range_def)
  then have "\<forall>c\<in>set i. is_dig c" using p(1) by (auto simp: lex_int_iff list_all_iff)
  moreover have "\<forall>c\<in>set f. is_dig c \<or> c = 0x2E" using lex_frac_parts [OF p(2)] by (auto simp: list_all_iff)
  moreover have "\<forall>c\<in>set e. is_dig c \<or> c \<in> {0x65, 0x45, 0x2B, 0x2D}"
    using p(3) by (cases r2) (auto simp: lex_exp_Cons lex_exp_def map_apfst_Some lex_digits_iff sign_of_def list_all_iff
        split: if_splits)
  moreover have "\<forall>c\<in>set sign. c = 0x2D" by (simp add: sign_def)
  ultimately show ?thesis using assms(2) unfolding s by auto
qed

lemma compact_number: "number_text s \<Longrightarrow> compact False (s @ r) = s @ compact False r"
proof -
  assume s: "number_text s"
  have "compact False (u @ r) = u @ compact False r"
    if "\<forall>c\<in>set u. is_dig c \<or> c \<in> {0x2B, 0x2D, 0x2E, 0x65, 0x45}" for u
    using that
  proof (induction u)
    case (Cons c u)
    then have "\<not> is_space c \<and> c \<noteq> 0x22" by (auto simp: is_space_def is_dig_def in_range_def)
    then show ?case using Cons by simp
  qed simp
  then show ?thesis using lex_num_bytes [of s s "[]"] s unfolding number_text_def by blast
qed

lemma compact_show: "jwf v \<Longrightarrow> compact False (show_json v @ r) = show_json v @ compact False r"
proof (induction v arbitrary: r rule: show_json.induct)
  case (5 vs)
  have "compact False (join 0x2C (map show_json vs) @ 0x5D # r) = join 0x2C (map show_json vs) @ compact False (0x5D # r)"
    using 5 by (intro compact_join) (auto simp: list_all_iff)
  then show ?case by (simp add: is_space_def)
next
  case (6 kvs)
  have "compact False (join 0x2C (map (\<lambda>(k, v). marshal_string k @ 0x3A # show_json v) kvs) @ 0x7D # r) =
      join 0x2C (map (\<lambda>(k, v). marshal_string k @ 0x3A # show_json v) kvs) @ compact False (0x7D # r)"
  proof (rule compact_join)
    fix x and r' :: bytes assume x: "x \<in> set kvs"
    obtain k v where kv: "x = (k, v)" by force
    then have wf: "utf8_ok k" "jwf v" using 6(2) x by (auto simp: list_all_iff)
    have "compact False (show_json v @ r') = show_json v @ compact False r'"
      by (rule 6(1) [OF x kv [symmetric] wf(2)])
    then show "compact False ((case x of (k, v) \<Rightarrow> marshal_string k @ 0x3A # show_json v) @ r') =
        (case x of (k, v) \<Rightarrow> marshal_string k @ 0x3A # show_json v) @ compact False r'"
      by (simp add: kv compact_string [OF wf(1)] is_space_def)
  qed
  then show ?case by (simp add: is_space_def)
qed (simp_all add: compact_number compact_string, simp_all add: is_space_def)

section \<open>Base64 round trip\<close>

lemma unat_b64_char:
  "n < 64 \<Longrightarrow> unat (b64_char n) =
     (if n < 26 then n + 65 else if n < 52 then n + 71 else if n < 62 then n - 4 else if n = 62 then 43 else 47)"
  by (simp add: b64_char_def unat_of_nat del: of_nat_add of_nat_diff)

lemma b64_val_char: "n < 64 \<Longrightarrow> b64_val (b64_char n) = Some n"
  using unat_b64_char [of n] by (auto simp: b64_val_def Let_def)

lemma b64_char_plain:
  assumes "n < 64"
  shows "32 \<le> unat (b64_char n)" "unat (b64_char n) < 123"
    "b64_char n \<notin> {0x22, 0x26, 0x3C, 0x3D, 0x3E, 0x5C, 10, 13}"
proof -
  have "unat (b64_char n) \<in> {43, 47} \<union> {48..57} \<union> {65..90} \<union> {97..122}" using unat_b64_char [OF assms] assms by auto
  then show "32 \<le> unat (b64_char n)" "unat (b64_char n) < 123"
    "b64_char n \<notin> {0x22, 0x26, 0x3C, 0x3D, 0x3E, 0x5C, 10, 13}" by auto
qed

lemma unat_lt_256: "unat (a :: byte) < 256"
  using unsigned_less [where 'b = 8 and 'a = nat, of a] by simp

lemma b64_parts:
  "unat (a :: byte) div 4 < 64" "unat a mod 4 * 16 < 64" "unat a mod 4 * 16 + unat (b :: byte) div 16 < 64"
  "unat b mod 16 * 4 < 64" "unat b mod 16 * 4 + unat (c :: byte) div 64 < 64" "unat c mod 64 < 64"
  using unat_lt_256 [of a] unat_lt_256 [of b] unat_lt_256 [of c] by auto

lemma b64_groups_encode: "b64_groups (b64_encode b) = Some b"
proof (induction b rule: b64_encode.induct)
  case (2 a)
  have "word_of_nat (unat a div 4 * 4 + unat a mod 4 * 16 div 16) = a" by simp
  then show ?case by (simp add: b64_val_char b64_parts)
next
  case (3 a b)
  have "(unat a mod 4 * 16 + unat b div 16) div 16 = unat a mod 4" "(unat a mod 4 * 16 + unat b div 16) mod 16 = unat b div 16"
    using unat_lt_256 [of b] by auto
  moreover have "unat b div 16 * 16 + unat b mod 16 * 4 div 4 = unat b" by simp
  ultimately show ?case
    using b64_char_plain(3) [OF b64_parts(4), of b]
    by (simp add: b64_val_char b64_parts del: of_nat_add of_nat_mult)
next
  case (4 a b c r)
  have "(unat a mod 4 * 16 + unat b div 16) div 16 = unat a mod 4" "(unat a mod 4 * 16 + unat b div 16) mod 16 = unat b div 16"
    "(unat b mod 16 * 4 + unat c div 64) div 4 = unat b mod 16" "(unat b mod 16 * 4 + unat c div 64) mod 4 = unat c div 64"
    using unat_lt_256 [of b] unat_lt_256 [of c] by auto
  then show ?case
    using 4 b64_char_plain(3) [OF b64_parts(5), of b c] b64_char_plain(3) [OF b64_parts(6), of c]
    by (simp add: b64_val_char b64_parts del: of_nat_add of_nat_mult)
qed simp

lemma b64_encode_chars: "c \<in> set (b64_encode b) \<Longrightarrow> c = 0x3D \<or> (\<exists>n < 64. c = b64_char n)"
  by (induction b rule: b64_encode.induct) (auto intro: b64_parts)

lemma b64_encode_plain:
  assumes "c \<in> set (b64_encode b)"
  shows "32 \<le> unat c" "unat c < 128" "c \<notin> {0x22, 0x26, 0x3C, 0x3E, 0x5C, 10, 13}"
  using b64_encode_chars [OF assms] b64_char_plain by fastforce+

lemma b64_roundtrip: "b64_decode (b64_encode b) = Some b"
proof -
  have "filter (\<lambda>c. c \<noteq> 10 \<and> c \<noteq> 13) (b64_encode b) = b64_encode b"
    using b64_encode_plain(3) [of _ b] by (intro filter_True) auto
  then show ?thesis by (simp add: b64_decode_def b64_groups_encode)
qed

text \<open>A base64 text needs no escapes.\<close>

lemma esc_plain:
  "(\<And>c. c \<in> set s \<Longrightarrow> 32 \<le> unat c \<and> unat c < 128 \<and> c \<notin> {0x22, 0x26, 0x3C, 0x3E, 0x5C}) \<Longrightarrow>
   esc s = s \<and> utf8_ok s"
proof (induction s)
  case (Cons c s)
  have c: "32 \<le> unat c" "unat c < 128" "c \<notin> {0x22, 0x26, 0x3C, 0x3E, 0x5C}" using Cons.prems [of c] by auto
  then have "esc_ascii c = [c]" by (auto simp: esc_ascii_def)
  then show ?case using Cons c by (simp add: esc.simps utf8_ok.simps)
qed (simp add: esc.simps)

lemma b64_marshal: "marshal_string (b64_encode b) = 0x22 # b64_encode b @ [0x22]" "utf8_ok (b64_encode b)"
  using esc_plain [of "b64_encode b"] b64_encode_plain [of _ b] by (auto simp: marshal_string_def)

end
