(* ===== verification/Frames.thy ===== *)
theory Frames
  imports Json_Struct Xwal_Names
begin

text \<open>
  The record frames of the \<^verbatim>\<open>xwal\<close> layer (\<^verbatim>\<open>xwal/xwal.go\<close>, the frame section): a channel entry as a JSON
  object with the main index, the payload as embedded JSON or as base64, a timestamp, an optional
  meta value and, on main records, the cursors of the unkeyed channels; the encoder, the decoder by
  the library, and the decoder for the frames the encoder writes, which walks the bytes itself.
\<close>

section \<open>Frames and records\<close>

record frameObj =
  fo_M :: nat
  fo_P :: bytes
  fo_P64 :: "bytes option"
  fo_T :: int
  fo_X :: bytes
  fo_C :: "(bytes \<times> nat) list"

abbreviation no_frame :: frameObj where
  "no_frame \<equiv> \<lparr>fo_M = 0, fo_P = [], fo_P64 = None, fo_T = 0, fo_X = [], fo_C = []\<rparr>"

record xrecord =
  rc_ChannelLT :: nat
  rc_MainLT :: nat
  rc_Payload :: bytes
  rc_Meta :: bytes
  rc_TS :: int
  rc_Cursors :: "(bytes \<times> nat) list"

section \<open>Encoding\<close>

definition embedJSON :: "bytes \<Rightarrow> bytes" where
  "embedJSON b = (if b = [] then [] else if json_Valid b then b else marshal_string b)"

text \<open>
  \<^verbatim>\<open>json.Marshal\<close> of the struct: its fields in order, the empty ones left out, raw messages
  compacted, a map with its keys sorted.
\<close>

definition frame_fields :: "frameObj \<Rightarrow> (bytes \<times> bytes) list" where
  "frame_fields fo =
     [(bytes_of ''m'', bytes_of (dec (fo_M fo)))] @
     (if fo_P fo = [] then [] else [(bytes_of ''p'', compact False (fo_P fo))]) @
     (case fo_P64 fo of None \<Rightarrow> [] | Some s \<Rightarrow> [(bytes_of ''p64'', marshal_string s)]) @
     (if fo_T fo = 0 then [] else [(bytes_of ''t'', bytes_of (Itoa (fo_T fo)))]) @
     (if fo_X fo = [] then [] else [(bytes_of ''x'', compact False (fo_X fo))]) @
     (if fo_C fo = [] then []
      else [(bytes_of ''c'', 0x7B # join 0x2C (map (\<lambda>(k, n). marshal_string k @ 0x3A # bytes_of (dec n))
              (sort_key fst (fo_C fo))) @ [0x7D])])"

definition marshal_frame :: "frameObj \<Rightarrow> bytes" where
  "marshal_frame fo = 0x7B # join 0x2C (map (\<lambda>(k, t). marshal_string k @ 0x3A # t) (frame_fields fo)) @ [0x7D]"

definition encodeStampedFrame :: "nat \<Rightarrow> bytes \<Rightarrow> bytes \<Rightarrow> bool \<Rightarrow> (bytes \<times> nat) list \<Rightarrow> int \<Rightarrow> bytes" where
  "encodeStampedFrame mainLT payload meta opaque cursors ts =
     (let fo = no_frame\<lparr>fo_M := mainLT, fo_C := cursors, fo_T := ts\<rparr>;
          fo1 = (if opaque then fo\<lparr>fo_P64 := Some (b64_encode payload)\<rparr>
                else fo\<lparr>fo_P := (if embedJSON payload = [] then bytes_of ''null'' else embedJSON payload)\<rparr>)
      in marshal_frame (fo1\<lparr>fo_X := embedJSON meta\<rparr>))"

definition encodeChannelFrame :: "nat \<Rightarrow> bytes \<Rightarrow> bytes \<Rightarrow> bool \<Rightarrow> int \<Rightarrow> bytes" where
  "encodeChannelFrame mainLT payload meta opaque ts = encodeStampedFrame mainLT payload meta opaque [] ts"

definition encodeFrame :: "nat \<Rightarrow> bytes \<Rightarrow> bytes \<Rightarrow> int \<Rightarrow> bytes" where
  "encodeFrame mainLT payload meta ts = encodeChannelFrame mainLT payload meta False ts"

section \<open>Decoding by the library\<close>

text \<open>Storing a raw value into a field: null leaves a number as it is.\<close>

definition read_uint :: "nat \<Rightarrow> bytes \<Rightarrow> err + nat" where
  "read_uint old raw = (if raw = bytes_of ''null'' then Inr old else ParseUint (text_of raw))"

definition read_int :: "int \<Rightarrow> bytes \<Rightarrow> err + int" where
  "read_int old raw = (if raw = bytes_of ''null'' then Inr old else Atoi (text_of raw))"

definition read_string :: "bytes \<Rightarrow> err + bytes option" where
  "read_string raw = (if raw = bytes_of ''null'' then Inr None
     else case raw of
       c # r \<Rightarrow> if c = 0x22 then (case lex_str r of Some (s, _) \<Rightarrow> Inr (Some s) | None \<Rightarrow> Inl ErrSyntax) else Inl ErrSyntax
     | [] \<Rightarrow> Inl ErrSyntax)"

fun read_entries :: "(bytes \<times> nat) list \<Rightarrow> (bytes \<times> bytes) list \<Rightarrow> err + (bytes \<times> nat) list" where
  "read_entries m [] = Inr m"
| "read_entries m ((k, raw) # fs) = rbind (read_uint 0 raw) (\<lambda>n. read_entries (AList.update k n m) fs)"

definition read_map :: "(bytes \<times> nat) list \<Rightarrow> bytes \<Rightarrow> err + (bytes \<times> nat) list" where
  "read_map old raw = (if raw = bytes_of ''null'' then Inr []
     else case object_fields raw of None \<Rightarrow> Inl ErrSyntax | Some fs \<Rightarrow> read_entries old fs)"

definition set_field :: "bytes \<times> bytes \<Rightarrow> frameObj \<Rightarrow> err + frameObj" where
  "set_field kr fo = (case kr of (k, raw) \<Rightarrow>
     if names_field ''m'' k then rbind (read_uint (fo_M fo) raw) (\<lambda>n. Inr (fo\<lparr>fo_M := n\<rparr>))
     else if names_field ''p'' k then Inr (fo\<lparr>fo_P := raw\<rparr>)
     else if names_field ''p64'' k then rbind (read_string raw) (\<lambda>s. Inr (fo\<lparr>fo_P64 := s\<rparr>))
     else if names_field ''t'' k then rbind (read_int (fo_T fo) raw) (\<lambda>n. Inr (fo\<lparr>fo_T := n\<rparr>))
     else if names_field ''x'' k then Inr (fo\<lparr>fo_X := raw\<rparr>)
     else if names_field ''c'' k then rbind (read_map (fo_C fo) raw) (\<lambda>m. Inr (fo\<lparr>fo_C := m\<rparr>))
     else Inr fo)"

fun set_fields :: "(bytes \<times> bytes) list \<Rightarrow> frameObj \<Rightarrow> err + frameObj" where
  "set_fields [] fo = Inr fo"
| "set_fields (f # fs) fo = rbind (set_field f fo) (set_fields fs)"

text \<open>\<^verbatim>\<open>json.Unmarshal\<close> into a frame: the text must be one valid value, an object or null.\<close>

definition unmarshal_frame :: "bytes \<Rightarrow> err + frameObj" where
  "unmarshal_frame f =
     (if \<not> json_Valid f then Inl ErrSyntax
      else case object_fields f of
        Some fs \<Rightarrow> set_fields fs no_frame
      | None \<Rightarrow> (case next_tok f of Some (TNull, _) \<Rightarrow> Inr no_frame | _ \<Rightarrow> Inl ErrSyntax))"

definition frame_payload :: "frameObj \<Rightarrow> err + bytes" where
  "frame_payload fo = (case fo_P64 fo of
     None \<Rightarrow> Inr (fo_P fo)
   | Some s \<Rightarrow> (case b64_decode s of None \<Rightarrow> Inl (ErrMsg ''decode opaque payload'') | Some b \<Rightarrow> Inr b))"

section \<open>Decoding by hand\<close>

fun str_end :: "bytes \<Rightarrow> nat \<Rightarrow> nat option" where
  "str_end [] n = None"
| "str_end (c # r) n =
     (if c = 0x5C then (case r of [] \<Rightarrow> None | _ # r1 \<Rightarrow> str_end r1 (n + 2))
      else if c = 0x22 then Some (n + 1)
      else str_end r (n + 1))"

fun nest_end :: "bytes \<Rightarrow> nat \<Rightarrow> int \<Rightarrow> bool \<Rightarrow> nat option" where
  "nest_end [] n depth inString = None"
| "nest_end (c # r) n depth True =
     (if c = 0x5C then (case r of [] \<Rightarrow> None | _ # r1 \<Rightarrow> nest_end r1 (n + 2) depth True)
      else nest_end r (n + 1) depth (c \<noteq> 0x22))"
| "nest_end (c # r) n depth False =
     (if c = 0x22 then nest_end r (n + 1) depth True
      else if c = 0x7B \<or> c = 0x5B then nest_end r (n + 1) (depth + 1) False
      else if c = 0x7D \<or> c = 0x5D then
        (if depth - 1 = 0 then Some (n + 1) else nest_end r (n + 1) (depth - 1) False)
      else nest_end r (n + 1) depth False)"

fun scalar_end :: "bytes \<Rightarrow> nat \<Rightarrow> nat option" where
  "scalar_end [] n = None"
| "scalar_end (c # r) n =
     (if c = 0x2C \<or> c = 0x7D then (if n > 0 then Some n else None) else scalar_end r (n + 1))"

text \<open>The length of the value a text begins with.\<close>

definition jsonValueEnd :: "bytes \<Rightarrow> nat option" where
  "jsonValueEnd b = (case b of
     [] \<Rightarrow> None
   | c # r \<Rightarrow> if c = 0x22 then str_end r 1
              else if c = 0x7B \<or> c = 0x5B then nest_end b 0 0 False
              else scalar_end b 0)"

text \<open>The digits a text begins with, as long as their value stays within the limit.\<close>

fun scan_digits :: "nat \<Rightarrow> nat \<Rightarrow> bytes \<Rightarrow> (nat \<times> bytes) option" where
  "scan_digits lim n [] = Some (n, [])"
| "scan_digits lim n (c # r) =
     (if is_dig c then
        (if n > (lim - (unat c - 48)) div 10 then None else scan_digits lim (n * 10 + (unat c - 48)) r)
      else Some (n, c # r))"

definition mPrefix :: bytes where
  "mPrefix = bytes_of [CHR 0x7B, CHR 0x22, CHR ''m'', CHR 0x22, CHR 0x3A]"

definition pPrefix :: bytes where
  "pPrefix = bytes_of [CHR 0x2C, CHR 0x22, CHR ''p'', CHR 0x22, CHR 0x3A]"

definition p64Prefix :: bytes where
  "p64Prefix = bytes_of [CHR 0x2C, CHR 0x22, CHR ''p'', CHR ''6'', CHR ''4'', CHR 0x22, CHR 0x3A]"

definition tsPrefix :: bytes where
  "tsPrefix = bytes_of [CHR 0x2C, CHR 0x22, CHR ''t'', CHR 0x22, CHR 0x3A]"

definition metaPrefix :: bytes where
  "metaPrefix = bytes_of [CHR 0x2C, CHR 0x22, CHR ''x'', CHR 0x22, CHR 0x3A]"

definition fast_head :: "bytes \<Rightarrow> (nat \<times> bytes) option" where
  "fast_head f =
     (if length f \<le> length mPrefix \<or> take (length mPrefix) f \<noteq> mPrefix \<or> \<not> json_Valid f then None
      else case scan_digits u64_max 0 (drop (length mPrefix) f) of
        None \<Rightarrow> None
      | Some (m, r) \<Rightarrow> if r = drop (length mPrefix) f then None else Some (m, r))"

definition fastDecodeMainLT :: "bytes \<Rightarrow> nat option" where
  "fastDecodeMainLT f = (case fast_head f of
     None \<Rightarrow> None
   | Some (m, r) \<Rightarrow> if r \<noteq> [] \<and> hd r = 0x2C then Some m else None)"

text \<open>The payload after its key, and what follows it.\<close>

definition fast_payload :: "bytes \<Rightarrow> (bytes \<times> bytes) option" where
  "fast_payload r =
     (if prefix pPrefix r then
        (let v = drop (length pPrefix) r in
         case jsonValueEnd v of None \<Rightarrow> None | Some n \<Rightarrow> Some (take n v, drop n v))
      else if prefix p64Prefix r then
        (let v = drop (length p64Prefix) r in
         case jsonValueEnd v of
           None \<Rightarrow> None
         | Some n \<Rightarrow>
             (let p = take n v in
              if length p < 2 \<or> hd p \<noteq> 0x22 \<or> last p \<noteq> 0x22 then None
              else case b64_decode (butlast (tl p)) of None \<Rightarrow> None | Some d \<Rightarrow> Some (d, drop n v)))
      else None)"

text \<open>The optional timestamp: its value, what follows, and whether that closes the frame.\<close>

definition fast_ts :: "bytes \<Rightarrow> (int \<times> bytes) option" where
  "fast_ts r =
     (if length tsPrefix < length r \<and> prefix tsPrefix r then
        (case scan_digits (2 ^ 63 - 1) 0 (drop (length tsPrefix) r) of
           None \<Rightarrow> None
         | Some (n, r') \<Rightarrow> if r' = drop (length tsPrefix) r then None else Some (int n, r'))
      else Some (0, r))"

definition fastDecodeFrame :: "bytes \<Rightarrow> (nat \<times> bytes \<times> bytes \<times> int) option" where
  "fastDecodeFrame f = (case fast_head f of
     None \<Rightarrow> None
   | Some (m, r0) \<Rightarrow> (case fast_payload r0 of
       None \<Rightarrow> None
     | Some (p, r1) \<Rightarrow>
         if r1 = [0x7D] then Some (m, p, [], 0)
         else (case fast_ts r1 of
             None \<Rightarrow> None
           | Some (ts, r2) \<Rightarrow>
               if r2 \<noteq> r1 \<and> r2 = [0x7D] then Some (m, p, [], ts)
               else if length r2 \<le> length metaPrefix \<or> \<not> prefix metaPrefix r2 then None
               else (let v = drop (length metaPrefix) r2 in
                 case jsonValueEnd v of
                   None \<Rightarrow> None
                 | Some n \<Rightarrow> if drop n v = [0x7D] then Some (m, p, take n v, ts) else None))))"

section \<open>The decoders\<close>

definition decodeFrame :: "bytes \<Rightarrow> err + nat \<times> bytes" where
  "decodeFrame f = (case fastDecodeFrame f of
     Some (m, p, _, _) \<Rightarrow> Inr (m, p)
   | None \<Rightarrow> rbind (unmarshal_frame f) (\<lambda>fo. rbind (frame_payload fo) (\<lambda>p. Inr (fo_M fo, p))))"

definition decodeRecordFrom :: "nat \<Rightarrow> bytes \<Rightarrow> bool \<Rightarrow> err + xrecord" where
  "decodeRecordFrom channelLT f isMain = (case (fastDecodeFrame f, isMain) of
     (Some (m, p, x, ts), False) \<Rightarrow> Inr \<lparr>rc_ChannelLT = channelLT, rc_MainLT = m, rc_Payload = p, rc_Meta = x, rc_TS = ts, rc_Cursors = []\<rparr>
   | _ \<Rightarrow> rbind (unmarshal_frame f) (\<lambda>fo. rbind (frame_payload fo) (\<lambda>p.
       Inr \<lparr>rc_ChannelLT = channelLT, rc_MainLT = fo_M fo, rc_Payload = p, rc_Meta = fo_X fo, rc_TS = fo_T fo, rc_Cursors = fo_C fo\<rparr>)))"

definition decodeRecord :: "nat \<Rightarrow> bytes \<Rightarrow> err + xrecord" where
  "decodeRecord channelLT f = decodeRecordFrom channelLT f False"

fun set_mains :: "(bytes \<times> bytes) list \<Rightarrow> nat \<Rightarrow> err + nat" where
  "set_mains [] m = Inr m"
| "set_mains ((k, raw) # fs) m =
     (if names_field ''m'' k then rbind (read_uint m raw) (set_mains fs) else set_mains fs m)"

definition decodeMainLT :: "bytes \<Rightarrow> err + nat" where
  "decodeMainLT f = (case fastDecodeMainLT f of
     Some m \<Rightarrow> Inr m
   | None \<Rightarrow>
       if \<not> json_Valid f then Inl ErrSyntax
       else case object_fields f of
         Some fs \<Rightarrow> set_mains fs 0
       | None \<Rightarrow> (case next_tok f of Some (TNull, _) \<Rightarrow> Inr 0 | _ \<Rightarrow> Inl ErrSyntax))"

section \<open>Decimal texts\<close>

lemma dec_head: "0 < n \<Longrightarrow> hd (dec n) \<noteq> CHR ''0''"
proof (induction n rule: dec.induct)
  case (1 n)
  show ?case
  proof (cases "n < 10")
    case True
    then have "digit_val (digit_char n) = n" by simp
    moreover have "digit_val (CHR ''0'') = 0" by (simp add: digit_val_def)
    ultimately have "digit_char n \<noteq> CHR ''0''" using 1(2) by auto
    then show ?thesis using True by (simp add: dec.simps [of n])
  next
    case False
    then have "hd (dec (n div 10)) \<noteq> CHR ''0''" using 1(1) by simp
    then show ?thesis using False by (simp add: dec.simps [of n])
  qed
qed

lemma unat_of_char: "unat (word_of_nat (of_char c) :: byte) = of_char c"
proof -
  have "of_char c < (256 :: nat)" by simp
  then show ?thesis by (rule unat_small)
qed

lemma dec_bytes: "list_all is_dig (bytes_of (dec n))" "bytes_of (dec n) \<noteq> []"
  using is_dig_dec [of _ n] by (auto simp: bytes_of_def list_all_iff)

lemma number_text_dec: "number_text (bytes_of (dec n))"
proof -
  let ?s = "bytes_of (dec n)"
  have nominus: "hd ?s \<noteq> 0x2D" using dec_bytes [of n] by (cases ?s) (auto simp: is_dig_def in_range_def)
  have "lex_int ?s = Some (?s, [])"
  proof (cases "n = 0")
    case True
    have "?s = [0x30]" unfolding True by code_simp
    then show ?thesis by (simp add: lex_int_iff)
  next
    case False
    have "hd ?s \<noteq> 0x30"
    proof
      assume "hd ?s = 0x30"
      then have "unat (word_of_nat (of_char (hd (dec n))) :: byte) = unat (0x30 :: byte)"
        by (simp add: bytes_of_def hd_map)
      then have "of_char (hd (dec n)) = (of_char (CHR ''0'') :: nat)" by (simp add: unat_of_char)
      then have "hd (dec n) = CHR ''0''" by (simp only: of_char_eq_iff)
      with dec_head False show False by blast
    qed
    then show ?thesis using dec_bytes [of n] by (simp add: lex_int_iff digits_end_def)
  qed
  then show ?thesis using nominus by (simp add: number_text_def lex_num_def lex_frac_def lex_exp_def)
qed

lemma scan_digits_text:
  assumes "list_all is_digit s" "foldl (\<lambda>n c. 10 * n + digit_val c) n s \<le> lim" "9 \<le> lim" "r = [] \<or> \<not> is_dig (hd r)"
  shows "scan_digits lim n (bytes_of s @ r) = Some (foldl (\<lambda>n c. 10 * n + digit_val c) n s, r)"
  using assms
proof (induction s arbitrary: n)
  case Nil
  then show ?case by (cases r) (auto simp: bytes_of_def)
next
  case (Cons c s)
  have grow: "m \<le> foldl (\<lambda>n c. 10 * n + digit_val c) m s" for m
  proof (induction s arbitrary: m)
    case (Cons c s)
    have "m \<le> 10 * m + digit_val c" by simp
    also have "\<dots> \<le> foldl (\<lambda>n c. 10 * n + digit_val c) (10 * m + digit_val c) s" by (rule Cons)
    finally show ?case by simp
  qed simp
  let ?b = "word_of_nat (of_char c) :: byte"
  have b: "unat ?b = of_char c" by (rule unat_of_char)
  have d: "is_dig ?b" "unat ?b - 48 = digit_val c" "digit_val c \<le> 9"
    using Cons.prems(1) by (auto simp: is_digit_def is_dig_def in_range_def b digit_val_def)
  have "10 * n + digit_val c \<le> lim" using grow [of "10 * n + digit_val c"] Cons.prems(2) by simp
  then have "\<not> (lim - digit_val c) div 10 < n" using d(3) Cons.prems(3) by (simp add: not_less less_eq_div_iff_mult_less_eq)
  moreover have "n * 10 + digit_val c = 10 * n + digit_val c" by simp
  ultimately show ?case
    using Cons.IH [of "10 * n + digit_val c"] Cons.prems d by (simp add: bytes_of_def mult.commute)
qed

lemma scan_dec:
  assumes "n \<le> lim" "9 \<le> lim" "r = [] \<or> \<not> is_dig (hd r)"
  shows "scan_digits lim 0 (bytes_of (dec n) @ r) = Some (n, r)"
  using scan_digits_text [of "dec n" 0 lim r] dec_digits [of n] assms dec_val_dec [of n] by (simp add: dec_val_def)

section \<open>The end of a printed value\<close>

text \<open>Bytes inside a string that both scans pass over.\<close>

definition passes :: "bytes \<Rightarrow> bool" where
  "passes x \<longleftrightarrow> (\<forall>r n. str_end (x @ r) n = str_end r (n + length x)) \<and>
     (\<forall>r n d. nest_end (x @ r) n d True = nest_end r (n + length x) d True)"

lemma passes_append: "passes x \<Longrightarrow> passes y \<Longrightarrow> passes (x @ y)"
  by (simp add: passes_def add.assoc)

lemma passes_plain: "0x22 \<notin> set s \<Longrightarrow> 0x5C \<notin> set s \<Longrightarrow> passes s"
proof (induction s)
  case Nil
  then show ?case by (simp add: passes_def)
next
  case (Cons c s)
  have "passes [c]" using Cons.prems by (auto simp: passes_def)
  then show ?case using Cons passes_append [of "[c]" s] by simp
qed

lemma passes_escape: "passes [0x5C, b]"
  by (simp add: passes_def)

lemma passes_unicode: "0x22 \<notin> set s \<Longrightarrow> 0x5C \<notin> set s \<Longrightarrow> passes (0x5C # b # s)"
  using passes_append [OF passes_escape passes_plain, of s b] by simp

lemma passes_esc_ascii:
  assumes "unat a < 128"
  shows "passes (esc_ascii a)"
proof -
  have hex: "hex_lower d \<notin> {0x22, 0x5C}" if "d < 16" for d
  proof -
    have "unat (hex_lower d) = (if d < 10 then 48 + d else 87 + d)"
      using that by (simp add: hex_lower_def unat_of_nat del: of_nat_add)
    then have "unat (hex_lower d) \<notin> {0x22, 0x5C}" using that by auto
    then show ?thesis by auto
  qed
  have "unat a div 16 < 16" using assms by simp
  then have "passes (0x5C # 0x75 # [0x30, 0x30, hex_lower (unat a div 16), hex_lower (unat a mod 16)])"
    using hex [of "unat a div 16"] hex [of "unat a mod 16"] by (intro passes_unicode) auto
  moreover have "passes [a]" if "a \<noteq> 0x22" "a \<noteq> 0x5C" using that by (intro passes_plain) auto
  ultimately show ?thesis using passes_escape by (auto simp: esc_ascii_def)
qed

lemma passes_esc: "utf8_ok s \<Longrightarrow> passes (esc s)"
proof (induction s rule: utf8_ok.induct)
  case 1
  then show ?case by (simp add: esc.simps passes_def)
next
  case (2 a s)
  then obtain m where m: "utf8_len (a # s) = Suc m" by (cases "utf8_len (a # s)") (auto simp: utf8_ok.simps)
  then have IH: "passes (esc (drop m s))" using 2 by (simp add: utf8_ok.simps)
  show ?case
  proof (cases "unat a < 128")
    case True
    then have "m = 0" using m by simp
    then show ?thesis using True IH passes_append [OF passes_esc_ascii] by (simp add: esc.simps)
  next
    case False
    let ?seq = "a # take m s"
    have printed: "esc (a # s) = (if ?seq = [0xE2, 0x80, 0xA8]
        then bytes_of [CHR 0x5C, CHR ''u'', CHR ''2'', CHR ''0'', CHR ''2'', CHR ''8'']
        else if ?seq = [0xE2, 0x80, 0xA9]
        then bytes_of [CHR 0x5C, CHR ''u'', CHR ''2'', CHR ''0'', CHR ''2'', CHR ''9''] else ?seq) @ esc (drop m s)"
      using False m by (simp add: esc.simps del: bytes_of_simps)
    have "passes ?seq" using utf8_seq_bytes(1) [OF m False] False by (intro passes_plain) auto
    moreover have "passes (0x5C # 0x75 # [0x32, 0x30, 0x32, 0x38])" "passes (0x5C # 0x75 # [0x32, 0x30, 0x32, 0x39])"
      by (rule passes_unicode; simp)+
    ultimately show ?thesis unfolding printed by (intro passes_append [OF _ IH]) auto
  qed
qed

lemma nest_string: "utf8_ok s \<Longrightarrow> nest_end (marshal_string s @ r) n d False = nest_end r (n + length (marshal_string s)) d False"
  using passes_esc [of s] by (simp add: passes_def marshal_string_def)

text \<open>Outside strings, scalars hold no brackets and no quotes.\<close>

lemma nest_plain:
  "(\<forall>c\<in>set s. c \<notin> {0x22, 0x7B, 0x5B, 0x7D, 0x5D}) \<Longrightarrow> nest_end (s @ r) n d False = nest_end r (n + length s) d False"
  by (induction s arbitrary: n) auto

lemma number_plain: "number_text s \<Longrightarrow> c \<in> set s \<Longrightarrow> c \<notin> {0x22, 0x7B, 0x5B, 0x7D, 0x5D, 0x2C}"
  using lex_num_bytes [of s s "[]" c] by (auto simp: number_text_def is_dig_def in_range_def)

lemma nest_join:
  assumes "\<And>x r n. x \<in> set xs \<Longrightarrow> nest_end (f x @ r) n d False = nest_end r (n + length (f x)) d False"
  shows "nest_end (join 0x2C (map f xs) @ r) n d False = nest_end r (n + length (join 0x2C (map f xs))) d False"
  using assms
proof (induction xs arbitrary: n rule: induct_list012)
  case (3 x y zs)
  have "nest_end (join 0x2C (map f (x # y # zs)) @ r) n d False =
      nest_end (0x2C # join 0x2C (map f (y # zs)) @ r) (n + length (f x)) d False"
    using 3(3) [of x] by simp
  also have "\<dots> = nest_end (join 0x2C (map f (y # zs)) @ r) (n + length (f x) + 1) d False" by simp
  also have "\<dots> = nest_end r (n + length (f x) + 1 + length (join 0x2C (map f (y # zs)))) d False"
    using 3(3) by (intro 3(2)) auto
  finally show ?case by (simp add: add.assoc)
qed simp_all

lemma nest_show:
  "jwf v \<Longrightarrow> 1 \<le> d \<Longrightarrow> nest_end (show_json v @ r) n d False = nest_end r (n + length (show_json v)) d False"
proof (induction v arbitrary: r n d rule: show_json.induct)
  case (5 vs)
  have "nest_end (join 0x2C (map show_json vs) @ 0x5D # r) (n + 1) (d + 1) False =
      nest_end (0x5D # r) (n + 1 + length (join 0x2C (map show_json vs))) (d + 1) False"
    using 5 by (intro nest_join) (auto simp: list_all_iff)
  then show ?case using 5(3) by simp
next
  case (6 kvs)
  have "nest_end (join 0x2C (map (\<lambda>(k, v). marshal_string k @ 0x3A # show_json v) kvs) @ 0x7D # r) (n + 1) (d + 1) False =
      nest_end (0x7D # r) (n + 1 + length (join 0x2C (map (\<lambda>(k, v). marshal_string k @ 0x3A # show_json v) kvs))) (d + 1) False"
  proof (rule nest_join)
    fix x and r' :: bytes and n assume x: "x \<in> set kvs"
    obtain k v where kv: "x = (k, v)" by force
    then have wf: "utf8_ok k" "jwf v" using 6(2) x by (auto simp: list_all_iff)
    have "nest_end (show_json v @ r') n (d + 1) False = nest_end r' (n + length (show_json v)) (d + 1) False" for n
      by (rule 6(1) [OF x kv [symmetric] wf(2)]) (use 6(3) in simp)
    then show "nest_end ((case x of (k, v) \<Rightarrow> marshal_string k @ 0x3A # show_json v) @ r') n (d + 1) False =
        nest_end r' (n + length (case x of (k, v) \<Rightarrow> marshal_string k @ 0x3A # show_json v)) (d + 1) False"
      by (simp add: kv nest_string [OF wf(1)] add.assoc)
  qed
  then show ?case using 6(3) by (simp add: add.assoc)
next
  case (3 s)
  then show ?case using number_plain [of s] by (simp add: nest_plain)
qed (simp_all add: nest_string)

lemma nest_pairs:
  assumes "list_all (\<lambda>(k, v). utf8_ok k \<and> jwf v) kvs" "1 \<le> d"
  shows "nest_end (join 0x2C (map (\<lambda>(k, v). marshal_string k @ 0x3A # show_json v) kvs) @ r) n d False =
    nest_end r (n + length (join 0x2C (map (\<lambda>(k, v). marshal_string k @ 0x3A # show_json v) kvs))) d False"
proof (rule nest_join)
  fix x and r' :: bytes and n assume x: "x \<in> set kvs"
  obtain k v where kv: "x = (k, v)" by force
  then have wf: "utf8_ok k" "jwf v" using assms(1) x by (auto simp: list_all_iff)
  show "nest_end ((case x of (k, v) \<Rightarrow> marshal_string k @ 0x3A # show_json v) @ r') n d False =
      nest_end r' (n + length (case x of (k, v) \<Rightarrow> marshal_string k @ 0x3A # show_json v)) d False"
    by (simp add: kv nest_string [OF wf(1)] nest_show [OF wf(2) assms(2)] add.assoc)
qed

lemma scalar_end_plain:
  "(\<forall>c\<in>set s. c \<noteq> 0x2C \<and> c \<noteq> 0x7D) \<Longrightarrow> scalar_end (s @ r) n = scalar_end r (n + length s)"
  by (induction s arbitrary: n) auto

lemma jsonValueEnd_show:
  assumes "jwf v" "r \<noteq> []" "hd r = 0x2C \<or> hd r = 0x7D"
  shows "jsonValueEnd (show_json v @ r) = Some (length (show_json v))"
proof -
  obtain c r' where r: "r = c # r'" "c = 0x2C \<or> c = 0x7D" using assms(2,3) by (cases r) auto
  show ?thesis
  proof (cases v)
    case (JNum s)
    then have "number_text s" using assms(1) by simp
    then obtain a b where s: "s = a # b" "a = 0x2D \<or> is_dig a" using number_text_start by blast
    have "scalar_end (s @ r) 0 = Some (length s)"
      using scalar_end_plain [of s r 0] number_plain [of s] assms(1) JNum r s by auto
    moreover have "a \<noteq> 0x22" "a \<noteq> 0x7B" "a \<noteq> 0x5B" using s(2) by (auto simp: is_dig_def in_range_def)
    ultimately show ?thesis using s by (simp add: JNum jsonValueEnd_def)
  next
    case (JStr s)
    then show ?thesis using passes_esc [of s] assms(1)
      by (simp add: jsonValueEnd_def marshal_string_def passes_def)
  next
    case (JArr vs)
    have "nest_end (join 0x2C (map show_json vs) @ 0x5D # r) 1 1 False =
        nest_end (0x5D # r) (1 + length (join 0x2C (map show_json vs))) 1 False"
      using assms(1) JArr by (intro nest_join nest_show) (auto simp: list_all_iff)
    then show ?thesis by (simp add: JArr jsonValueEnd_def)
  next
    case (JObj kvs)
    have "nest_end (join 0x2C (map (\<lambda>(k, v). marshal_string k @ 0x3A # show_json v) kvs) @ 0x7D # r) 1 1 False =
        nest_end (0x7D # r) (1 + length (join 0x2C (map (\<lambda>(k, v). marshal_string k @ 0x3A # show_json v) kvs))) 1 False"
      using assms(1) JObj by (intro nest_pairs) auto
    then show ?thesis by (simp add: JObj jsonValueEnd_def)
  qed (use r in \<open>auto simp: jsonValueEnd_def\<close>)
qed

section \<open>Frames as printed objects\<close>

text \<open>
  The fields of a frame whose payload is an embedded value or opaque bytes, and whose meta is
  absent or an embedded value.
\<close>

definition frame_kvs :: "nat \<Rightarrow> json + bytes \<Rightarrow> int \<Rightarrow> json option \<Rightarrow> (bytes \<times> nat) list \<Rightarrow> (bytes \<times> json) list" where
  "frame_kvs m body ts xo cs =
     (bytes_of ''m'', JNum (bytes_of (dec m))) #
     (case body of Inl v \<Rightarrow> (bytes_of ''p'', v) | Inr b \<Rightarrow> (bytes_of ''p64'', JStr (b64_encode b))) #
     (if ts = 0 then [] else [(bytes_of ''t'', JNum (bytes_of (Itoa ts)))]) @
     (case xo of None \<Rightarrow> [] | Some x \<Rightarrow> [(bytes_of ''x'', x)]) @
     (if cs = [] then [] else [(bytes_of ''c'', JObj (map (\<lambda>(k, n). (k, JNum (bytes_of (dec n)))) (sort_key fst cs)))])"

text \<open>What a frame is made of is well formed and fits its types.\<close>

definition frame_ok_parts :: "nat \<Rightarrow> json + bytes \<Rightarrow> int \<Rightarrow> json option \<Rightarrow> (bytes \<times> nat) list \<Rightarrow> bool" where
  "frame_ok_parts m body ts xo cs \<longleftrightarrow> m < u64_lim \<and> 0 \<le> ts \<and> ts \<le> i64_max \<and>
     (case body of Inl v \<Rightarrow> jwf v \<and> jdepth v < maxNestingDepth | Inr _ \<Rightarrow> True) \<and>
     (case xo of Some x \<Rightarrow> jwf x \<and> jdepth x < maxNestingDepth | None \<Rightarrow> True) \<and>
     distinct (map fst cs) \<and> list_all (\<lambda>(k, n). utf8_ok k \<and> n < u64_lim) cs"

text \<open>The bytes a caller hands over stand for these parts.\<close>

definition frame_args :: "bytes \<Rightarrow> bytes \<Rightarrow> bool \<Rightarrow> json + bytes \<Rightarrow> json option \<Rightarrow> bool" where
  "frame_args payload meta opaque body xo \<longleftrightarrow>
     (case body of
        Inl v \<Rightarrow> \<not> opaque \<and> (if payload = [] then v = JNull else embedJSON payload = show_json v)
      | Inr b \<Rightarrow> opaque \<and> b = payload) \<and>
     (case xo of None \<Rightarrow> meta = [] | Some x \<Rightarrow> meta \<noteq> [] \<and> embedJSON meta = show_json x)"

lemma marshal_keys:
  "marshal_string (bytes_of ''m'') = [0x22, 0x6D, 0x22]" "marshal_string (bytes_of ''p'') = [0x22, 0x70, 0x22]"
  "marshal_string (bytes_of ''p64'') = [0x22, 0x70, 0x36, 0x34, 0x22]" "marshal_string (bytes_of ''t'') = [0x22, 0x74, 0x22]"
  "marshal_string (bytes_of ''x'') = [0x22, 0x78, 0x22]" "marshal_string (bytes_of ''c'') = [0x22, 0x63, 0x22]"
  by (simp_all add: marshal_string_def esc.simps esc_ascii_def)

lemma utf8_keys:
  "utf8_ok (bytes_of ''m'')" "utf8_ok (bytes_of ''p'')" "utf8_ok (bytes_of ''p64'')" "utf8_ok (bytes_of ''t'')"
  "utf8_ok (bytes_of ''x'')" "utf8_ok (bytes_of ''c'')"
  by (simp_all add: utf8_ok.simps)

lemma show_json_nonempty: "jwf v \<Longrightarrow> show_json v \<noteq> []"
  using show_json_start [of v] by auto

lemma compact_show_all: "jwf v \<Longrightarrow> compact False (show_json v) = show_json v"
  using compact_show [of v "[]"] by simp

lemma embedJSON_nonempty: "b \<noteq> [] \<Longrightarrow> embedJSON b \<noteq> []"
  by (simp add: embedJSON_def marshal_string_def)

lemma frame_jwf:
  assumes "frame_ok_parts m body ts xo cs"
  shows "jvalid (JObj (frame_kvs m body ts xo cs))"
proof -
  have num: "number_text (bytes_of (Itoa ts))" using assms number_text_dec by (simp add: Itoa_def frame_ok_parts_def)
  let ?c = "JObj (map (\<lambda>(k, n). (k, JNum (bytes_of (dec n)))) (sort_key fst cs))"
  have "distinct (map fst (sort_key fst cs))" using assms by (simp add: frame_ok_parts_def distinct_map)
  moreover have "fst \<circ> (\<lambda>(k :: bytes, n). (k, JNum (bytes_of (dec n)))) = fst" by auto
  ultimately have c: "jwf ?c" using assms number_text_dec by (auto simp: frame_ok_parts_def list_all_iff)
  have cd: "jdepth ?c = 1" by (auto simp: fold_max comp_def case_prod_unfold image_constant_conv)
  have two: "(2 :: nat) \<le> maxNestingDepth" by (simp add: maxNestingDepth_def)
  have dist: "distinct (map fst (frame_kvs m body ts xo cs))"
    by (cases body; cases xo) (simp_all add: frame_kvs_def)
  have "utf8_ok k \<and> jwf v \<and> Suc (jdepth v) \<le> maxNestingDepth" if "(k, v) \<in> set (frame_kvs m body ts xo cs)" for k v
  proof -
    have "v = ?c \<Longrightarrow> ?thesis" if "k = bytes_of ''c''" using c cd two utf8_keys that by simp
    moreover have "?thesis" if "v = JNum (bytes_of (dec m)) \<or> v = JNum (bytes_of (Itoa ts))" "utf8_ok k"
      using that num two number_text_dec by auto
    ultimately show ?thesis
      using that assms two utf8_keys b64_marshal(2)
      by (cases body; cases xo) (auto simp: frame_kvs_def frame_ok_parts_def split: if_splits
          simp del: jwf.simps(6) bytes_of_simps)
  qed
  then have all: "\<forall>(k, v)\<in>set (frame_kvs m body ts xo cs). utf8_ok k \<and> jwf v \<and> Suc (jdepth v) \<le> maxNestingDepth" by blast
  then have "fold max (map (jdepth \<circ> snd) (frame_kvs m body ts xo cs)) 0 \<le> maxNestingDepth - 1"
    by (fastforce simp: fold_max_le)
  then have "jdepth (JObj (frame_kvs m body ts xo cs)) \<le> maxNestingDepth" using two by simp
  moreover have "list_all (\<lambda>(k, v). utf8_ok k \<and> jwf v) (frame_kvs m body ts xo cs)" using all by (auto simp: list_all_iff)
  ultimately show ?thesis using dist by (simp add: jvalid_def)
qed

lemma encode_show:
  assumes "frame_ok_parts m body ts xo cs" "frame_args payload meta opaque body xo"
  shows "encodeStampedFrame m payload meta opaque cs ts = show_json (JObj (frame_kvs m body ts xo cs))"
proof -
  define P where "P = (if opaque then [] else if embedJSON payload = [] then bytes_of ''null'' else embedJSON payload)"
  define P64 where "P64 = (if opaque then Some (b64_encode payload) else None)"
  have enc: "encodeStampedFrame m payload meta opaque cs ts =
      marshal_frame \<lparr>fo_M = m, fo_P = P, fo_P64 = P64, fo_T = ts, fo_X = embedJSON meta, fo_C = cs\<rparr>"
    by (simp add: encodeStampedFrame_def P_def P64_def Let_def del: bytes_of_simps)
  have body: "(if P = [] then [] else [(bytes_of ''p'', compact False P)]) @
      (case P64 of None \<Rightarrow> [] | Some s \<Rightarrow> [(bytes_of ''p64'', marshal_string s)]) =
      [case body of Inl v \<Rightarrow> (bytes_of ''p'', show_json v) | Inr b \<Rightarrow> (bytes_of ''p64'', show_json (JStr (b64_encode b)))]"
  proof (cases body)
    case (Inl v)
    then have v: "jwf v" "\<not> opaque" "if payload = [] then v = JNull else embedJSON payload = show_json v"
      using assms by (simp_all add: frame_ok_parts_def frame_args_def)
    have "P = show_json v"
    proof (cases "payload = []")
      case True
      then show ?thesis using v by (simp add: P_def embedJSON_def)
    next
      case False
      then show ?thesis using v embedJSON_nonempty [of payload] by (simp add: P_def)
    qed
    then show ?thesis using v Inl show_json_nonempty compact_show_all by (simp add: P64_def del: bytes_of_simps)
  next
    case (Inr b)
    then show ?thesis using assms by (simp add: frame_args_def P_def P64_def del: bytes_of_simps)
  qed
  have meta: "(if embedJSON meta = [] then [] else [(bytes_of ''x'', compact False (embedJSON meta))]) =
      map (\<lambda>(k, v). (k, show_json v)) (case xo of None \<Rightarrow> [] | Some x \<Rightarrow> [(bytes_of ''x'', x)])"
  proof (cases xo)
    case None
    then show ?thesis using assms by (simp add: frame_args_def embedJSON_def)
  next
    case (Some x)
    then show ?thesis using assms show_json_nonempty [of x] compact_show_all [of x]
      by (simp add: frame_args_def frame_ok_parts_def del: bytes_of_simps)
  qed
  have "frame_fields \<lparr>fo_M = m, fo_P = P, fo_P64 = P64, fo_T = ts, fo_X = embedJSON meta, fo_C = cs\<rparr> =
      map (\<lambda>(k, v). (k, show_json v)) (frame_kvs m body ts xo cs)"
  proof -
    have "map (\<lambda>(k, n). marshal_string k @ 0x3A # bytes_of (dec n)) xs =
        map (\<lambda>(k, v). marshal_string k @ 0x3A # show_json v) (map (\<lambda>(k, n). (k, JNum (bytes_of (dec n)))) xs)" for xs
      by auto
    then have c: "0x7B # join 0x2C (map (\<lambda>(k, n). marshal_string k @ 0x3A # bytes_of (dec n)) (sort_key fst cs)) @ [0x7D] =
        show_json (JObj (map (\<lambda>(k, n). (k, JNum (bytes_of (dec n)))) (sort_key fst cs)))"
      by (simp only: show_json.simps append.simps)
    have "frame_fields \<lparr>fo_M = m, fo_P = P, fo_P64 = P64, fo_T = ts, fo_X = embedJSON meta, fo_C = cs\<rparr> =
        [(bytes_of ''m'', bytes_of (dec m))] @
        ((if P = [] then [] else [(bytes_of ''p'', compact False P)]) @
         (case P64 of None \<Rightarrow> [] | Some s \<Rightarrow> [(bytes_of ''p64'', marshal_string s)])) @
        (if ts = 0 then [] else [(bytes_of ''t'', bytes_of (Itoa ts))]) @
        (if embedJSON meta = [] then [] else [(bytes_of ''x'', compact False (embedJSON meta))]) @
        (if cs = [] then [] else [(bytes_of ''c'', show_json (JObj (map (\<lambda>(k, n). (k, JNum (bytes_of (dec n)))) (sort_key fst cs))))])"
      by (simp only: frame_fields_def frameObj.simps append_assoc c)
    also have "\<dots> = map (\<lambda>(k, v). (k, show_json v)) (frame_kvs m body ts xo cs)"
      unfolding body meta by (cases body) (simp_all add: frame_kvs_def del: bytes_of_simps)
    finally show ?thesis .
  qed
  then show ?thesis
    by (simp add: enc marshal_frame_def comp_def case_prod_unfold)
qed

section \<open>Decoding a printed frame by the library\<close>

lemma dec_not_null: "bytes_of (dec n) \<noteq> bytes_of ''null''"
proof
  assume "bytes_of (dec n) = bytes_of ''null''"
  then have "list_all is_dig (bytes_of ''null'')" using dec_bytes [of n] by metis
  then show False by (simp add: is_dig_def in_range_def)
qed

lemma read_uint_dec: "n < u64_lim \<Longrightarrow> read_uint old (bytes_of (dec n)) = Inr n"
  by (simp only: read_uint_def dec_not_null if_False text_of_bytes_of ParseUint_dec)

lemma read_int_dec: "0 \<le> i \<Longrightarrow> i \<le> i64_max \<Longrightarrow> read_int old (bytes_of (Itoa i)) = Inr i"
  using Atoi_dec [of "nat i"] dec_not_null [of "nat i"] by (simp add: read_int_def Itoa_def del: bytes_of_simps)

lemma read_string_b64: "read_string (marshal_string (b64_encode b)) = Inr (Some (b64_encode b))"
proof -
  have "lex_str (esc (b64_encode b) @ [0x22]) = Some (b64_encode b, [])" by (rule lex_str_esc [OF b64_marshal(2)])
  then show ?thesis by (simp add: read_string_def marshal_string_def)
qed

lemma read_entries_fresh:
  assumes "distinct (map fst (acc @ xs))" "list_all (\<lambda>(k, n). n < u64_lim) xs"
  shows "read_entries acc (map (\<lambda>(k, n). (k, bytes_of (dec n))) xs) = Inr (acc @ xs)"
  using assms
proof (induction xs arbitrary: acc)
  case (Cons x xs)
  obtain k n where x: "x = (k, n)" by force
  have "k \<notin> fst ` set acc" using Cons.prems(1) x by force
  moreover have "n < u64_lim" using Cons.prems(2) x by simp
  ultimately show ?case
    using Cons.IH [of "acc @ [(k, n)]"] Cons.prems by (simp add: x update_fresh read_uint_dec)
qed simp

lemma read_map_cursors:
  assumes "distinct (map fst cs)" "list_all (\<lambda>(k, n). utf8_ok k \<and> n < u64_lim) cs"
  shows "read_map [] (show_json (JObj (map (\<lambda>(k, n). (k, JNum (bytes_of (dec n)))) cs))) = Inr cs"
proof -
  let ?kvs = "map (\<lambda>(k, n). (k, JNum (bytes_of (dec n)))) cs"
  have "fst \<circ> (\<lambda>(k :: bytes, n). (k, JNum (bytes_of (dec n)))) = fst" by auto
  then have "jwf (JObj ?kvs)" using assms number_text_dec by (auto simp: list_all_iff)
  then have "object_fields (show_json (JObj ?kvs)) = Some (map (\<lambda>(k, v). (k, show_json v)) ?kvs)" by (rule object_fields_show)
  moreover have "map (\<lambda>(k, v). (k, show_json v)) ?kvs = map (\<lambda>(k, n). (k, bytes_of (dec n))) cs" by auto
  moreover have "read_entries [] (map (\<lambda>(k, n). (k, bytes_of (dec n))) cs) = Inr ([] @ cs)"
    using assms by (intro read_entries_fresh) (auto simp: list_all_iff)
  moreover have "show_json (JObj ?kvs) \<noteq> bytes_of ''null''" by simp
  ultimately show ?thesis by (simp only: read_map_def if_False option.case append_Nil)
qed

lemma set_field_keys:
  "set_field (bytes_of ''m'', raw) fo = rbind (read_uint (fo_M fo) raw) (\<lambda>n. Inr (fo\<lparr>fo_M := n\<rparr>))"
  "set_field (bytes_of ''p'', raw) fo = Inr (fo\<lparr>fo_P := raw\<rparr>)"
  "set_field (bytes_of ''p64'', raw) fo = rbind (read_string raw) (\<lambda>s. Inr (fo\<lparr>fo_P64 := s\<rparr>))"
  "set_field (bytes_of ''t'', raw) fo = rbind (read_int (fo_T fo) raw) (\<lambda>n. Inr (fo\<lparr>fo_T := n\<rparr>))"
  "set_field (bytes_of ''x'', raw) fo = Inr (fo\<lparr>fo_X := raw\<rparr>)"
  "set_field (bytes_of ''c'', raw) fo = rbind (read_map (fo_C fo) raw) (\<lambda>m. Inr (fo\<lparr>fo_C := m\<rparr>))"
  by (simp_all add: set_field_def names_field_def in_range_def)

text \<open>The frame a decoder sees.\<close>

definition frame_seen :: "nat \<Rightarrow> json + bytes \<Rightarrow> int \<Rightarrow> json option \<Rightarrow> (bytes \<times> nat) list \<Rightarrow> frameObj" where
  "frame_seen m body ts xo cs =
     \<lparr>fo_M = m, fo_P = (case body of Inl v \<Rightarrow> show_json v | Inr _ \<Rightarrow> []),
      fo_P64 = (case body of Inl _ \<Rightarrow> None | Inr b \<Rightarrow> Some (b64_encode b)), fo_T = ts,
      fo_X = (case xo of None \<Rightarrow> [] | Some x \<Rightarrow> show_json x), fo_C = sort_key fst cs\<rparr>"

lemma unmarshal_frame_show:
  assumes "frame_ok_parts m body ts xo cs"
  shows "unmarshal_frame (show_json (JObj (frame_kvs m body ts xo cs))) = Inr (frame_seen m body ts xo cs)"
proof -
  have v: "jvalid (JObj (frame_kvs m body ts xo cs))" by (rule frame_jwf [OF assms])
  then have fields: "object_fields (show_json (JObj (frame_kvs m body ts xo cs))) =
      Some (map (\<lambda>(k, v). (k, show_json v)) (frame_kvs m body ts xo cs))"
    by (intro object_fields_show) (simp add: jvalid_def)
  have m: "read_uint 0 (bytes_of (dec m)) = Inr m" and t: "read_int 0 (bytes_of (Itoa ts)) = Inr ts"
    using assms by (simp_all add: frame_ok_parts_def read_uint_dec read_int_dec)
  have c: "read_map [] (show_json (JObj (map (\<lambda>(k, n). (k, JNum (bytes_of (dec n)))) (sort_key fst cs)))) = Inr (sort_key fst cs)"
    using assms by (intro read_map_cursors) (auto simp: frame_ok_parts_def distinct_map list_all_iff)
  have "set_fields (map (\<lambda>(k, v). (k, show_json v)) (frame_kvs m body ts xo cs)) no_frame = Inr (frame_seen m body ts xo cs)"
    by (cases body; cases xo)
      (simp_all add: frame_kvs_def frame_seen_def set_field_keys m t c read_string_b64 del: bytes_of_simps show_json.simps(6))
  then show ?thesis using json_Valid_show [OF v] by (simp add: unmarshal_frame_def fields del: show_json.simps)
qed

section \<open>Decoding a printed frame by hand\<close>

text \<open>The parts of the text after the main index.\<close>

definition body_text :: "json + bytes \<Rightarrow> bytes" where
  "body_text body = (case body of
     Inl v \<Rightarrow> pPrefix @ show_json v | Inr b \<Rightarrow> p64Prefix @ marshal_string (b64_encode b))"

definition meta_text :: "json option \<Rightarrow> (bytes \<times> nat) list \<Rightarrow> bytes" where
  "meta_text xo cs =
     (case xo of None \<Rightarrow> [] | Some x \<Rightarrow> metaPrefix @ show_json x) @
     (if cs = [] then [] else [0x2C, 0x22, 0x63, 0x22, 0x3A] @
        show_json (JObj (map (\<lambda>(k, n). (k, JNum (bytes_of (dec n)))) (sort_key fst cs)))) @ [0x7D]"

definition rest_text :: "int \<Rightarrow> json option \<Rightarrow> (bytes \<times> nat) list \<Rightarrow> bytes" where
  "rest_text ts xo cs = (if ts = 0 then [] else tsPrefix @ bytes_of (Itoa ts)) @ meta_text xo cs"

lemma join_concat: "join c (x # xs) = x @ concat (map (\<lambda>y. c # y) xs)"
  by (induction xs arbitrary: x) simp_all

lemma prefix_texts:
  "mPrefix = [0x7B, 0x22, 0x6D, 0x22, 0x3A]" "pPrefix = [0x2C, 0x22, 0x70, 0x22, 0x3A]"
  "p64Prefix = [0x2C, 0x22, 0x70, 0x36, 0x34, 0x22, 0x3A]" "tsPrefix = [0x2C, 0x22, 0x74, 0x22, 0x3A]"
  "metaPrefix = [0x2C, 0x22, 0x78, 0x22, 0x3A]"
  by (simp_all add: mPrefix_def pPrefix_def p64Prefix_def tsPrefix_def metaPrefix_def)

lemma frame_text:
  "show_json (JObj (frame_kvs m body ts xo cs)) = mPrefix @ bytes_of (dec m) @ body_text body @ rest_text ts xo cs"
proof -
  let ?f = "\<lambda>(k, v). marshal_string k @ 0x3A # show_json v"
  obtain kvs where kvs: "frame_kvs m body ts xo cs = (bytes_of ''m'', JNum (bytes_of (dec m))) # kvs"
    by (simp add: frame_kvs_def)
  have "concat (map (\<lambda>y. 0x2C # y) (map ?f kvs)) @ [0x7D] = body_text body @ rest_text ts xo cs"
    using kvs
    by (cases body; cases xo)
      (auto simp: frame_kvs_def body_text_def rest_text_def meta_text_def prefix_texts marshal_keys
        simp del: show_json.simps(6) bytes_of_simps)
  then show ?thesis
    by (simp add: kvs join_concat marshal_keys prefix_texts del: bytes_of_simps)
qed

lemma rest_start:
  "meta_text xo cs \<noteq> []" "hd (meta_text xo cs) = 0x2C \<or> hd (meta_text xo cs) = 0x7D"
  "rest_text ts xo cs \<noteq> []" "hd (rest_text ts xo cs) = 0x2C \<or> hd (rest_text ts xo cs) = 0x7D"
  by (auto simp: rest_text_def meta_text_def prefix_texts split: option.split)

lemma fast_head_frame:
  assumes "frame_ok_parts m body ts xo cs"
  shows "fast_head (mPrefix @ bytes_of (dec m) @ body_text body @ rest_text ts xo cs) = Some (m, body_text body @ rest_text ts xo cs)"
proof -
  let ?r = "body_text body @ rest_text ts xo cs"
  have "json_Valid (mPrefix @ bytes_of (dec m) @ ?r)"
    using json_Valid_show [OF frame_jwf [OF assms]] by (simp only: frame_text)
  moreover have "?r \<noteq> []" "hd ?r = 0x2C"
    by (auto simp: body_text_def prefix_texts split: sum.split)
  then have "scan_digits u64_max 0 (bytes_of (dec m) @ ?r) = Some (m, ?r)"
    using assms by (intro scan_dec) (auto simp: frame_ok_parts_def is_dig_def in_range_def)
  moreover have "0 < length (bytes_of (dec m))" using dec_bytes(2) [of m] by (metis length_greater_0_conv)
  ultimately show ?thesis using dec_bytes(2) [of m] by (simp add: fast_head_def)
qed

lemma fast_payload_frame:
  assumes "case body of Inl v \<Rightarrow> jwf v | Inr _ \<Rightarrow> True" "r \<noteq> []" "hd r = 0x2C \<or> hd r = 0x7D"
  shows "fast_payload (body_text body @ r) = Some (case body of Inl v \<Rightarrow> show_json v | Inr b \<Rightarrow> b, r)"
proof (cases body)
  case (Inl v)
  then show ?thesis
    using assms jsonValueEnd_show [of v r] by (simp add: body_text_def fast_payload_def Let_def prefix_texts)
next
  case (Inr b)
  have "jsonValueEnd (marshal_string (b64_encode b) @ r) = Some (length (marshal_string (b64_encode b)))"
    using jsonValueEnd_show [of "JStr (b64_encode b)" r] assms b64_marshal(2) by simp
  then show ?thesis
    using Inr b64_roundtrip by (simp add: body_text_def fast_payload_def Let_def prefix_texts b64_marshal(1))
qed

lemma fast_ts_frame:
  assumes "0 \<le> ts" "ts \<le> i64_max"
  shows "fast_ts (rest_text ts xo cs) = Some (ts, meta_text xo cs)"
proof (cases "ts = 0")
  case True
  have "\<not> prefix tsPrefix (meta_text xo cs)" by (auto simp: meta_text_def prefix_texts split: option.split)
  then show ?thesis using True by (simp add: fast_ts_def rest_text_def)
next
  case False
  let ?d = "bytes_of (dec (nat ts))"
  have "scan_digits (2 ^ 63 - 1) 0 (?d @ meta_text xo cs) = Some (nat ts, meta_text xo cs)"
    using assms rest_start(1,2) [of xo cs]
    by (intro scan_dec) (auto simp: is_dig_def in_range_def)
  moreover have "rest_text ts xo cs = tsPrefix @ ?d @ meta_text xo cs"
    using False assms by (simp add: rest_text_def Itoa_def)
  ultimately show ?thesis using assms dec_bytes(2) [of "nat ts"] by (simp add: fast_ts_def)
qed

lemma fastDecodeFrame_text:
  assumes "frame_ok_parts m body ts xo cs"
  shows "fastDecodeFrame (mPrefix @ bytes_of (dec m) @ body_text body @ rest_text ts xo cs) =
    (if cs = [] then Some (m, case body of Inl v \<Rightarrow> show_json v | Inr b \<Rightarrow> b,
        case xo of None \<Rightarrow> [] | Some x \<Rightarrow> show_json x, ts) else None)"
proof -
  have p: "fast_payload (body_text body @ rest_text ts xo cs) =
      Some (case body of Inl v \<Rightarrow> show_json v | Inr b \<Rightarrow> b, rest_text ts xo cs)"
    using assms rest_start(3,4) [of ts xo cs]
    by (intro fast_payload_frame) (auto simp: frame_ok_parts_def split: sum.splits)
  have t: "fast_ts (rest_text ts xo cs) = Some (ts, meta_text xo cs)"
    using assms by (intro fast_ts_frame) (auto simp: frame_ok_parts_def)
  have r: "meta_text xo cs \<noteq> rest_text ts xo cs \<longleftrightarrow> ts \<noteq> 0" by (simp add: rest_text_def prefix_texts)
  have one: "rest_text ts xo cs = [0x7D] \<longleftrightarrow> ts = 0 \<and> meta_text xo cs = [0x7D]"
    by (auto simp: rest_text_def prefix_texts)
  have m: "meta_text xo cs = [0x7D] \<longleftrightarrow> xo = None \<and> cs = []"
    by (auto simp: meta_text_def prefix_texts split: option.split)
  let ?P = "case body of Inl v \<Rightarrow> show_json v | Inr b \<Rightarrow> b"
  have "fastDecodeFrame (mPrefix @ bytes_of (dec m) @ body_text body @ rest_text ts xo cs) =
      (if rest_text ts xo cs = [0x7D] then Some (m, ?P, [], 0)
       else if meta_text xo cs \<noteq> rest_text ts xo cs \<and> meta_text xo cs = [0x7D] then Some (m, ?P, [], ts)
       else if length (meta_text xo cs) \<le> length metaPrefix \<or> \<not> prefix metaPrefix (meta_text xo cs) then None
       else (let v = drop (length metaPrefix) (meta_text xo cs) in
         case jsonValueEnd v of
           None \<Rightarrow> None
         | Some n \<Rightarrow> if drop n v = [0x7D] then Some (m, ?P, take n v, ts) else None))"
    by (simp only: fastDecodeFrame_def fast_head_frame [OF assms] p t option.case prod.case)
  note eq = this [unfolded r one m]
  show ?thesis
  proof (cases xo)
    case None
    then have "length (meta_text xo cs) \<le> length metaPrefix \<or> \<not> prefix metaPrefix (meta_text xo cs)"
      by (auto simp: meta_text_def prefix_texts)
    then show ?thesis unfolding eq using None by auto
  next
    case (Some x)
    define rest where "rest = drop (length metaPrefix + length (show_json x)) (meta_text xo cs)"
    have rest: "meta_text xo cs = metaPrefix @ show_json x @ rest" "rest \<noteq> []" "hd rest = 0x2C \<or> hd rest = 0x7D"
      "rest = [0x7D] \<longleftrightarrow> cs = []"
      by (auto simp: rest_def meta_text_def Some)
    have "jwf x" using assms Some by (simp add: frame_ok_parts_def)
    then have "jsonValueEnd (show_json x @ rest) = Some (length (show_json x))" using rest by (intro jsonValueEnd_show)
    then show ?thesis unfolding eq using Some rest(1,2,4) by (simp add: Let_def)
  qed
qed

section \<open>The round trip\<close>

lemma encode_text:
  assumes "frame_ok_parts m body ts xo cs" "frame_args payload meta opaque body xo"
  shows "encodeStampedFrame m payload meta opaque cs ts = mPrefix @ bytes_of (dec m) @ body_text body @ rest_text ts xo cs"
  by (simp only: encode_show [OF assms] frame_text)

lemma decodeMainLT_encoded:
  assumes "frame_ok_parts m body ts xo cs" "frame_args payload meta opaque body xo"
  shows "decodeMainLT (encodeStampedFrame m payload meta opaque cs ts) = Inr m"
proof -
  have "hd (body_text body @ rest_text ts xo cs) = 0x2C" "body_text body @ rest_text ts xo cs \<noteq> []"
    by (auto simp: body_text_def prefix_texts split: sum.split)
  then show ?thesis
    by (simp only: encode_text [OF assms] decodeMainLT_def fastDecodeMainLT_def fast_head_frame [OF assms(1)] option.case prod.case) simp
qed

text \<open>The payload a reader gets.\<close>

definition body_seen :: "json + bytes \<Rightarrow> bytes" where
  "body_seen body = (case body of Inl v \<Rightarrow> show_json v | Inr b \<Rightarrow> b)"

lemma slow_decode:
  assumes "frame_ok_parts m body ts xo cs" "frame_args payload meta opaque body xo"
  shows "unmarshal_frame (encodeStampedFrame m payload meta opaque cs ts) = Inr (frame_seen m body ts xo cs)"
    "frame_payload (frame_seen m body ts xo cs) = Inr (body_seen body)"
    "fo_X (frame_seen m body ts xo cs) = embedJSON meta"
proof -
  show "unmarshal_frame (encodeStampedFrame m payload meta opaque cs ts) = Inr (frame_seen m body ts xo cs)"
    using unmarshal_frame_show [OF assms(1)] by (simp only: encode_show [OF assms])
  show "frame_payload (frame_seen m body ts xo cs) = Inr (body_seen body)"
    by (cases body) (simp_all add: frame_payload_def frame_seen_def b64_roundtrip body_seen_def)
  show "fo_X (frame_seen m body ts xo cs) = embedJSON meta"
    using assms(2) by (cases xo) (auto simp: frame_args_def embedJSON_def frame_seen_def)
qed

lemma fast_decode:
  assumes "frame_ok_parts m body ts xo cs" "frame_args payload meta opaque body xo"
  shows "fastDecodeFrame (encodeStampedFrame m payload meta opaque cs ts) =
    (if cs = [] then Some (m, body_seen body, embedJSON meta, ts) else None)"
  using fastDecodeFrame_text [OF assms(1)] slow_decode(3) [OF assms]
  by (simp add: encode_text [OF assms] body_seen_def frame_seen_def)

lemma decodeRecordFrom_encoded:
  assumes "frame_ok_parts m body ts xo cs" "frame_args payload meta opaque body xo"
  shows "decodeRecordFrom lt (encodeStampedFrame m payload meta opaque cs ts) isMain =
    Inr \<lparr>rc_ChannelLT = lt, rc_MainLT = m, rc_Payload = body_seen body, rc_Meta = embedJSON meta, rc_TS = ts,
      rc_Cursors = sort_key fst cs\<rparr>"
  unfolding decodeRecordFrom_def fast_decode [OF assms] slow_decode(1) [OF assms]
  using slow_decode(2,3) [OF assms] by (cases isMain) (auto simp: frame_seen_def)



end
