(* ===== verification/Channels.thy ===== *)
theory Channels
  imports Buffered_Sync Frames
begin

text \<open>
  The channels of an opened \<^verbatim>\<open>xwal\<close> branch (\<^verbatim>\<open>xwal/xwal.go\<close>): a main timeline and related channels, each a
  buffered log of record frames. Related records name the main record they belong to, and a lazily built
  index finds the record for a main index; unkeyed channels name none, and main records note where they
  stood. A coherent sync persists the main channel first and related records only up to it.
\<close>

section \<open>State\<close>

datatype chan_kind = ChannelLog | ChannelReducible

type_synonym reduce_fn = "bytes \<Rightarrow> bytes \<Rightarrow> err + bytes"

record reducer =
  r_Reduce :: "reduce_fn option"
  r_Initial :: bytes

record channel =
  ch_name :: string
  ch_kind :: chan_kind
  ch_rname :: string
  ch_dir :: path
  ch_log :: blog
  ch_opaque :: bool
  ch_unkeyed :: bool
  ch_fk :: "(nat \<times> nat) list"
  ch_fkBuilt :: bool
  ch_fkNext :: nat
  ch_fkFloor :: nat
  ch_fkScan :: bool

record xwal =
  x_root :: path
  x_main :: string
  x_order :: "string list"
  x_chans :: "(string \<times> channel) list"
  x_lastTS :: int
  x_unstampedRecords :: bool

abbreviation chan :: "xwal \<Rightarrow> string \<Rightarrow> channel option" where
  "chan x name \<equiv> map_of (x_chans x) name"

definition set_chan :: "string \<Rightarrow> channel \<Rightarrow> xwal \<Rightarrow> xwal" where
  "set_chan name ch x = x\<lparr>x_chans := AList.update name ch (x_chans x)\<rparr>"

text \<open>A channel that is not there: an error where the code checks for it, a panic where it does not.\<close>

definition noChannel :: err where
  "noChannel = ErrMsg ''xwal: no channel''"

definition nilChannel :: err where
  "nilChannel = ErrMsg ''nil channel''"

section \<open>The index by main record\<close>

text \<open>One step of the scan for the newest record at or below a main index.\<close>

definition below_step :: "nat \<Rightarrow> nat option \<Rightarrow> nat \<times> bytes \<Rightarrow> nat option \<times> err option" where
  "below_step mainLT st x = (case decodeMainLT (snd x) of
     Inl e \<Rightarrow> (st, Some e)
   | Inr m \<Rightarrow> if m \<le> mainLT then (Some (fst x), Some ErrStopRange) else (st, None))"

definition lookupAtOrBelow :: "sys \<Rightarrow> channel \<Rightarrow> nat \<Rightarrow> (err + nat option) \<times> channel" where
  "lookupAtOrBelow w ch mainLT =
     (case blog_ScanFromEnd w (ch_log ch) (blog_LastIndex (ch_log ch)) (below_step mainLT) None of
        ((found, e), l) \<Rightarrow>
          (if e \<noteq> None \<and> e \<noteq> Some ErrStopRange then Inl (the e) else Inr found, ch\<lparr>ch_log := l\<rparr>))"

text \<open>One step of the scan that extends the index: the first record seen for a main index is its last.\<close>

definition index_step :: "nat \<Rightarrow> channel \<times> bool \<Rightarrow> nat \<times> bytes \<Rightarrow> (channel \<times> bool) \<times> err option" where
  "index_step mainLT st x = (case (st, x) of ((ch, stopped), (idx, payload)) \<Rightarrow>
     (case decodeMainLT payload of
        Inl e \<Rightarrow> (st, Some e)
      | Inr m \<Rightarrow>
          (let ch1 = (if map_of (ch_fk ch) m = None then ch\<lparr>ch_fk := AList.update m idx (ch_fk ch)\<rparr> else ch);
               ch2 = ch1\<lparr>ch_fkFloor := m\<rparr>;
               ch3 = (if idx > 0 then ch2\<lparr>ch_fkNext := idx - 1\<rparr> else ch2) in
           if m \<le> mainLT then ((ch3, True), Some ErrStopRange) else ((ch3, stopped), None))))"

definition lookup :: "sys \<Rightarrow> channel \<Rightarrow> nat \<Rightarrow> (err + nat option) \<times> channel" where
  "lookup w ch mainLT = (case map_of (ch_fk ch) mainLT of
     Some lt \<Rightarrow> (Inr (Some lt), ch)
   | None \<Rightarrow>
       if ch_fkBuilt ch \<or> ch_fkScan ch \<and> mainLT \<ge> ch_fkFloor ch then (Inr None, ch)
       else
         (let ch1 = (if ch_fkScan ch then ch else ch\<lparr>ch_fkNext := blog_LastIndex (ch_log ch), ch_fkScan := True\<rparr>) in
          case blog_ScanFromEnd w (ch_log ch1) (ch_fkNext ch1) (index_step mainLT) (ch1, False) of
            (((ch2, stopped), e), l) \<Rightarrow>
              (let ch3 = ch2\<lparr>ch_log := l\<rparr> in
               if e \<noteq> None \<and> e \<noteq> Some ErrStopRange then (Inl (the e), ch3)
               else let ch4 = (if stopped then ch3 else ch3\<lparr>ch_fkBuilt := True\<rparr>) in
                 (Inr (map_of (ch_fk ch4) mainLT), ch4))))"

section \<open>Appending\<close>

text \<open>The clock's reading is an argument of every append.\<close>

definition stampTS :: "int \<Rightarrow> xwal \<Rightarrow> int \<times> xwal" where
  "stampTS now x = (now, if now \<le> x_lastTS x then x else x\<lparr>x_lastTS := now\<rparr>)"

fun cursors_of :: "xwal \<Rightarrow> string list \<Rightarrow> (bytes \<times> nat) list \<Rightarrow> (bytes \<times> nat) list" where
  "cursors_of x [] out = out"
| "cursors_of x (name # names) out = (case chan x name of
     None \<Rightarrow> cursors_of x names out
   | Some ch \<Rightarrow>
       if \<not> ch_unkeyed ch then cursors_of x names out
       else cursors_of x names (AList.update (bytes_of name) (blog_LastIndex (ch_log ch)) out))"

definition unkeyedCursors :: "xwal \<Rightarrow> (bytes \<times> nat) list" where
  "unkeyedCursors x = cursors_of x (x_order x) []"

definition merge_cursors :: "(bytes \<times> nat) list \<Rightarrow> (bytes \<times> nat) list \<Rightarrow> (bytes \<times> nat) list" where
  "merge_cursors cursors extra = foldl (\<lambda>m (k, v). AList.update k v m) cursors extra"

text \<open>Noting a new record in the index, when there is one.\<close>

definition index_add :: "nat \<Rightarrow> nat \<Rightarrow> channel \<Rightarrow> channel" where
  "index_add mainLT lt ch =
     (if ch_fkScan ch \<or> ch_fkBuilt ch then ch\<lparr>ch_fk := AList.update mainLT lt (ch_fk ch)\<rparr> else ch)"

definition AppendMainCursors :: "sys \<Rightarrow> xwal \<Rightarrow> int \<Rightarrow> bytes \<Rightarrow> bytes \<Rightarrow> (bytes \<times> nat) list \<Rightarrow> (err + nat) \<times> sys \<times> xwal" where
  "AppendMainCursors w x now payload meta extra = (case chan x (x_main x) of
     None \<Rightarrow> (Inl nilChannel, w, x)
   | Some ch \<Rightarrow>
       (let cursors = merge_cursors (unkeyedCursors x) extra;
            nxt = u64_add (blog_LastIndex (ch_log ch)) 1;
            (ts, x1) = stampTS now x in
        case blog_Write w (ch_log ch) nxt (encodeStampedFrame nxt payload meta (ch_opaque ch) cursors ts) of
          (Inl e, w, l) \<Rightarrow> (Inl e, w, set_chan (x_main x) (ch\<lparr>ch_log := l\<rparr>) x1)
        | (Inr _, w, l) \<Rightarrow> (Inr nxt, w, set_chan (x_main x) (index_add nxt nxt (ch\<lparr>ch_log := l\<rparr>)) x1)))"

definition AppendMain :: "sys \<Rightarrow> xwal \<Rightarrow> int \<Rightarrow> bytes \<Rightarrow> bytes \<Rightarrow> (err + nat) \<times> sys \<times> xwal" where
  "AppendMain w x now payload meta = AppendMainCursors w x now payload meta []"

text \<open>The main index of a channel's last record.\<close>

definition tailMain :: "sys \<Rightarrow> channel \<Rightarrow> (err + nat option) \<times> channel" where
  "tailMain w ch =
     (let lst = blog_LastIndex (ch_log ch); first = blog_FirstIndex (ch_log ch) in
      if first = 0 \<or> lst < first then (Inr None, ch)
      else (case blog_Read w (ch_log ch) lst of
          (Inl e, l) \<Rightarrow> (Inl e, ch\<lparr>ch_log := l\<rparr>)
        | (Inr f, l) \<Rightarrow> (rbind (decodeMainLT f) (\<lambda>m. Inr (Some m)), ch\<lparr>ch_log := l\<rparr>)))"

definition append_unkeyed :: "sys \<Rightarrow> xwal \<Rightarrow> int \<Rightarrow> string \<Rightarrow> channel \<Rightarrow> bytes \<Rightarrow> bytes \<Rightarrow> (err + nat) \<times> sys \<times> xwal" where
  "append_unkeyed w x now name ch payload meta =
     (let nxt = u64_add (blog_LastIndex (ch_log ch)) 1; (ts, x1) = stampTS now x in
      case blog_Write w (ch_log ch) nxt (encodeChannelFrame 0 payload meta (ch_opaque ch) ts) of
        (Inl e, w, l) \<Rightarrow> (Inl e, w, set_chan name (ch\<lparr>ch_log := l\<rparr>) x1)
      | (Inr _, w, l) \<Rightarrow> (Inr nxt, w, set_chan name (ch\<lparr>ch_log := l\<rparr>) x1))"

definition append_keyed :: "sys \<Rightarrow> xwal \<Rightarrow> int \<Rightarrow> string \<Rightarrow> channel \<Rightarrow> nat \<Rightarrow> bytes \<Rightarrow> bytes \<Rightarrow> (err + nat) \<times> sys \<times> xwal" where
  "append_keyed w x now name ch mainLT payload meta =
     (let nxt = u64_add (blog_LastIndex (ch_log ch)) 1; (ts, x1) = stampTS now x in
      case blog_Write w (ch_log ch) nxt (encodeChannelFrame mainLT payload meta (ch_opaque ch) ts) of
        (Inl e, w, l) \<Rightarrow> (Inl e, w, set_chan name (ch\<lparr>ch_log := l\<rparr>) x1)
      | (Inr _, w, l) \<Rightarrow> (Inr nxt, w, set_chan name (index_add mainLT nxt (ch\<lparr>ch_log := l\<rparr>)) x1))"

definition Append :: "sys \<Rightarrow> xwal \<Rightarrow> int \<Rightarrow> string \<Rightarrow> nat \<Rightarrow> bytes \<Rightarrow> bytes \<Rightarrow> (err + nat) \<times> sys \<times> xwal" where
  "Append w x now name mainLT payload meta = (case chan x name of
     None \<Rightarrow> (Inl ErrNoChannel, w, x)
   | Some ch \<Rightarrow>
       if name = x_main x then (Inl (ErrMsg ''xwal: use AppendMain for the main channel''), w, x)
       else if ch_unkeyed ch then append_unkeyed w x now name ch payload meta
       else (case tailMain w ch of
           (Inl e, ch) \<Rightarrow> (Inl e, w, set_chan name ch x)
         | (Inr lastMain, ch) \<Rightarrow>
             if (case lastMain of Some m \<Rightarrow> mainLT < m | None \<Rightarrow> False)
             then (Inl (ErrMsg ''xwal: main-LT must be non-decreasing''), w, set_chan name ch x)
             else append_keyed w (set_chan name ch x) now name ch mainLT payload meta))"

section \<open>Syncing\<close>

definition sync_chan :: "sys \<Rightarrow> xwal \<Rightarrow> string \<Rightarrow> nat \<Rightarrow> (err + unit) \<times> sys \<times> xwal" where
  "sync_chan w x name target = (case chan x name of
     None \<Rightarrow> (Inl nilChannel, w, x)
   | Some ch \<Rightarrow> (case blog_SyncThrough w (ch_log ch) target of
       (r, w, l) \<Rightarrow> (r, w, set_chan name (ch\<lparr>ch_log := l\<rparr>) x)))"

fun sync_names :: "sys \<Rightarrow> xwal \<Rightarrow> string list \<Rightarrow> (err + unit) \<times> sys \<times> xwal" where
  "sync_names w x [] = (Inr (), w, x)"
| "sync_names w x (name # names) =
     (if name = x_main x then sync_names w x names
      else (case sync_chan w x name u64_max of
          (Inl e, w, x) \<Rightarrow> (Inl e, w, x)
        | (Inr _, w, x) \<Rightarrow> sync_names w x names))"

definition syncAll :: "sys \<Rightarrow> xwal \<Rightarrow> (err + unit) \<times> sys \<times> xwal" where
  "syncAll w x =
     (case (if chan x (x_main x) = None then (Inr (), w, x) else sync_chan w x (x_main x) u64_max) of
        (Inl e, w, x) \<Rightarrow> (Inl e, w, x)
      | (Inr _, w, x) \<Rightarrow> sync_names w x (x_order x))"

text \<open>The newest of some indexes whose record is within the limit; 0 when there is none.\<close>

fun target_loop :: "sys \<Rightarrow> nat \<Rightarrow> nat list \<Rightarrow> blog \<Rightarrow> (err + nat) \<times> blog" where
  "target_loop w limit [] l = (Inr 0, l)"
| "target_loop w limit (idx # is) l = (case blog_Read w l idx of
     (Inl e, l) \<Rightarrow> (Inl e, l)
   | (Inr f, l) \<Rightarrow> (case decodeMainLT f of
       Inl e \<Rightarrow> (Inl e, l)
     | Inr m \<Rightarrow> if m \<le> limit then (Inr idx, l) else target_loop w limit is l))"

definition cut_limit :: "channel \<Rightarrow> nat \<Rightarrow> nat" where
  "cut_limit ch mainTail = (if ch_kind ch = ChannelReducible then u64_add mainTail 1 else mainTail)"

definition coherentTarget :: "sys \<Rightarrow> channel \<Rightarrow> nat \<Rightarrow> (err + nat) \<times> channel" where
  "coherentTarget w ch mainTail = (case PendingBounds (ch_log ch) of
     None \<Rightarrow> (Inr 0, ch)
   | Some (first, lst) \<Rightarrow> (case target_loop w (cut_limit ch mainTail) (rev [first..<Suc lst]) (ch_log ch) of
       (r, l) \<Rightarrow> (r, ch\<lparr>ch_log := l\<rparr>)))"

fun coherent_names :: "sys \<Rightarrow> xwal \<Rightarrow> nat \<Rightarrow> string list \<Rightarrow> (err + unit) \<times> sys \<times> xwal" where
  "coherent_names w x mainTail [] = (Inr (), w, x)"
| "coherent_names w x mainTail (name # names) =
     (if name = x_main x then coherent_names w x mainTail names
      else (case chan x name of
          None \<Rightarrow> (Inl nilChannel, w, x)
        | Some ch \<Rightarrow> (case coherentTarget w ch mainTail of
            (Inl e, ch) \<Rightarrow> (Inl e, w, set_chan name ch x)
          | (Inr target, ch) \<Rightarrow> (case sync_chan w (set_chan name ch x) name target of
              (Inl e, w, x) \<Rightarrow> (Inl e, w, x)
            | (Inr _, w, x) \<Rightarrow> coherent_names w x mainTail names))))"

definition syncCoherent :: "sys \<Rightarrow> xwal \<Rightarrow> (err + unit) \<times> sys \<times> xwal" where
  "syncCoherent w x = (case chan x (x_main x) of
     None \<Rightarrow> syncAll w x
   | Some ch \<Rightarrow> (case blog_Sync w (ch_log ch) of
       (Inl e, w, l) \<Rightarrow> (Inl e, w, set_chan (x_main x) (ch\<lparr>ch_log := l\<rparr>) x)
     | (Inr _, w, l) \<Rightarrow>
         coherent_names w (set_chan (x_main x) (ch\<lparr>ch_log := l\<rparr>) x) (disk_LastIndex (b_inner l)) (x_order x)))"

definition SyncChannelThrough :: "sys \<Rightarrow> xwal \<Rightarrow> string \<Rightarrow> nat \<Rightarrow> (err + unit) \<times> sys \<times> xwal" where
  "SyncChannelThrough w x name idx =
     (if chan x name = None then (Inl noChannel, w, x) else sync_chan w x name idx)"

section \<open>Reading\<close>

definition ReadAt :: "sys \<Rightarrow> xwal \<Rightarrow> string \<Rightarrow> nat \<Rightarrow> (err + xrecord) \<times> xwal" where
  "ReadAt w x name channelLT = (case chan x name of
     None \<Rightarrow> (Inl noChannel, x)
   | Some ch \<Rightarrow> (case blog_Read w (ch_log ch) channelLT of
       (r, l) \<Rightarrow> (rbind r (\<lambda>f. decodeRecordFrom channelLT f (name = x_main x)), set_chan name (ch\<lparr>ch_log := l\<rparr>) x)))"

definition x_Read :: "sys \<Rightarrow> xwal \<Rightarrow> string \<Rightarrow> nat \<Rightarrow> (err + nat \<times> bytes) \<times> xwal" where
  "x_Read w x name channelLT = apfst (\<lambda>r. rbind r (\<lambda>rc. Inr (rc_MainLT rc, rc_Payload rc))) (ReadAt w x name channelLT)"

definition Lookup :: "sys \<Rightarrow> xwal \<Rightarrow> string \<Rightarrow> nat \<Rightarrow> (err + xrecord option) \<times> xwal" where
  "Lookup w x name mainLT = (case chan x name of
     None \<Rightarrow> (Inl noChannel, x)
   | Some ch \<Rightarrow>
       if name = x_main x then
         (let first = blog_FirstIndex (ch_log ch); lst = blog_LastIndex (ch_log ch) in
          if first = 0 \<or> mainLT < first \<or> mainLT > lst then (Inr None, x)
          else apfst (\<lambda>r. rbind r (\<lambda>rc. Inr (Some rc))) (ReadAt w x name mainLT))
       else (case lookup w ch mainLT of
           (Inl e, ch) \<Rightarrow> (Inl e, set_chan name ch x)
         | (Inr None, ch) \<Rightarrow> (Inr None, set_chan name ch x)
         | (Inr (Some lt), ch) \<Rightarrow> apfst (\<lambda>r. rbind r (\<lambda>rc. Inr (Some rc))) (ReadAt w (set_chan name ch x) name lt)))"

text \<open>The steps of the scan for where the records from a main index on begin, and of the walk from there.\<close>

definition from_step :: "nat \<Rightarrow> nat \<Rightarrow> nat \<times> bytes \<Rightarrow> nat \<times> err option" where
  "from_step fromMainLT first x = (case decodeMainLT (snd x) of
     Inl e \<Rightarrow> (first, Some e)
   | Inr m \<Rightarrow> if m < fromMainLT then (first, Some ErrStopRange) else (fst x, None))"

definition records_step :: "nat \<Rightarrow> int \<Rightarrow> bool \<Rightarrow> xrecord list \<Rightarrow> nat \<times> bytes \<Rightarrow> xrecord list \<times> err option" where
  "records_step fromMainLT limit isMain rs x = (case decodeRecordFrom (fst x) (snd x) isMain of
     Inl e \<Rightarrow> (rs, Some e)
   | Inr rc \<Rightarrow>
       if rc_MainLT rc < fromMainLT then (rs, None)
       else if limit > 0 \<and> int (length (rs @ [rc])) = limit then (rs @ [rc], Some ErrStopRange)
       else (rs @ [rc], None))"

definition RecordsFrom :: "sys \<Rightarrow> xwal \<Rightarrow> string \<Rightarrow> nat \<Rightarrow> int \<Rightarrow> ((err + xrecord list) \<times> xwal) option" where
  "RecordsFrom w x name fromMainLT limit =
     (if limit < 0 then Some (Inl (ErrMsg ''xwal: negative record limit''), x)
      else (case chan x name of
          None \<Rightarrow> Some (Inl noChannel, x)
        | Some ch \<Rightarrow>
            (let l = ch_log ch; snap = blog_Snapshot l;
                 keep = (\<lambda>d. set_chan name (ch\<lparr>ch_log := l\<lparr>b_inner := d\<rparr>\<rparr>) x) in
             case snap_ScanFromEnd w snap (b_inner l) 0 (from_step fromMainLT) 0 of
               ((first, e), d) \<Rightarrow>
                 if e \<noteq> None \<and> e \<noteq> Some ErrStopRange then Some (Inl (the e), keep d)
                 else if first = 0 then Some (Inr [], keep d)
                 else (case snap_Range w snap d first (records_step fromMainLT limit (name = x_main x)) [] of
                     None \<Rightarrow> None
                   | Some ((rs, e), d) \<Rightarrow>
                       Some (if e \<noteq> None \<and> e \<noteq> Some ErrStopRange then Inl (the e) else Inr rs, keep d)))))"

definition latest_step :: "nat \<Rightarrow> bool \<Rightarrow> xrecord option \<Rightarrow> nat \<times> bytes \<Rightarrow> xrecord option \<times> err option" where
  "latest_step minMainLT isMain st x = (case decodeRecordFrom (fst x) (snd x) isMain of
     Inl e \<Rightarrow> (st, Some e)
   | Inr rc \<Rightarrow> (if rc_MainLT rc \<ge> minMainLT then Some rc else st, Some ErrStopRange))"

definition LatestChannelRecord :: "sys \<Rightarrow> xwal \<Rightarrow> string \<Rightarrow> nat \<Rightarrow> (err + xrecord option) \<times> xwal" where
  "LatestChannelRecord w x name minMainLT = (case chan x name of
     None \<Rightarrow> (Inl noChannel, x)
   | Some ch \<Rightarrow>
       (let l = ch_log ch in
        case snap_ScanFromEnd w (blog_Snapshot l) (b_inner l) 0 (latest_step minMainLT (name = x_main x)) None of
          ((latest, e), d) \<Rightarrow>
            (if e \<noteq> None \<and> e \<noteq> Some ErrStopRange then Inl (the e) else Inr latest,
             set_chan name (ch\<lparr>ch_log := l\<lparr>b_inner := d\<rparr>\<rparr>) x)))"

definition x_StateAt :: "sys \<Rightarrow> xwal \<Rightarrow> string \<Rightarrow> nat \<Rightarrow> (err + bytes) \<times> sys \<times> xwal" where
  "x_StateAt w x name channelLT = (case chan x name of
     None \<Rightarrow> (Inl noChannel, w, x)
   | Some ch \<Rightarrow>
       if ch_kind ch \<noteq> ChannelReducible then (Inl (ErrMsg ''xwal: channel is not reducible''), w, x)
       else (case blog_StateAt w (ch_log ch) channelLT of
           (r, w, l) \<Rightarrow> (r, w, set_chan name (ch\<lparr>ch_log := l\<rparr>) x)))"

definition CursorAt :: "sys \<Rightarrow> xwal \<Rightarrow> nat \<Rightarrow> string \<Rightarrow> (err + nat) \<times> xwal" where
  "CursorAt w x at name =
     (if at = 0 then (Inr 0, x)
      else (case chan x (x_main x) of
          None \<Rightarrow> (Inl nilChannel, x)
        | Some main \<Rightarrow> (case blog_Read w (ch_log main) at of
            (Inl e, l) \<Rightarrow> (Inl e, set_chan (x_main x) (main\<lparr>ch_log := l\<rparr>) x)
          | (Inr frame, l) \<Rightarrow>
              (let x1 = set_chan (x_main x) (main\<lparr>ch_log := l\<rparr>) x in
               case unmarshal_frame frame of
                 Inl e \<Rightarrow> (Inl e, x1)
               | Inr fo \<Rightarrow> (case map_of (fo_C fo) (bytes_of name) of
                   Some v \<Rightarrow> (Inr v, x1)
                 | None \<Rightarrow>
                     if \<not> x_unstampedRecords x then (Inr 0, x1)
                     else (case chan x1 name of
                         None \<Rightarrow> (Inl nilChannel, x1)
                       | Some ch \<Rightarrow> (case lookupAtOrBelow w ch at of
                           (r, ch) \<Rightarrow> (rbind r (\<lambda>lt. Inr (case lt of None \<Rightarrow> 0 | Some n \<Rightarrow> n)), set_chan name ch x1))))))))"

section \<open>The newest timestamp\<close>

definition tail_ts :: "sys \<Rightarrow> bool \<Rightarrow> channel \<Rightarrow> int \<times> channel" where
  "tail_ts w isMain ch =
     (let lst = blog_LastIndex (ch_log ch) in
      if lst = 0 then (0, ch)
      else (case blog_Read w (ch_log ch) lst of
          (r, l) \<Rightarrow> (case rbind r (\<lambda>f. decodeRecordFrom lst f isMain) of Inl _ \<Rightarrow> 0 | Inr rc \<Rightarrow> rc_TS rc, ch\<lparr>ch_log := l\<rparr>)))"

fun hydrate_names :: "sys \<Rightarrow> xwal \<Rightarrow> int \<Rightarrow> string list \<Rightarrow> int \<times> xwal" where
  "hydrate_names w x mx [] = (mx, x)"
| "hydrate_names w x mx (name # names) = (case chan x name of
     None \<Rightarrow> hydrate_names w x mx names
   | Some ch \<Rightarrow> (case tail_ts w (name = x_main x) ch of
       (ts, ch) \<Rightarrow> hydrate_names w (set_chan name ch x) (if ts > mx then ts else mx) names))"

definition mergeMax :: "int \<Rightarrow> int \<Rightarrow> int" where
  "mergeMax ts v = (if v \<le> ts then ts else v)"

definition hydrateLastTS :: "sys \<Rightarrow> xwal \<Rightarrow> xwal" where
  "hydrateLastTS w x = (case hydrate_names w x 0 (x_order x) of (mx, x) \<Rightarrow> x\<lparr>x_lastTS := mergeMax (x_lastTS x) mx\<rparr>)"

section \<open>Bounds and folds\<close>

record channelInfo =
  ci_Name :: string
  ci_Kind :: chan_kind
  ci_Reducer :: string
  ci_Opaque :: bool
  ci_First :: nat
  ci_Last :: nat
  ci_Segments :: nat

definition chan_info :: "string \<Rightarrow> channel \<Rightarrow> channelInfo" where
  "chan_info name ch = \<lparr>ci_Name = name, ci_Kind = ch_kind ch, ci_Reducer = ch_rname ch, ci_Opaque = ch_opaque ch,
     ci_First = blog_FirstIndex (ch_log ch), ci_Last = blog_LastIndex (ch_log ch),
     ci_Segments = length (disk_SegmentBaseIndexes (b_inner (ch_log ch)))\<rparr>"

definition x_Channels :: "xwal \<Rightarrow> channelInfo list" where
  "x_Channels x = List.map_filter (\<lambda>name. map_option (chan_info name) (chan x name)) (x_order x)"

fun fold_frames :: "reduce_fn \<Rightarrow> bytes \<Rightarrow> bytes list \<Rightarrow> err + bytes" where
  "fold_frames reduce state [] = Inr state"
| "fold_frames reduce state (f # fs) =
     rbind (decodeFrame f) (\<lambda>(_, patch). rbind (reduce state patch) (\<lambda>state. fold_frames reduce state fs))"

definition reducibleFold :: "reduce_fn \<Rightarrow> bytes \<Rightarrow> bytes \<Rightarrow> bytes list \<Rightarrow> err + bytes" where
  "reducibleFold reduce initial prevHeader frames =
     fold_frames reduce (if prevHeader = [] then initial else prevHeader) frames"

definition codecByName :: "string \<Rightarrow> err + codec" where
  "codecByName name =
     (if name = '''' \<or> name = ''jsonl'' then Inr JSONLCodec
      else if name = ''binary'' then Inr BinaryCodec
      else Inl (ErrMsg ''xwal: unknown codec''))"

end
