(* ===== verification/Channels_Spec.thy ===== *)
theory Channels_Spec
  imports Channels
begin

text \<open>
  What the channels of a branch promise: the records a channel shows, looked up by main record, read from
  a main record on, and persisted in a coherent cut. The logs of different channels live in different
  directories, and what happens in one does not matter to the others.
\<close>

section \<open>Logs beside each other\<close>

text \<open>The settings of a log and its ancestors.\<close>

fun cfgs :: "dlog \<Rightarrow> (path \<times> options \<times> codec \<times> string \<times> bool \<times> nat \<times> bool) list" where
  "cfgs (DLog l pa) = cfg l # (case pa of None \<Rightarrow> [] | Some p \<Rightarrow> cfgs p)"

lemma openSealed_cfg: "cfg (snd (openSealed w l i)) = cfg l"
  by (auto simp: openSealed_def split: option.split prod.split sum.split)

lemma findSegmentLocked_cfg: "cfg (snd (findSegmentLocked w l idx)) = cfg l"
  using openSealed_cfg [of w l] by (auto simp: findSegmentLocked_def split: option.split prod.split sum.split) (metis snd_conv)+

lemma disk_Read_cfgs: "cfgs (snd (disk_Read w idx d)) = cfgs d"
proof (induction d)
  case (DLog l pa)
  have f: "findSegmentLocked w l idx = (r, l') \<Longrightarrow> cfg l' = cfg l" for r l'
    using findSegmentLocked_cfg [of w l idx] by simp
  show ?case
  proof (cases "idx < forkBase l \<and> pa \<noteq> None")
    case True
    then obtain p where "pa = Some p" by blast
    then show ?thesis using True DLog.IH by (auto split: prod.split)
  next
    case False
    then have "disk_Read w idx (DLog l pa) = (if isEmptyLocked l then (Inl ErrEmpty, DLog l pa)
        else (case findSegmentLocked w l idx of
            (Inl e, l') \<Rightarrow> (Inl e, DLog l' pa)
          | (Inr None, l') \<Rightarrow> (Inl ErrNotFound, DLog l' pa)
          | (Inr (Some (ref, s)), l') \<Rightarrow> (case seg_ReadIndex w s (u64_sub idx (baseIndex s)) of
                (r, s') \<Rightarrow> (r, DLog (put_seg ref s' l') pa))))"
      by (auto split: option.split bool.split)
    then show ?thesis using f by (auto split: prod.split sum.split option.split)
  qed
qed

lemma cfgs_same: "cfgs d' = cfgs d \<Longrightarrow> dirs d' = dirs d \<and> (folds f d' \<longleftrightarrow> folds f d)"
proof (induction d arbitrary: d')
  case (DLog l pa)
  obtain l' pa' where d': "d' = DLog l' pa'" by (cases d')
  have "cfg l' = cfg l" using DLog.prems d' by simp
  then have c: "l_dir l' = l_dir l" "l_opts l' = l_opts l" by (simp_all add: cfg_def)
  show ?case
  proof (cases pa)
    case None
    then have "pa' = None" using DLog.prems d' by (cases pa') (auto elim: cfgs.elims)
    then show ?thesis using None c d' by simp
  next
    case (Some p)
    then obtain p' where p': "pa' = Some p'" "cfgs p' = cfgs p" using DLog.prems d' by (cases pa'; cases p) auto
    then show ?thesis using DLog.IH [OF _ p'(2)] Some c d' by auto
  qed
qed

lemma writable_same:
  assumes "writable k w d a" "represents k w d' a" "cfgs d' = cfgs d"
  shows "writable k w d' a"
proof -
  obtain l pa l' pa' segs act fb pb where d: "d = DLog l pa" "d' = DLog l' pa'" "a = ALog segs act fb pb"
    by (metis dlog.exhaust alog.exhaust)
  have c: "cfg l' = cfg l" using assms(3) d by simp
  then have e: "l_dir l' = l_dir l" "l_opts l' = l_opts l" "l_readOnly l' = l_readOnly l" by (simp_all add: cfg_def)
  show ?thesis
    using assms(1,2) d e cfgs_same [OF assms(3)] dir_rep_cong [OF c] by (simp del: folds.simps dirs.simps dlog_rep.simps)
qed

text \<open>A log does not notice what is written in directories that are not its own.\<close>

lemma writable_frame:
  assumes "writable k w d a" "only_in dir w w'" "dir \<notin> set (dirs d)"
  shows "writable k w' d a"
proof -
  obtain l pa segs act fb pb where d: "d = DLog l pa" "a = ALog segs act fb pb" by (metis dlog.exhaust alog.exhaust)
  have ne: "l_dir l \<noteq> dir" using assms(3) d by auto
  have ok: "represents k w d a" "dir_rep w l (all_segs segs act)" using assms(1) d by auto
  have "represents k w' d a" by (rule dlog_rep_frame [OF ok(1) assms(2,3)])
  moreover have st: "stat w' (l_dir l @ [n]) = stat w (l_dir l @ [n])" for n by (rule only_in_other [OF assms(2) ne])
  have ld: "stat w (l_dir l) = Some Dir" using ok(2) by (simp add: dir_rep_def)
  then have ld': "stat w' (l_dir l) = Some Dir" using only_in_dir [OF assms(2)] by simp
  have "dir_rep w' l (all_segs segs act)" using ok(2) ld' st by (simp add: dir_rep_def)
  moreover have "hasSubdirs w' (l_dir l) = hasSubdirs w (l_dir l)"
    using only_in_dir [OF assms(2)] by (simp add: hasSubdirs_dir [OF ld] hasSubdirs_dir [OF ld'])
  ultimately show ?thesis using assms(1) d by simp
qed

lemma writable_write_same:
  assumes wr: "writable k w d a" and idx: "idx = next_index a" "idx + 1 < u64_lim" and p: "stableOf k p"
    and dw: "disk_Write w d idx p = (r, w', d')"
  shows "same_log w d w' d' \<and> disk_LastIndex d' \<le> idx"
proof -
  obtain l pa segs act fb pb where d: "d = DLog l pa" "a = ALog segs act fb pb" by (metis dlog.exhaust alog.exhaust)
  have ok: "in_order k w (DLog l pa) (ALog segs act fb pb)" and ro: "\<not> l_readOnly l"
    and sub: "hasSubdirs w (l_dir l) = Inr False"
    and ht: "case OnSegmentOpen (l_opts l) of None \<Rightarrow> True | Some f \<Rightarrow> header_total (stableOf k) f \<and> pb = None"
    using wr d by (simp_all del: log_ok.simps)
  obtain hs where hs: "fresh_header (OnSegmentOpen (l_opts l)) (ALog segs act fb pb) = Inr hs" "list_all (stableOf k) hs"
    using fresh_header_total [OF ok ht] by blast
  have "same_log w d w' d'" using any.disk_Write_rep [OF ok ro sub _ idx(2) hs p] idx(1) d dw by fastforce
  moreover have "disk_LastIndex d' \<le> idx"
  proof -
    obtain a' where a': "writable k w' d' a'" "next_index a' = idx \<or> next_index a' = idx + 1"
      using writable_write [OF wr idx p] dw idx(1) by (fastforce simp: appended_def)
    then show ?thesis using disk_LastIndex_rep [OF writable_represents [OF a'(1)]] idx(2) by auto
  qed
  ultimately show ?thesis by blast
qed

text \<open>A sync writes in the log's own directory only, and nothing beyond its target.\<close>

lemma writing_next:
  assumes inv: "buf_inv k (w, l, Writing first durable idx batch (p # ps)) a" and lt: "durable < idx"
  shows "idx = next_index a" "idx + 1 < u64_lim" "stableOf k p"
proof -
  obtain "done" es where ph: "b_pend l = Some \<lparr>pv_first = first, pv_entries = batch @ es\<rparr>" "batch = done @ p # ps"
    "idx = first + length done" "first \<le> durable + 1" "disk_has a first (batch @ es) (max (durable + 1 - first) (length done))"
    using inv unfolding buf_inv.simps phase_ok.simps by blast
  have "max (durable + 1 - first) (length done) = length done" using lt ph(3) by simp
  moreover have "first + length (batch @ es) < u64_max" "list_all (stableOf k) (batch @ es)"
    using inv ph(1,2) buf_ok_disk_has [of "\<lparr>pv_first = first, pv_entries = batch @ es\<rparr>" a] by (auto simp: pending_def)
  ultimately show "idx = next_index a" "idx + 1 < u64_lim" "stableOf k p" using ph by (auto simp: disk_has_def)
qed

lemma sync_writes_same:
  "buf_inv k (w, l, Writing first durable idx batch ps) a \<Longrightarrow> idx + length ps < u64_lim \<Longrightarrow>
   sync_writes w (b_inner l) durable idx ps = (r, w', d') \<Longrightarrow>
   same_log w (b_inner l) w' d' \<and> disk_LastIndex d' \<le> max (disk_LastIndex (b_inner l)) (idx + length ps - 1)"
proof (induction ps arbitrary: w l idx a)
  case (Cons p ps)
  have up: "u64_add idx 1 = Suc idx" using Cons.prems(2) by (simp add: u64_simps)
  show ?case
  proof (cases "idx \<le> durable")
    case True
    then show ?thesis using Cons.IH [OF buf_inv_present [OF Cons.prems(1) True]] Cons.prems(2,3) up by simp
  next
    case False
    obtain r1 w1 d1 where d1: "disk_Write w (b_inner l) idx p = (r1, w1, d1)" by (metis prod_cases3)
    have "writable k w (b_inner l) a" using Cons.prems(1) by simp
    from writable_write_same [OF this writing_next [OF Cons.prems(1)] d1] False
    have s: "same_log w (b_inner l) w1 d1" "disk_LastIndex d1 \<le> idx" by auto
    show ?thesis
    proof (cases r1)
      case (Inl e)
      then show ?thesis using Cons.prems(3) d1 False s by auto
    next
      case (Inr u)
      obtain a' where "buf_inv k (w1, l\<lparr>b_inner := d1\<rparr>, Writing first durable (u64_add idx 1) batch ps) a'"
        using buf_inv_persist [OF Cons.prems(1) _ d1] False Inr by auto
      from Cons.IH [OF this] Cons.prems(2,3) d1 False Inr up
      have "same_log w1 d1 w' d'" "disk_LastIndex d' \<le> max (disk_LastIndex d1) (Suc idx + length ps - 1)" by simp_all
      then show ?thesis using same_log_trans [OF s(1)] s(2) by auto
    qed
  qed
qed simp

lemma sync_same:
  assumes inv: "buf_inv k (w, l, Idle) a" and t: "target \<le> u64_max" and s: "blog_SyncThrough w l target = (r, w', l')"
  shows "same_log w (b_inner l) w' (b_inner l') \<and> disk_LastIndex (b_inner l') \<le> max (disk_LastIndex (b_inner l)) target"
proof -
  obtain first batch where c: "sync_capture l target = (first, batch)" by fastforce
  have ok: "buf_ok a (b_pend l)" using inv by simp
  note part = sync_capture_part [OF c ok t]
  show ?thesis
  proof (cases "batch = []")
    case True
    then show ?thesis using s c by (auto simp: blog_SyncThrough_def)
  next
    case False
    obtain p where p: "pv_some (b_pend l) = Some p" "batch = take (target + 1 - pv_first p) (pv_entries p)" "first = pv_first p"
      using part False by (auto split: option.splits)
    obtain r1 w1 d1 where sw: "sync_writes w (b_inner l) (disk_LastIndex (b_inner l)) first batch = (r1, w1, d1)" by (metis prod_cases3)
    have "first + length (pv_entries p) < u64_max" using ok p(1,3) by (simp add: buf_ok_def)
    then have len: "first + length batch < u64_lim" "first + length batch \<le> target + 1" using p False by (auto simp: min_def split: if_splits)
    from sync_writes_same [OF buf_inv_capture [OF inv c False] len(1) sw] len(2)
    have d1: "same_log w (b_inner l) w1 d1" "disk_LastIndex d1 \<le> max (disk_LastIndex (b_inner l)) target" by auto
    have "w' = w1 \<and> b_inner l' = d1"
      using s c False sw by (cases r1) (auto simp: blog_SyncThrough_def sync_trim_def Let_def split: option.splits)
    then show ?thesis using d1 by simp
  qed
qed

section \<open>What a channel shows\<close>

definition main_lt :: "bytes \<Rightarrow> nat" where
  "main_lt f = (case decodeMainLT f of Inr m \<Rightarrow> m | Inl _ \<Rightarrow> 0)"

text \<open>Records that all name a main record, in non-decreasing order.\<close>

definition keyed :: "(nat \<times> bytes) list \<Rightarrow> bool" where
  "keyed xs \<longleftrightarrow> (\<forall>x\<in>set xs. decodeMainLT (snd x) = Inr (main_lt (snd x))) \<and> sorted (map (main_lt \<circ> snd) xs)"

lemma blog_Read_keeps:
  assumes "buf_inv k (w, l, Idle) a" "blog_Read w l idx = (r, l')"
  shows "r = (case map_of (shown a (b_pend l)) idx of Some p \<Rightarrow> Inr p | None \<Rightarrow> Inl ErrNotFound)"
    "buf_inv k (w, l', Idle) a" "b_pend l' = b_pend l" "cfgs (b_inner l') = cfgs (b_inner l)"
proof -
  have wr: "writable k w (b_inner l) a" and ok: "buf_ok a (b_pend l)" using assms(1) by auto
  have "r = (case map_of (shown a (b_pend l)) idx of Some p \<Rightarrow> Inr p | None \<Rightarrow> Inl ErrNotFound) \<and>
    buf_inv k (w, l', Idle) a \<and> b_pend l' = b_pend l \<and> cfgs (b_inner l') = cfgs (b_inner l)"
  proof (cases "pv_at (b_pend l) idx")
    case (Some p)
    then show ?thesis using assms shown_lookup [OF ok, of idx] by (auto simp: blog_Read_def simp del: buf_inv.simps)
  next
    case None
    obtain d' where d': "disk_Read w idx (b_inner l) = (a_Read idx a, d')" "represents k w d' a"
      using any.disk_Read_rep [OF writable_represents [OF wr], of idx] by blast
    have c: "cfgs d' = cfgs (b_inner l)" using disk_Read_cfgs [of w idx "b_inner l"] d'(1) by simp
    then have wr': "writable k w d' a" using writable_same [OF wr d'(2)] by blast
    have e: "r = no_empty (a_Read idx a)" "l' = l\<lparr>b_inner := d'\<rparr>" using assms(2) None d'(1) by (auto simp: blog_Read_def)
    have "r = (case map_of (shown a (b_pend l)) idx of Some p \<Rightarrow> Inr p | None \<Rightarrow> Inl ErrNotFound)"
      using None e(1) shown_lookup [OF ok, of idx] a_Read_visible [OF dlog_rep_chains [OF writable_represents [OF wr]], of idx]
      by (auto simp: no_empty_def split: sum.splits)
    then show ?thesis using e(2) c wr' assms(1) by (auto simp del: writable.simps)
  qed
  then show "r = (case map_of (shown a (b_pend l)) idx of Some p \<Rightarrow> Inr p | None \<Rightarrow> Inl ErrNotFound)"
    "buf_inv k (w, l', Idle) a" "b_pend l' = b_pend l" "cfgs (b_inner l') = cfgs (b_inner l)" by blast+
qed

lemma visible_shown:
  assumes "buf_ok a po" "y \<in> set (visible a)"
  shows "y \<in> set (shown a po)"
proof (cases "pv_some po")
  case None
  then show ?thesis using assms by (simp add: shown_def)
next
  case (Some p)
  then obtain m where m: "filter (\<lambda>x. pv_first p \<le> fst x) (visible a) = enumerate (pv_first p) (take m (pv_entries p))"
    using assms(1) by (auto simp: buf_ok_def)
  show ?thesis
  proof (cases "pv_first p \<le> fst y")
    case True
    then have "y \<in> set (enumerate (pv_first p) (take m (pv_entries p)))" using assms(2) m by (simp flip: m)
    then have "y \<in> set (enumerate (pv_first p) (pv_entries p))" by (auto simp: in_set_enumerate_eq)
    then show ?thesis using Some by (simp add: shown_def)
  next
    case False
    then show ?thesis using Some assms(2) by (simp add: shown_def)
  qed
qed

lemma shown_pending:
  assumes "pv_some po = Some p" "i < length (pv_entries p)"
  shows "(pv_first p + i, pv_entries p ! i) \<in> set (shown a po)"
  using assms by (auto simp: shown_def in_set_enumerate_eq)

section \<open>The coherent cut\<close>

lemma target_loop_finds:
  assumes "buf_inv k (w, l, Idle) a" "target_loop w limit is l = (r, l')"
    "\<And>i. i \<in> set is \<Longrightarrow> \<exists>f. map_of (shown a (b_pend l)) i = Some f \<and> decodeMainLT f = Inr (M i)"
  shows "r = Inr (case find (\<lambda>i. M i \<le> limit) is of Some i \<Rightarrow> i | None \<Rightarrow> 0) \<and> buf_inv k (w, l', Idle) a \<and>
    b_pend l' = b_pend l \<and> cfgs (b_inner l') = cfgs (b_inner l)"
  using assms
proof (induction "is" arbitrary: l)
  case (Cons i "is")
  obtain f where f: "map_of (shown a (b_pend l)) i = Some f" "decodeMainLT f = Inr (M i)" using Cons.prems(3) [of i] by auto
  obtain r1 l1 where rd: "blog_Read w l i = (r1, l1)" by fastforce
  note keep = blog_Read_keeps [OF Cons.prems(1) rd]
  have r1: "r1 = Inr f" using keep(1) f(1) by simp
  show ?case
  proof (cases "M i \<le> limit")
    case True
    then show ?thesis using Cons.prems(2) rd r1 f(2) keep by (auto simp del: buf_inv.simps)
  next
    case False
    then have "target_loop w limit is l1 = (r, l')" using Cons.prems(2) rd r1 f(2) by simp
    from Cons.IH [OF keep(2) this] Cons.prems(3) keep(3,4) show ?thesis using False by (simp del: buf_inv.simps)
  qed
qed (simp del: buf_inv.simps)

lemma map_of_shown_pending:
  assumes "buf_ok a po" "pv_some po = Some p" "i < length (pv_entries p)"
  shows "map_of (shown a po) (pv_first p + i) = Some (pv_entries p ! i)"
  using assms shown_lookup [OF assms(1), of "pv_first p + i"] by (auto simp: pv_at_def pv_some_iff)

text \<open>The target of the cut: the pending records up to it are within the limit, those after it are not.\<close>

lemma coherentTarget_cut:
  assumes inv: "buf_inv k (w, ch_log ch, Idle) a" and key: "keyed (shown a (b_pend (ch_log ch)))"
    and t: "coherentTarget w ch tail = (r, ch')"
  shows "\<exists>t l'. r = Inr t \<and> ch' = ch\<lparr>ch_log := l'\<rparr> \<and> buf_inv k (w, l', Idle) a \<and> b_pend l' = b_pend (ch_log ch) \<and>
    cfgs (b_inner l') = cfgs (b_inner (ch_log ch)) \<and> t < u64_max \<and>
    (\<forall>p. pv_some (b_pend (ch_log ch)) = Some p \<longrightarrow>
       (\<forall>i<length (pv_entries p). main_lt (pv_entries p ! i) \<le> cut_limit ch tail \<longleftrightarrow> pv_first p + i \<le> t))"
proof (cases "pv_some (b_pend (ch_log ch))")
  case None
  then have "r = Inr 0" "ch' = ch" using t by (auto simp: coherentTarget_def PendingBounds_def)
  then show ?thesis using None inv by (intro exI [of _ 0] exI [of _ "ch_log ch"]) (simp del: buf_inv.simps)
next
  case (Some p)
  let ?es = "pv_entries p" and ?f = "pv_first p" and ?lim = "cut_limit ch tail"
  have ok: "buf_ok a (b_pend (ch_log ch))" using inv by simp
  have p: "?es \<noteq> []" "1 \<le> ?f" "?f + length ?es < u64_max" using ok Some by (auto simp: buf_ok_def pv_some_iff)
  have lst: "Suc (pv_last p) = ?f + length ?es" using pv_last_eq [OF p(1,3)] p(1) by (cases ?es) auto
  define ix where "ix = rev [?f..<?f + length ?es]"
  define M where "M i = main_lt (?es ! (i - ?f))" for i
  obtain r1 l1 where tl: "target_loop w ?lim ix (ch_log ch) = (r1, l1)" by fastforce
  have at: "\<exists>f. map_of (shown a (b_pend (ch_log ch))) i = Some f \<and> decodeMainLT f = Inr (M i)" if "i \<in> set ix" for i
  proof -
    have i: "i - ?f < length ?es" "?f + (i - ?f) = i" using that by (auto simp: ix_def)
    then show ?thesis
      using map_of_shown_pending [OF ok Some i(1)] shown_pending [OF Some i(1), of a] key by (auto simp: keyed_def M_def)
  qed
  have mono: "M i \<le> M j" if "?f \<le> i" "i \<le> j" "j < ?f + length ?es" for i j
  proof -
    have "sorted (map (main_lt \<circ> snd) (enumerate ?f ?es))"
      using key Some by (simp add: keyed_def shown_def sorted_append)
    moreover have "map (main_lt \<circ> snd) (enumerate ?f ?es) = map main_lt ?es" by (metis map_map map_snd_enumerate)
    ultimately have "sorted (map main_lt ?es)" by simp
    from sorted_nth_mono [OF this, of "i - ?f" "j - ?f"] that show ?thesis by (simp add: M_def)
  qed
  have r: "r1 = Inr (case find (\<lambda>i. M i \<le> ?lim) ix of Some i \<Rightarrow> i | None \<Rightarrow> 0)" "buf_inv k (w, l1, Idle) a"
    "b_pend l1 = b_pend (ch_log ch)" "cfgs (b_inner l1) = cfgs (b_inner (ch_log ch))"
    using target_loop_finds [OF inv tl at] by blast+
  have e: "r = r1" "ch' = ch\<lparr>ch_log := l1\<rparr>" using t Some tl lst by (auto simp: coherentTarget_def PendingBounds_def ix_def simp del: upt_Suc)
  define T where "T = (case find (\<lambda>i. M i \<le> ?lim) ix of Some i \<Rightarrow> i | None \<Rightarrow> 0)"
  have cut: "T < u64_max \<and> (\<forall>i<length ?es. M (?f + i) \<le> ?lim \<longleftrightarrow> ?f + i \<le> T)"
  proof (cases "find (\<lambda>i. M i \<le> ?lim) ix")
    case None
    then have "\<not> M (?f + i) \<le> ?lim" if "i < length ?es" for i using that by (auto simp: find_None_iff ix_def)
    then show ?thesis using None p(2) by (auto simp: T_def)
  next
    case (Some j)
    then obtain n where n: "n < length ix" "M (ix ! n) \<le> ?lim" "j = ix ! n" "\<forall>m<n. \<not> M (ix ! m) \<le> ?lim"
      by (auto simp: find_Some_iff)
    have j: "j = ?f + (length ?es - Suc n)" "n < length ?es" using n by (auto simp: ix_def rev_nth)
    have "M (?f + i) \<le> ?lim \<longleftrightarrow> ?f + i \<le> j" if i: "i < length ?es" for i
    proof
      assume "?f + i \<le> j"
      then have "M (?f + i) \<le> M j" using mono [of "?f + i" j] j by simp
      then show "M (?f + i) \<le> ?lim" using n by simp
    next
      assume le: "M (?f + i) \<le> ?lim"
      show "?f + i \<le> j"
      proof (rule ccontr)
        assume "\<not> ?f + i \<le> j"
        then have m: "length ?es - Suc i < n" "ix ! (length ?es - Suc i) = ?f + i" using i j by (auto simp: ix_def rev_nth)
        then show False using n(4) le by fastforce
      qed
    qed
    then show ?thesis using Some j p(3) by (simp add: T_def)
  qed
  then show ?thesis using r e Some by (intro exI [of _ T] exI [of _ l1]) (simp add: T_def M_def del: buf_inv.simps)
qed

text \<open>A sync to the target puts on disk the pending records within the limit, and no others.\<close>

lemma sync_cut:
  assumes inv: "buf_inv k (w, l, Idle) a" and t: "t < u64_max" and s: "blog_SyncThrough w l t = (r, w', l')"
    and cut: "\<And>p i. pv_some (b_pend l) = Some p \<Longrightarrow> i < length (pv_entries p) \<Longrightarrow>
      P (pv_entries p ! i) \<longleftrightarrow> pv_first p + i \<le> t"
  shows "\<exists>a' ys. buf_inv k (w', l', Idle) a' \<and> shown a' (b_pend l') = shown a (b_pend l) \<and> visible a' = visible a @ ys \<and>
    (\<forall>y\<in>set ys. P (snd y)) \<and> (r = Inr () \<longrightarrow> (\<forall>y\<in>set (shown a (b_pend l)). P (snd y) \<longrightarrow> y \<in> set (visible a')))"
proof -
  obtain a' qs where a': "buf_inv k (w', l', Idle) a'" "shown a' (b_pend l') = shown a (b_pend l)" "appended a a' qs"
    "r = Inr () \<and> (\<forall>p. pv_some (b_pend l') = Some p \<longrightarrow> t < pv_first p) \<or> r = Inl ErrPayloadTooLarge"
    using sync_through [OF inv _ s] t by (auto simp del: buf_inv.simps)
  have rep: "represents k w (b_inner l) a" "represents k w' (b_inner l') a'"
    using inv a'(1) by (auto intro: writable_represents simp del: writable.simps)
  have ok: "buf_ok a (b_pend l)" "buf_ok a' (b_pend l')" using inv a'(1) by auto
  have n: "next_index a < u64_lim" "next_index a' < u64_lim"
    using ok by (auto simp: buf_ok_def split: option.splits)
  have lst: "next_index a' \<le> max (next_index a) (t + 1)"
    using sync_same [OF inv _ s] t disk_LastIndex_rep [OF rep(1) n(1)] disk_LastIndex_rep [OF rep(2) n(2)] by auto
  let ?ys = "enumerate (next_index a) qs"
  have ap: "next_index a' = next_index a + length qs" "visible a' = visible a @ ?ys" using a'(3) by (auto simp: appended_def)
  have pend: "P (snd y)" if y: "y \<in> set (shown a (b_pend l))" "next_index a \<le> fst y" "fst y \<le> t" for y
  proof (cases "pv_some (b_pend l)")
    case None
    then show ?thesis using visible_below_next [of k w "b_inner l" a y] inv y by (auto simp: shown_def simp del: writable.simps)
  next
    case (Some p)
    then have "pv_first p \<le> next_index a" using ok(1) by (auto simp: buf_ok_def)
    then have "y \<in> set (enumerate (pv_first p) (pv_entries p))" using y Some by (auto simp: shown_def)
    then have i: "fst y - pv_first p < length (pv_entries p)" "pv_first p \<le> fst y" "snd y = pv_entries p ! (fst y - pv_first p)"
      by (auto simp: in_set_enumerate_eq)
    then show ?thesis using cut [OF Some i(1)] y(3) by simp
  qed
  have "P (snd y)" if y: "y \<in> set ?ys" for y
  proof -
    have b: "next_index a \<le> fst y" "fst y < next_index a'" using y ap(1) by (auto simp: in_set_enumerate_eq)
    moreover have "y \<in> set (visible a')" using y ap(2) by simp
    then have "y \<in> set (shown a (b_pend l))" using visible_shown [OF ok(2)] a'(2) by metis
    ultimately show ?thesis using pend lst by auto
  qed
  moreover have "y \<in> set (visible a')" if r: "r = Inr ()" and y: "y \<in> set (shown a (b_pend l))" "P (snd y)" for y
  proof (cases "y \<in> set (visible a)")
    case True
    then show ?thesis using ap(2) by simp
  next
    case False
    then obtain p where p: "pv_some (b_pend l) = Some p" "y \<in> set (enumerate (pv_first p) (pv_entries p))"
      using y(1) by (auto simp: shown_def split: option.splits)
    then have i: "fst y - pv_first p < length (pv_entries p)" "pv_first p \<le> fst y" "snd y = pv_entries p ! (fst y - pv_first p)"
      by (auto simp: in_set_enumerate_eq)
    then have le: "fst y \<le> t" using cut [OF p(1) i(1)] y(2) by simp
    have "y \<in> set (shown a' (b_pend l'))" using y(1) a'(2) by simp
    moreover have "\<forall>p. pv_some (b_pend l') = Some p \<longrightarrow> t < pv_first p" using a'(4) r by auto
    ultimately show ?thesis using le by (auto simp: shown_def in_set_enumerate_eq split: option.splits)
  qed
  ultimately show ?thesis using a'(1,2) ap(2) by blast
qed

subsection \<open>All channels together\<close>

text \<open>
  Every channel's log is in order, with the records the log \<open>A name\<close> holds, and no channel writes in a
  directory another one reads.
\<close>

definition own_dir :: "channel \<Rightarrow> path" where
  "own_dir ch = hd (dirs (b_inner (ch_log ch)))"

definition chans_ok :: "codec_kind \<Rightarrow> sys \<Rightarrow> xwal \<Rightarrow> (string \<Rightarrow> alog) \<Rightarrow> bool" where
  "chans_ok k w x A \<longleftrightarrow>
     (\<forall>n ch. chan x n = Some ch \<longrightarrow> buf_inv k (w, ch_log ch, Idle) (A n)) \<and>
     (\<forall>n ch n' ch'. chan x n = Some ch \<longrightarrow> chan x n' = Some ch' \<longrightarrow> n \<noteq> n' \<longrightarrow>
        own_dir ch \<notin> set (dirs (b_inner (ch_log ch'))))"

abbreviation chan_shows :: "(string \<Rightarrow> alog) \<Rightarrow> string \<Rightarrow> channel \<Rightarrow> (nat \<times> bytes) list" where
  "chan_shows A n ch \<equiv> shown (A n) (b_pend (ch_log ch))"

lemma chan_set_chan: "chan (set_chan n ch x) m = (if m = n then Some ch else chan x m)"
  by (simp add: set_chan_def update_conv)

lemma x_main_set_chan [simp]: "x_main (set_chan n ch x) = x_main x" "x_order (set_chan n ch x) = x_order x"
  by (simp_all add: set_chan_def)

lemma same_log_dirs: "same_log w d w' d' \<Longrightarrow> dirs d' = dirs d \<and> only_in (hd (dirs d)) w w'"
  by (cases d; cases d') simp

lemma chans_ok_update:
  assumes ok: "chans_ok k w x A" and ch: "chan x n = Some ch" and inv: "buf_inv k (w', ch_log ch', Idle) a'"
    and same: "dirs (b_inner (ch_log ch')) = dirs (b_inner (ch_log ch))" and only: "only_in (own_dir ch) w w'"
  shows "chans_ok k w' (set_chan n ch' x) (A(n := a'))"
proof -
  have "buf_inv k (w', ch_log c, Idle) (A m)" if "chan x m = Some c" "m \<noteq> n" for m c
  proof -
    have i: "buf_inv k (w, ch_log c, Idle) (A m)" "own_dir ch \<notin> set (dirs (b_inner (ch_log c)))"
      using ok ch that by (auto simp: chans_ok_def simp del: buf_inv.simps)
    then have "writable k w' (b_inner (ch_log c)) (A m)" using writable_frame [OF _ only] by simp
    then show ?thesis using i(1) by (simp del: writable.simps)
  qed
  moreover have "own_dir ch' = own_dir ch" using same by (simp add: own_dir_def)
  ultimately show ?thesis using ok ch inv same unfolding chans_ok_def chan_set_chan
    by (auto simp del: buf_inv.simps split: if_splits)
qed

text \<open>
  A branch that has advanced: no channel shows anything else than before, and what has reached the disk
  of a channel is within the limit of a main index.
\<close>

definition grown :: "nat \<Rightarrow> channel \<Rightarrow> (nat \<times> bytes) list \<Rightarrow> alog \<Rightarrow> channel \<Rightarrow> (nat \<times> bytes) list \<Rightarrow> alog \<Rightarrow> bool" where
  "grown tail ch sh a ch' sh' a' \<longleftrightarrow> ch_kind ch' = ch_kind ch \<and> sh' = sh \<and>
     (\<exists>ys. visible a' = visible a @ ys \<and> (\<forall>y\<in>set ys. main_lt (snd y) \<le> cut_limit ch tail))"

definition advanced :: "nat \<Rightarrow> xwal \<Rightarrow> (string \<Rightarrow> alog) \<Rightarrow> xwal \<Rightarrow> (string \<Rightarrow> alog) \<Rightarrow> bool" where
  "advanced tail x A x' A' \<longleftrightarrow> x_main x' = x_main x \<and> chan x' (x_main x) = chan x (x_main x) \<and> A' (x_main x) = A (x_main x) \<and>
     (\<forall>n. case chan x n of None \<Rightarrow> chan x' n = None | Some ch \<Rightarrow>
        (\<exists>ch'. chan x' n = Some ch' \<and> grown tail ch (chan_shows A n ch) (A n) ch' (chan_shows A' n ch') (A' n)))"

lemma grown_refl: "grown tail ch sh a ch sh a"
  by (simp add: grown_def)

lemma cut_limit_kind: "ch_kind ch' = ch_kind ch \<Longrightarrow> cut_limit ch' tail = cut_limit ch tail"
  by (simp add: cut_limit_def)

lemma grown_trans: "grown tail c1 s1 a1 c2 s2 a2 \<Longrightarrow> grown tail c2 s2 a2 c3 s3 a3 \<Longrightarrow> grown tail c1 s1 a1 c3 s3 a3"
  using cut_limit_kind [of c2 c1 tail] by (fastforce simp: grown_def)

lemma advanced_refl: "advanced tail x A x A"
  by (auto simp: advanced_def grown_refl split: option.split)

lemma advanced_case:
  assumes "advanced tail x A x' A'"
  shows "case chan x n of None \<Rightarrow> chan x' n = None | Some ch \<Rightarrow>
    (\<exists>ch'. chan x' n = Some ch' \<and> grown tail ch (chan_shows A n ch) (A n) ch' (chan_shows A' n ch') (A' n))"
  using assms unfolding advanced_def by (elim conjE) (erule spec)

lemma advancedD:
  assumes "advanced tail x A x' A'" "chan x n = Some ch"
  obtains ch' where "chan x' n = Some ch'" "grown tail ch (chan_shows A n ch) (A n) ch' (chan_shows A' n ch') (A' n)"
  using advanced_case [OF assms(1), of n] assms(2) by auto

lemma advanced_trans:
  assumes "advanced tail x1 A1 x2 A2" "advanced tail x2 A2 x3 A3"
  shows "advanced tail x1 A1 x3 A3"
proof -
  have "case chan x1 n of None \<Rightarrow> chan x3 n = None | Some ch \<Rightarrow>
      (\<exists>ch'. chan x3 n = Some ch' \<and> grown tail ch (chan_shows A1 n ch) (A1 n) ch' (chan_shows A3 n ch') (A3 n))" for n
  proof (cases "chan x1 n")
    case None
    then have "chan x2 n = None" using advanced_case [OF assms(1), of n] by simp
    then show ?thesis using None advanced_case [OF assms(2), of n] by simp
  next
    case (Some c1)
    then obtain c2 where c2: "chan x2 n = Some c2" "grown tail c1 (chan_shows A1 n c1) (A1 n) c2 (chan_shows A2 n c2) (A2 n)"
      using advancedD [OF assms(1)] by blast
    obtain c3 where "chan x3 n = Some c3" "grown tail c2 (chan_shows A2 n c2) (A2 n) c3 (chan_shows A3 n c3) (A3 n)"
      using advancedD [OF assms(2) c2(1)] by blast
    then show ?thesis using Some grown_trans [OF c2(2)] by simp
  qed
  then show ?thesis using assms by (simp add: advanced_def)
qed

text \<open>One channel's turn.\<close>

lemma coherent_turn:
  assumes ok: "chans_ok k w x A" and ch: "chan x n = Some ch" and n: "n \<noteq> x_main x" and key: "keyed (chan_shows A n ch)"
    and t: "coherentTarget w ch tail = (rt, ch1)"
  shows "\<exists>t. rt = Inr t \<and> (\<forall>r w' x'. sync_chan w (set_chan n ch1 x) n t = (r, w', x') \<longrightarrow>
    (\<exists>A'. chans_ok k w' x' A' \<and> advanced tail x A x' A' \<and>
      (r = Inr () \<longrightarrow> (\<forall>y\<in>set (chan_shows A n ch). main_lt (snd y) \<le> cut_limit ch tail \<longrightarrow> y \<in> set (visible (A' n))))))"
proof -
  have inv: "buf_inv k (w, ch_log ch, Idle) (A n)" using ok ch by (simp add: chans_ok_def)
  obtain t l1 where tl: "rt = Inr t" "ch1 = ch\<lparr>ch_log := l1\<rparr>" "buf_inv k (w, l1, Idle) (A n)" "b_pend l1 = b_pend (ch_log ch)"
    "cfgs (b_inner l1) = cfgs (b_inner (ch_log ch))" "t < u64_max"
    "\<forall>p. pv_some (b_pend (ch_log ch)) = Some p \<longrightarrow>
       (\<forall>i<length (pv_entries p). main_lt (pv_entries p ! i) \<le> cut_limit ch tail \<longleftrightarrow> pv_first p + i \<le> t)"
    using coherentTarget_cut [OF inv key t] by blast
  have "\<exists>A'. chans_ok k w' x' A' \<and> advanced tail x A x' A' \<and>
      (r = Inr () \<longrightarrow> (\<forall>y\<in>set (chan_shows A n ch). main_lt (snd y) \<le> cut_limit ch tail \<longrightarrow> y \<in> set (visible (A' n))))"
    if sc: "sync_chan w (set_chan n ch1 x) n t = (r, w', x')" for r w' x'
  proof -
    obtain l2 where s: "blog_SyncThrough w l1 t = (r, w', l2)" "x' = set_chan n (ch\<lparr>ch_log := l2\<rparr>) (set_chan n ch1 x)"
      using sc tl(2) by (auto simp: sync_chan_def chan_set_chan split: prod.splits)
    have cut: "main_lt (pv_entries p ! i) \<le> cut_limit ch tail \<longleftrightarrow> pv_first p + i \<le> t"
      if "pv_some (b_pend l1) = Some p" "i < length (pv_entries p)" for p i
      using tl(4,7) that by simp
    obtain a' ys where a': "buf_inv k (w', l2, Idle) a'" "shown a' (b_pend l2) = shown (A n) (b_pend l1)"
      "visible a' = visible (A n) @ ys" "\<forall>y\<in>set ys. main_lt (snd y) \<le> cut_limit ch tail"
      "r = Inr () \<longrightarrow> (\<forall>y\<in>set (shown (A n) (b_pend l1)). main_lt (snd y) \<le> cut_limit ch tail \<longrightarrow> y \<in> set (visible a'))"
      using sync_cut [OF tl(3,6) s(1) cut] by blast
    have sm: "dirs (b_inner l2) = dirs (b_inner (ch_log ch))" "only_in (own_dir ch) w w'"
      using sync_same [OF tl(3) less_imp_le [OF tl(6)] s(1)] cfgs_same [OF tl(5)] same_log_dirs [of w "b_inner l1" w' "b_inner l2"]
      by (auto simp: own_dir_def)
    have x': "chan x' m = chan (set_chan n (ch\<lparr>ch_log := l2\<rparr>) x) m" for m using s(2) by (simp add: chan_set_chan)
    have "chans_ok k w' (set_chan n (ch\<lparr>ch_log := l2\<rparr>) x) (A(n := a'))"
      using chans_ok_update [OF ok ch, of w' "ch\<lparr>ch_log := l2\<rparr>" a'] a'(1) sm by simp
    then have "chans_ok k w' x' (A(n := a'))" by (simp add: chans_ok_def x')
    moreover have "advanced tail x A x' (A(n := a'))"
      using n ch a' s(2) tl(4) unfolding advanced_def x' chan_set_chan
      by (auto simp: grown_def split: option.split)
    ultimately show ?thesis using a'(5) tl(4) by (intro exI [of _ "A(n := a')"]) simp
  qed
  then show ?thesis using tl(1) by blast
qed

lemma coherent_names_cut:
  assumes "chans_ok k w x A" "coherent_names w x tail names = (r, w', x')"
    "\<And>n. n \<in> set names \<Longrightarrow> n \<noteq> x_main x \<Longrightarrow> \<exists>ch. chan x n = Some ch \<and> keyed (chan_shows A n ch)"
  shows "\<exists>A'. chans_ok k w' x' A' \<and> advanced tail x A x' A' \<and> (r = Inr () \<longrightarrow>
    (\<forall>n\<in>set names. n \<noteq> x_main x \<longrightarrow> (\<forall>ch. chan x n = Some ch \<longrightarrow>
       (\<forall>y\<in>set (chan_shows A n ch). main_lt (snd y) \<le> cut_limit ch tail \<longrightarrow> y \<in> set (visible (A' n))))))"
  using assms
proof (induction names arbitrary: w x A)
  case Nil
  then show ?case using advanced_refl by auto
next
  case (Cons n ns)
  show ?case
  proof (cases "n = x_main x")
    case True
    then show ?thesis using Cons.IH [OF Cons.prems(1)] Cons.prems(2,3) by simp
  next
    case n: False
    then obtain ch where ch: "chan x n = Some ch" "keyed (chan_shows A n ch)" using Cons.prems(3) [of n] by auto
    obtain rt ch1 where t: "coherentTarget w ch tail = (rt, ch1)" by fastforce
    obtain t where rt: "rt = Inr t" using coherent_turn [OF Cons.prems(1) ch(1) n ch(2) t] by blast
    obtain r1 w1 x1 where s: "sync_chan w (set_chan n ch1 x) n t = (r1, w1, x1)" by (metis prod_cases3)
    obtain A1 where A1: "chans_ok k w1 x1 A1" "advanced tail x A x1 A1"
      "r1 = Inr () \<longrightarrow> (\<forall>y\<in>set (chan_shows A n ch). main_lt (snd y) \<le> cut_limit ch tail \<longrightarrow> y \<in> set (visible (A1 n)))"
      using coherent_turn [OF Cons.prems(1) ch(1) n ch(2) t] rt s by blast
    show ?thesis
    proof (cases r1)
      case (Inl e)
      then have "r = Inl e" "w' = w1" "x' = x1" using Cons.prems(2) n ch(1) t rt s by simp_all
      then show ?thesis using A1(1,2) by auto
    next
      case (Inr u)
      then have rest: "coherent_names w1 x1 tail ns = (r, w', x')" using Cons.prems(2) n ch(1) t rt s by simp
      have mn: "x_main x1 = x_main x" using A1(2) by (simp add: advanced_def)
      have "\<exists>ch. chan x1 m = Some ch \<and> keyed (chan_shows A1 m ch)" if m: "m \<in> set ns" "m \<noteq> x_main x1" for m
      proof -
        obtain c where c: "chan x m = Some c" "keyed (chan_shows A m c)" using Cons.prems(3) [of m] m mn by auto
        then show ?thesis using advancedD [OF A1(2) c(1)] by (metis grown_def)
      qed
      from Cons.IH [OF A1(1) rest this] obtain A' where A': "chans_ok k w' x' A'" "advanced tail x1 A1 x' A'"
        and all: "r = Inr () \<longrightarrow> (\<forall>n\<in>set ns. n \<noteq> x_main x1 \<longrightarrow> (\<forall>ch. chan x1 n = Some ch \<longrightarrow>
          (\<forall>y\<in>set (chan_shows A1 n ch). main_lt (snd y) \<le> cut_limit ch tail \<longrightarrow> y \<in> set (visible (A' n)))))" by blast
      have more: "y \<in> set (visible (A' n))" if "y \<in> set (visible (A1 n))" for y
      proof -
        obtain c1 where "chan x1 n = Some c1" using advancedD [OF A1(2) ch(1)] by blast
        then show ?thesis using advancedD [OF A'(2)] that by (metis grown_def Un_iff set_append)
      qed
      have "y \<in> set (visible (A' m))"
        if r: "r = Inr ()" and m: "m \<in> set (n # ns)" "m \<noteq> x_main x" "chan x m = Some c" "y \<in> set (chan_shows A m c)"
          "main_lt (snd y) \<le> cut_limit c tail" for m c y
      proof (cases "m \<in> set ns")
        case True
        obtain c1 where c1: "chan x1 m = Some c1" "ch_kind c1 = ch_kind c" "chan_shows A1 m c1 = chan_shows A m c"
          using advancedD [OF A1(2) m(3)] by (metis grown_def)
        then show ?thesis using all r True m mn cut_limit_kind [OF c1(2), of tail] by simp
      next
        case False
        then have "m = n" using m(1) by simp
        then show ?thesis using A1(3) Inr m ch(1) more by simp
      qed
      then show ?thesis using A'(1) advanced_trans [OF A1(2) A'(2)] by blast
    qed
  qed
qed

text \<open>The main channel's turn.\<close>

lemma main_turn:
  assumes "chans_ok k w x A" "chan x (x_main x) = Some main" "blog_Sync w (ch_log main) = (r, w', l')"
  shows "\<exists>a'. chans_ok k w' (set_chan (x_main x) (main\<lparr>ch_log := l'\<rparr>) x) (A(x_main x := a')) \<and>
    shown a' (b_pend l') = chan_shows A (x_main x) main \<and> (r = Inr () \<longrightarrow> visible a' = chan_shows A (x_main x) main)"
proof -
  let ?m = "x_main x"
  have inv: "buf_inv k (w, ch_log main, Idle) (A ?m)" using assms(1,2) by (simp add: chans_ok_def)
  have s: "blog_SyncThrough w (ch_log main) u64_max = (r, w', l')" using assms(3) by (simp add: blog_Sync_def)
  obtain a' qs where a': "buf_inv k (w', l', Idle) a'" "shown a' (b_pend l') = chan_shows A ?m main"
    "r = Inr () \<and> (\<forall>p. pv_some (b_pend l') = Some p \<longrightarrow> u64_max < pv_first p) \<or> r = Inl ErrPayloadTooLarge"
    using sync_through [OF inv _ s] by blast
  have sm: "dirs (b_inner l') = dirs (b_inner (ch_log main))" "only_in (own_dir main) w w'"
    using sync_same [OF inv _ s] same_log_dirs by (auto simp: own_dir_def)
  have "pv_some (b_pend l') = None" if "r = Inr ()"
  proof (rule ccontr)
    assume "pv_some (b_pend l') \<noteq> None"
    then obtain p where p: "pv_some (b_pend l') = Some p" by blast
    then have "u64_max < pv_first p" using a'(3) that by auto
    then show False using a'(1) p by (simp add: buf_ok_def)
  qed
  then have "r = Inr () \<longrightarrow> visible a' = chan_shows A ?m main" using a'(2) by (auto simp: shown_def)
  then show ?thesis
    using chans_ok_update [OF assms(1,2), of w' "main\<lparr>ch_log := l'\<rparr>" a'] a'(1,2) sm by (intro exI [of _ a']) simp
qed


section \<open>A small branch\<close>

text \<open>A main channel and a related one, each with records in its buffer, in two empty directories.\<close>

definition pair_sys :: sys where
  "pair_sys = \<lparr>files = [([''ir''], Dir), ([''board''], Dir)], cacheLimit = 100\<rparr>"

definition pair_log :: "string \<Rightarrow> bytes list \<Rightarrow> blog" where
  "pair_log dir es = (new_blog (DLog (fresh_log [dir] small_opts BinaryCodec 0) None) False 100)
     \<lparr>b_pend := Some \<lparr>pv_first = 1, pv_entries = es\<rparr>\<rparr>"

definition pair_chan :: "string \<Rightarrow> bytes list \<Rightarrow> channel" where
  "pair_chan name es = \<lparr>ch_name = name, ch_kind = ChannelLog, ch_rname = [], ch_dir = [name], ch_log = pair_log name es,
     ch_opaque = False, ch_unkeyed = False, ch_fk = [], ch_fkBuilt = False, ch_fkNext = 0, ch_fkFloor = 0, ch_fkScan = False\<rparr>"

definition pair_frame :: "nat \<Rightarrow> bytes" where
  "pair_frame m = encodeFrame m (bytes_of ''[1]'') [] 0"

definition pair_xwal :: xwal where
  "pair_xwal = \<lparr>x_root = [], x_main = ''ir'', x_order = [''ir'', ''board''],
     x_chans = [(''ir'', pair_chan ''ir'' [pair_frame 1]), (''board'', pair_chan ''board'' [pair_frame 1, pair_frame 2])],
     x_lastTS = 0, x_unstampedRecords = False\<rparr>"

lemma pair_inv:
  assumes "dir \<in> {''ir'', ''board''}" "es \<noteq> []" "length es < 9" "list_all (stableOf Binary) es"
  shows "buf_inv Binary (pair_sys, pair_log dir es, Idle) (ALog [] None 0 None)"
    "shown (ALog [] None 0 None) (b_pend (pair_log dir es)) = enumerate 1 es"
proof -
  have st: "stat pair_sys [dir] = Some Dir" "\<not> (stat pair_sys [dir, n] \<noteq> None)" for n
    using assms(1) by (auto simp: pair_sys_def stat_def)
  then have "in_order Binary pair_sys (DLog (fresh_log [dir] small_opts BinaryCodec 0) None) (ALog [] None 0 None)"
    by (auto simp: own_rep_def active_rep_iff dir_rep_def fresh_log_def BinaryCodec_def knownExts_def u64_simps all_segs_def)
  moreover have "hasSubdirs pair_sys [dir] = Inr False" using st by (simp add: hasSubdirs_dir)
  moreover have "\<not> l_readOnly (fresh_log [dir] small_opts BinaryCodec 0)" "l_dir (fresh_log [dir] small_opts BinaryCodec 0) = [dir]"
    "OnSegmentOpen (l_opts (fresh_log [dir] small_opts BinaryCodec 0)) = None"
    by (simp_all add: fresh_log_def small_opts_def)
  ultimately have "writable Binary pair_sys (DLog (fresh_log [dir] small_opts BinaryCodec 0) None) (ALog [] None 0 None)"
    by (simp del: log_ok.simps)
  moreover have "buf_ok (ALog [] None 0 None) (Some \<lparr>pv_first = 1, pv_entries = es\<rparr>)"
    using assms(2,3) by (simp add: buf_ok_def pv_some_def u64_simps)
  ultimately show "buf_inv Binary (pair_sys, pair_log dir es, Idle) (ALog [] None 0 None)"
    using assms(4) by (simp add: pair_log_def new_blog_def pending_def del: writable.simps)
  show "shown (ALog [] None 0 None) (b_pend (pair_log dir es)) = enumerate 1 es"
    using assms(2) by (simp add: pair_log_def shown_def pv_some_def)
qed

lemma pair_frame_parts:
  "m < u64_lim \<Longrightarrow> frame_ok_parts m (Inl (JArr [JNum (bytes_of ''1'')])) 0 None []"
  "frame_args (bytes_of ''[1]'') [] False (Inl (JArr [JNum (bytes_of ''1'')])) None"
proof -
  let ?v = "JArr [JNum (bytes_of ''1'')]"
  have v: "jwf ?v" "show_json ?v = bytes_of ''[1]''" by code_simp+
  show "m < u64_lim \<Longrightarrow> frame_ok_parts m (Inl ?v) 0 None []"
    using v by (simp add: frame_ok_parts_def maxNestingDepth_def del: bytes_of_simps)
  have "json_Valid (show_json ?v)" using v by (intro json_Valid_show) (simp add: jvalid_def maxNestingDepth_def)
  then show "frame_args (bytes_of ''[1]'') [] False (Inl ?v) None"
    unfolding v(2) by (simp add: frame_args_def embedJSON_def)
qed

lemma pair_frame_main: "m < u64_lim \<Longrightarrow> decodeMainLT (pair_frame m) = Inr m"
  using decodeMainLT_encoded [OF pair_frame_parts(1) pair_frame_parts(2)] by (simp add: pair_frame_def encodeFrame_def encodeChannelFrame_def)

lemma pair_frame_length: "m \<in> {1, 2} \<Longrightarrow> length (pair_frame m) < 100"
proof -
  assume m: "m \<in> {1, 2}"
  have v: "show_json (JArr [JNum (bytes_of ''1'')]) = bytes_of ''[1]''" by code_simp
  have d: "length (dec m) = 1" using m by (subst dec.simps) auto
  have "pair_frame m = mPrefix @ bytes_of (dec m) @ body_text (Inl (JArr [JNum (bytes_of ''1'')])) @ rest_text 0 None []"
    unfolding pair_frame_def encodeFrame_def encodeChannelFrame_def using m by (intro encode_text pair_frame_parts) auto
  then show ?thesis
    using d v by (simp add: mPrefix_def body_text_def pPrefix_def rest_text_def meta_text_def)
qed

lemma pair_frame_stable: "m \<in> {1, 2} \<Longrightarrow> stableOf Binary (pair_frame m)"
  using pair_frame_length [of m] by (simp add: bin_stable_def)

lemma pair_chans:
  "chans_ok Binary pair_sys pair_xwal (\<lambda>_. ALog [] None 0 None)" "x_main pair_xwal = ''ir''"
  "x_order pair_xwal = [''ir'', ''board'']"
  "chan pair_xwal ''ir'' = Some (pair_chan ''ir'' [pair_frame 1])"
  "chan pair_xwal ''board'' = Some (pair_chan ''board'' [pair_frame 1, pair_frame 2])"
proof -
  have st: "list_all (stableOf Binary) [pair_frame 1]" "list_all (stableOf Binary) [pair_frame 1, pair_frame 2]"
    using pair_frame_stable by simp_all
  have inv: "buf_inv Binary (pair_sys, ch_log ch, Idle) (ALog [] None 0 None)" if "chan pair_xwal n = Some ch" for n ch
    using that pair_inv(1) [OF _ _ _ st(1), of "''ir''"] pair_inv(1) [OF _ _ _ st(2), of "''board''"]
    by (auto simp: pair_xwal_def pair_chan_def simp del: buf_inv.simps split: if_splits)
  have dirs: "dirs (b_inner (ch_log ch)) = [[n]]" if "chan pair_xwal n = Some ch" for n ch
    using that by (auto simp: pair_xwal_def pair_chan_def pair_log_def new_blog_def fresh_log_def split: if_splits)
  show "chans_ok Binary pair_sys pair_xwal (\<lambda>_. ALog [] None 0 None)"
    using inv dirs unfolding chans_ok_def own_dir_def by simp
qed (simp_all add: pair_xwal_def)

lemma pair_shows:
  "chan_shows (\<lambda>_. ALog [] None 0 None) ''board'' (pair_chan ''board'' [pair_frame 1, pair_frame 2]) = [(1, pair_frame 1), (2, pair_frame 2)]"
  "chan_shows (\<lambda>_. ALog [] None 0 None) ''ir'' (pair_chan ''ir'' [pair_frame 1]) = [(1, pair_frame 1)]"
  "keyed [(1, pair_frame 1), (2, pair_frame 2)]"
  by (simp_all add: pair_chan_def pair_log_def shown_def pv_some_def keyed_def main_lt_def pair_frame_main u64_simps)


end
