(* ===== verification/Channels_Lookup.thy ===== *)
theory Channels_Lookup
  imports Channels_Spec
begin

text \<open>
  Finding records of a channel: the scan of a buffered log from its end, the index by main record as a
  lazily extended table of the newest records, the record an append leaves behind, and the records from a
  main index on.
\<close>

section \<open>Scanning a buffered log\<close>

lemma scan_loop_cfg: "cfg (snd (scan_loop w fn is st l)) = cfg l"
proof (induction "is" arbitrary: st l)
  case (Cons i "is")
  have "cfg l' = cfg l" if "findSegmentLocked w l i = (r, l')" for r l' using findSegmentLocked_cfg [of w l i] that by simp
  then show ?case using Cons.IH by (auto split: prod.split sum.split option.split)
qed simp

lemma disk_ScanFromEnd_cfgs: "cfgs (snd (disk_ScanFromEnd w fn from st d)) = cfgs d"
proof (induction d arbitrary: "from" st)
  case (DLog l pa)
  have own: "cfg l' = cfg l" if "own_ScanFromEnd w fn from st l = (r, l')" for r l'
    using scan_loop_cfg [of w fn _ st l] that by (auto simp: own_ScanFromEnd_def simp del: upt_Suc split: if_splits) (metis snd_conv)
  show ?case
  proof (cases pa)
    case None
    then show ?thesis using own by (auto split: prod.split option.split bool.split)
  next
    case (Some p)
    have IH: "cfgs p' = cfgs p" if "disk_ScanFromEnd w fn i s p = (r, p')" for i s r p'
      using DLog.IH [of p i s] Some that by simp
    show ?thesis using own IH by (auto simp: Some split: prod.split option.split bool.split)
  qed
qed

lemma visible_pos: "represents k w d a \<Longrightarrow> x \<in> set (visible a) \<Longrightarrow> 1 \<le> fst x"
proof (induction d arbitrary: a)
  case (DLog l pa)
  obtain segs act fb pb where a: "a = ALog segs act fb pb" by (cases a)
  have rep: "own_rep (codecOf k) (frameOf k) w l segs act" using DLog.prems(1) a by simp
  have own: "1 \<le> fst x" if mem: "x \<in> set (entries (all_segs segs act))"
  proof -
    obtain i p where x: "x = (i, p)" by (cases x)
    then obtain q where "map_of (entries (all_segs segs act)) i = Some q" using mem weak_map_of_SomeI [of i p] by blast
    then obtain b hs ps where "(b, hs, ps) \<in> set (all_segs segs act)" "b \<le> i" by (rule map_of_entries_SomeD)
    then show ?thesis using own_rep_wf [OF rep] x by (fastforce simp: seg_wf_def)
  qed
  show ?case
  proof (cases pb)
    case None
    then show ?thesis using own DLog.prems(2) a by simp
  next
    case (Some q)
    then obtain p where "pa = Some p" "represents k w p q" using DLog.prems(1) a by (auto split: option.splits)
    then show ?thesis using DLog.IH own DLog.prems(2) a Some by auto
  qed
qed

lemma pend_scan_iterE:
  assumes "\<And>i. i \<in> set is \<Longrightarrow> pv_first p \<le> i \<and> i < pv_first p + length (pv_entries p)"
  shows "pend_scan p fn is st = iterE fn st (map (\<lambda>i. (i, pv_entries p ! (i - pv_first p))) is)"
  using assms
proof (induction "is" arbitrary: st)
  case (Cons i "is")
  then have "pv_first p \<le> i" "i < pv_first p + length (pv_entries p)" by auto
  then have "pv_at (Some p) i = Some (pv_entries p ! (i - pv_first p))" by (auto simp: pv_at_def Let_def)
  then show ?case using Cons by (auto split: prod.split option.split)
qed simp

lemma enumerate_upto:
  "filter (\<lambda>x. fst x \<le> from) (enumerate f es) =
    map (\<lambda>i. (i, es ! (i - f))) [f..<min (Suc from) (f + length es)]"
proof -
  have "filter (\<lambda>x. fst x \<le> from) (enumerate f es) = enumerate f (take (Suc from - f) es)"
    using filter_enumerate_lt [of "Suc from" f es] by (simp add: less_Suc_eq_le)
  also have "\<dots> = map (\<lambda>i. (i, es ! (i - f))) [f..<f + min (length es) (Suc from - f)]"
    by (rule nth_equalityI) (auto simp: nth_enumerate_eq)
  also have "[f..<f + min (length es) (Suc from - f)] = [f..<min (Suc from) (f + length es)]"
  proof (cases "f \<le> Suc from")
    case True
    then have "f + min (length es) (Suc from - f) = min (Suc from) (f + length es)" by auto
    then show ?thesis by simp
  qed simp
  finally show ?thesis .
qed

lemma disk_scan:
  assumes "represents k w d a" "own_above a"
  shows "\<exists>d'. disk_ScanFromEnd w fn from st d = (iterE fn st (rev (filter (\<lambda>x. fst x \<le> from) (visible a))), d') \<and>
    represents k w d' a \<and> cfgs d' = cfgs d"
  using any.disk_ScanFromEnd_rep [OF assms(1), of fn "from" st] a_ScanFromEnd_visible [OF assms(2), of fn "from" st]
    disk_ScanFromEnd_cfgs [of w fn "from" st d] by (metis snd_conv)

lemma scan_shown:
  assumes rep: "represents k w d a" and above: "own_above a" and ok: "buf_ok a po"
  shows "\<exists>d'. scanFromEndBounded w d from po fn st = (iterE fn st (rev (filter (\<lambda>x. fst x \<le> from) (shown a po))), d') \<and>
    represents k w d' a \<and> cfgs d' = cfgs d"
proof (cases "pv_some po")
  case None
  then have sh: "shown a po = visible a" by (simp add: shown_def)
  show ?thesis
  proof (cases "from = 0")
    case True
    then have "filter (\<lambda>x. fst x \<le> from) (visible a) = []" using visible_pos [OF rep] by (fastforce simp: filter_empty_conv)
    then show ?thesis using True rep sh by (intro exI [of _ d]) (simp add: scanFromEndBounded_def)
  next
    case False
    then show ?thesis using None disk_scan [OF rep above, of fn "from" st] sh by (simp add: scanFromEndBounded_def)
  qed
next
  case (Some p)
  let ?f = "pv_first p" and ?es = "pv_entries p"
  have p: "?es \<noteq> []" "1 \<le> ?f" "?f + length ?es < u64_max" using ok Some by (auto simp: buf_ok_def pv_some_iff)
  have lst: "Suc (pv_last p) = ?f + length ?es" using pv_last_eq [OF p(1,3)] p(1) by (cases ?es) auto
  have low: "filter (\<lambda>x. fst x \<le> from) (filter (\<lambda>x. fst x < ?f) (visible a)) = filter (\<lambda>x. fst x \<le> min from (?f - 1)) (visible a)"
    using p(2) by (auto intro!: filter_cong)
  show ?thesis
  proof (cases "?f \<le> from")
    case False
    have none: "filter (\<lambda>x. fst x \<le> from) (enumerate ?f ?es) = []" using False by (simp add: enumerate_upto)
    have "min from (?f - 1) = from" using False by simp
    then have sh: "filter (\<lambda>x. fst x \<le> from) (shown a po) = filter (\<lambda>x. fst x \<le> from) (visible a)"
      using low none Some by (simp add: shown_def)
    show ?thesis
    proof (cases "from = 0")
      case True
      then have "filter (\<lambda>x. fst x \<le> from) (visible a) = []" using visible_pos [OF rep] by (fastforce simp: filter_empty_conv)
      then show ?thesis using True rep sh by (intro exI [of _ d]) (simp add: scanFromEndBounded_def)
    next
      case from0: False
      then show ?thesis using Some False disk_scan [OF rep above, of fn "from" st] sh by (simp add: scanFromEndBounded_def)
    qed
  next
    case True
    let ?ix = "rev [?f..<Suc (min from (pv_last p))]"
    have ix: "Suc (min from (pv_last p)) = min (Suc from) (?f + length ?es)" using lst by auto
    have ps: "pend_scan p fn ?ix st = iterE fn st (rev (filter (\<lambda>x. fst x \<le> from) (enumerate ?f ?es)))"
      unfolding ix enumerate_upto rev_map by (rule pend_scan_iterE) auto
    have split: "rev (filter (\<lambda>x. fst x \<le> from) (shown a po)) =
        rev (filter (\<lambda>x. fst x \<le> from) (enumerate ?f ?es)) @ rev (filter (\<lambda>x. fst x \<le> ?f - 1) (visible a))"
      using low True Some by (simp add: shown_def)
    show ?thesis
    proof (cases "iterE fn st (rev (filter (\<lambda>x. fst x \<le> from) (enumerate ?f ?es)))")
      case (Pair st' e)
      show ?thesis
      proof (cases e)
        case e: (Some e')
        then show ?thesis using Some True p(2) ps Pair rep
          by (intro exI [of _ d]) (simp add: scanFromEndBounded_def split iterE_append del: upt_Suc)
      next
        case None
        show ?thesis
        proof (cases "?f - 1 = 0")
          case one: True
          then have "filter (\<lambda>x. fst x \<le> ?f - 1) (visible a) = []" using visible_pos [OF rep] by (fastforce simp: filter_empty_conv)
          then show ?thesis using Some True p(2) ps Pair rep None one
            by (intro exI [of _ d]) (simp add: scanFromEndBounded_def split iterE_append del: upt_Suc)
        next
          case False
          obtain d' where "disk_ScanFromEnd w fn (?f - 1) st' d = (iterE fn st' (rev (filter (\<lambda>x. fst x \<le> ?f - 1) (visible a))), d')"
            "represents k w d' a" "cfgs d' = cfgs d" using disk_scan [OF rep above, of fn "?f - 1" st'] by blast
          then show ?thesis using Some True p(2) ps Pair None False
            by (intro exI [of _ d']) (simp add: scanFromEndBounded_def split iterE_append del: upt_Suc)
        qed
      qed
    qed
  qed
qed

section \<open>The index by main record\<close>

text \<open>The newest record for a main index, by a search through all records.\<close>

definition newest :: "(nat \<times> bytes) list \<Rightarrow> nat \<Rightarrow> nat option" where
  "newest xs m = map_of (rev (map (\<lambda>x. (main_lt (snd x), fst x)) xs)) m"

lemma newest_append: "newest (ys @ zs) m = (case newest zs m of Some i \<Rightarrow> Some i | None \<Rightarrow> newest ys m)"
  by (auto simp: newest_def map_add_def split: option.split)

lemma newest_one [simp]: "newest [] m = None" "newest [y] m = (if main_lt (snd y) = m then Some (fst y) else None)"
  by (simp_all add: newest_def)

lemma newest_none: "newest xs m = None \<longleftrightarrow> (\<forall>x\<in>set xs. main_lt (snd x) \<noteq> m)"
  by (force simp: newest_def map_of_eq_None_iff image_iff)

lemma newest_Cons: "newest (y # zs) m = (case newest zs m of Some i \<Rightarrow> Some i | None \<Rightarrow> if main_lt (snd y) = m then Some (fst y) else None)"
  using newest_append [of "[y]" zs m] by (auto split: option.split)

text \<open>
  What the index of a channel holds: nothing before the first lookup; then the newest records of the part
  that was scanned, from the oldest record scanned on; at last, of all records.
\<close>

definition index_ok :: "(nat \<times> bytes) list \<Rightarrow> channel \<Rightarrow> bool" where
  "index_ok xs ch \<longleftrightarrow>
     (if ch_fkBuilt ch then map_of (ch_fk ch) = newest xs
      else if ch_fkScan ch then
        (\<exists>ys y zs. xs = ys @ y # zs \<and> map_of (ch_fk ch) = newest (y # zs) \<and> ch_fkFloor ch = main_lt (snd y) \<and> ch_fkNext ch = fst y - 1)
      else ch_fk ch = [])"

text \<open>Only the index changes.\<close>

definition reindexed :: "channel \<Rightarrow> channel \<Rightarrow> bool" where
  "reindexed ch ch' \<longleftrightarrow> ch' = ch\<lparr>ch_fk := ch_fk ch', ch_fkFloor := ch_fkFloor ch', ch_fkNext := ch_fkNext ch'\<rparr>"

lemma reindexed_refl: "reindexed ch ch"
  by (simp add: reindexed_def)

lemma reindexed_trans: "reindexed c1 c2 \<Longrightarrow> reindexed c2 c3 \<Longrightarrow> reindexed c1 c3"
  by (cases c1; cases c2; cases c3) (simp add: reindexed_def)

lemma reindexed_same:
  "reindexed ch ch' \<Longrightarrow> ch_log ch' = ch_log ch \<and> ch_fkScan ch' = ch_fkScan ch \<and> ch_fkBuilt ch' = ch_fkBuilt ch"
  by (cases ch; cases ch') (simp add: reindexed_def)

lemma index_step_reads:
  assumes "decodeMainLT (snd y) = Inr (main_lt (snd y))" "map_of (ch_fk ch) = newest zs" "1 \<le> fst y"
  shows "\<exists>ch'. index_step m (ch, b) y =
      ((ch', if main_lt (snd y) \<le> m then True else b), if main_lt (snd y) \<le> m then Some ErrStopRange else None) \<and>
    map_of (ch_fk ch') = newest (y # zs) \<and> ch_fkFloor ch' = main_lt (snd y) \<and> ch_fkNext ch' = fst y - 1 \<and> reindexed ch ch'"
proof -
  obtain i f where y: "y = (i, f)" by (cases y)
  define ch1 where "ch1 = (if map_of (ch_fk ch) (main_lt f) = None then ch\<lparr>ch_fk := AList.update (main_lt f) i (ch_fk ch)\<rparr> else ch)"
  define ch3 where "ch3 = ch1\<lparr>ch_fkFloor := main_lt f, ch_fkNext := i - 1\<rparr>"
  have "index_step m (ch, b) y = ((ch3, if main_lt f \<le> m then True else b), if main_lt f \<le> m then Some ErrStopRange else None)"
    using assms(1,3) by (simp add: index_step_def y ch1_def ch3_def Let_def)
  moreover have "map_of (ch_fk ch3) = newest (y # zs)"
    using assms(2) by (auto simp: ch3_def ch1_def y newest_Cons update_conv fun_eq_iff split: option.split)
  moreover have "reindexed ch ch3" by (simp add: reindexed_def ch3_def ch1_def)
  ultimately show ?thesis using y by (intro exI [of _ ch3]) (simp add: ch3_def)
qed

text \<open>The scan stops at the newest record not after the main index asked for, or reaches the end.\<close>

lemma index_scan:
  assumes "\<forall>y\<in>set ys. decodeMainLT (snd y) = Inr (main_lt (snd y)) \<and> 1 \<le> fst y" "map_of (ch_fk ch) = newest zs"
  shows "\<exists>ch'. reindexed ch ch' \<and>
    (iterE (index_step m) (ch, False) (rev ys) = ((ch', False), None) \<and> (\<forall>y\<in>set ys. m < main_lt (snd y)) \<and>
       map_of (ch_fk ch') = newest (ys @ zs) \<or>
     (\<exists>us y vs. iterE (index_step m) (ch, False) (rev ys) = ((ch', True), Some ErrStopRange) \<and> ys = us @ y # vs \<and>
       main_lt (snd y) \<le> m \<and> map_of (ch_fk ch') = newest (y # vs @ zs) \<and> ch_fkFloor ch' = main_lt (snd y) \<and> ch_fkNext ch' = fst y - 1))"
  using assms
proof (induction ys arbitrary: ch zs rule: rev_induct)
  case Nil
  then show ?case using reindexed_refl by auto
next
  case (snoc y ys)
  obtain ch1 where c1: "index_step m (ch, False) y =
      ((ch1, if main_lt (snd y) \<le> m then True else False), if main_lt (snd y) \<le> m then Some ErrStopRange else None)"
    "map_of (ch_fk ch1) = newest (y # zs)" "ch_fkFloor ch1 = main_lt (snd y)" "ch_fkNext ch1 = fst y - 1" "reindexed ch ch1"
    using index_step_reads [of y ch zs m False] snoc.prems by auto
  show ?case
  proof (cases "main_lt (snd y) \<le> m")
    case True
    have "iterE (index_step m) (ch, False) (rev (ys @ [y])) = ((ch1, True), Some ErrStopRange)" using c1(1) True by simp
    moreover have "ys @ [y] = ys @ y # []" "map_of (ch_fk ch1) = newest (y # [] @ zs)" using c1(2) by simp_all
    ultimately show ?thesis using True c1(3-5) by blast
  next
    case False
    then have it: "iterE (index_step m) (ch, False) (rev (ys @ [y])) = iterE (index_step m) (ch1, False) (rev ys)" using c1(1) by simp
    have ys: "\<forall>y\<in>set ys. decodeMainLT (snd y) = Inr (main_lt (snd y)) \<and> 1 \<le> fst y" using snoc.prems(1) by simp
    obtain ch' where ch': "reindexed ch1 ch'"
      and out: "iterE (index_step m) (ch1, False) (rev ys) = ((ch', False), None) \<and> (\<forall>y\<in>set ys. m < main_lt (snd y)) \<and>
         map_of (ch_fk ch') = newest (ys @ y # zs) \<or>
       (\<exists>us z vs. iterE (index_step m) (ch1, False) (rev ys) = ((ch', True), Some ErrStopRange) \<and> ys = us @ z # vs \<and>
         main_lt (snd z) \<le> m \<and> map_of (ch_fk ch') = newest (z # vs @ y # zs) \<and> ch_fkFloor ch' = main_lt (snd z) \<and> ch_fkNext ch' = fst z - 1)"
      using snoc.IH [OF ys c1(2)] by blast
    from out show ?thesis
    proof (elim disjE exE conjE)
      assume "iterE (index_step m) (ch1, False) (rev ys) = ((ch', False), None)" "\<forall>y\<in>set ys. m < main_lt (snd y)"
        "map_of (ch_fk ch') = newest (ys @ y # zs)"
      then show ?thesis using it reindexed_trans [OF c1(5) ch'] False by (intro exI [of _ ch']) auto
    next
      fix us z vs
      assume z: "iterE (index_step m) (ch1, False) (rev ys) = ((ch', True), Some ErrStopRange)" "ys = us @ z # vs"
        "main_lt (snd z) \<le> m" "map_of (ch_fk ch') = newest (z # vs @ y # zs)" "ch_fkFloor ch' = main_lt (snd z)" "ch_fkNext ch' = fst z - 1"
      then have "ys @ [y] = us @ z # (vs @ [y])" "map_of (ch_fk ch') = newest (z # (vs @ [y]) @ zs)" by simp_all
      then show ?thesis using it z reindexed_trans [OF c1(5) ch'] by metis
    qed
  qed
qed

text \<open>A scan over records that are indexed already.\<close>

lemma index_rescan:
  assumes "\<forall>y\<in>set ys. decodeMainLT (snd y) = Inr (main_lt (snd y)) \<and> m < main_lt (snd y) \<and> map_of (ch_fk ch) (main_lt (snd y)) \<noteq> None"
  shows "\<exists>ch'. reindexed ch ch' \<and> iterE (index_step m) (ch, False) ys = ((ch', False), None) \<and> ch_fk ch' = ch_fk ch"
  using assms
proof (induction ys arbitrary: ch)
  case Nil
  then show ?case using reindexed_refl by auto
next
  case (Cons y ys)
  define ch1 where "ch1 = (if fst y > 0 then ch\<lparr>ch_fkFloor := main_lt (snd y), ch_fkNext := fst y - 1\<rparr> else ch\<lparr>ch_fkFloor := main_lt (snd y)\<rparr>)"
  have s: "index_step m (ch, False) y = ((ch1, False), None)"
    using Cons.prems by (cases y) (auto simp: index_step_def ch1_def Let_def)
  have c: "reindexed ch ch1" "ch_fk ch1 = ch_fk ch" by (simp_all add: ch1_def reindexed_def)
  obtain ch' where "reindexed ch1 ch'" "iterE (index_step m) (ch1, False) ys = ((ch', False), None)" "ch_fk ch' = ch_fk ch1"
    using Cons.IH [of ch1] Cons.prems c(2) by auto
  then show ?case using s c reindexed_trans [OF c(1)] by (intro exI [of _ ch']) simp
qed

lemma shown_sorted:
  assumes "buf_inv k (w, l, ph) a"
  shows "sorted_wrt (<) (map fst (shown a (b_pend l)))" "\<forall>x\<in>set (shown a (b_pend l)). 1 \<le> fst x"
proof -
  have wr: "writable k w (b_inner l) a" and ok: "buf_ok a (b_pend l)" using assms by auto
  have v: "sorted_wrt (<) (map fst (visible a))"
    using visible_sorted [OF dlog_rep_chains [OF writable_represents [OF wr]]] by (simp add: strict_sorted_iff)
  have vf: "sorted_wrt (<) (map fst (filter P (visible a)))" for P
    using v by (simp add: sorted_wrt_map sorted_wrt_filter)
  have vp: "1 \<le> fst x" if "x \<in> set (visible a)" for x using visible_pos [OF writable_represents [OF wr] that] .
  have "sorted_wrt (<) (map fst (shown a (b_pend l))) \<and> (\<forall>x\<in>set (shown a (b_pend l)). 1 \<le> fst x)"
  proof (cases "pv_some (b_pend l)")
    case None
    then show ?thesis using v vp by (simp add: shown_def)
  next
    case (Some p)
    have "sorted_wrt (<) (map fst (enumerate (pv_first p) (pv_entries p)))" by (simp add: sorted_wrt_upt)
    moreover have "1 \<le> pv_first p" using ok Some by (simp add: buf_ok_def)
    ultimately show ?thesis using Some vf vp
      by (auto simp: shown_def sorted_wrt_append in_set_enumerate_eq simp del: map_fst_enumerate)
  qed
  then show "sorted_wrt (<) (map fst (shown a (b_pend l)))" "\<forall>x\<in>set (shown a (b_pend l)). 1 \<le> fst x" by blast+
qed

lemma blog_scan:
  assumes inv: "buf_inv k (w, l, Idle) a" and above: "own_above a" and s: "blog_ScanFromEnd w l from fn st = (r, l')"
  shows "r = iterE fn st (rev (filter (\<lambda>x. from = 0 \<or> fst x \<le> from) (shown a (b_pend l))))"
    "buf_inv k (w, l', Idle) a" "b_pend l' = b_pend l" "cfgs (b_inner l') = cfgs (b_inner l)"
proof -
  have wr: "writable k w (b_inner l) a" and ok: "buf_ok a (b_pend l)" using inv by auto
  note rep = writable_represents [OF wr]
  let ?lst = "blog_LastIndex l" and ?from = "if from = 0 \<or> from > blog_LastIndex l then blog_LastIndex l else from"
  obtain d' where d': "scanFromEndBounded w (b_inner l) ?from (b_pend l) fn st =
      (iterE fn st (rev (filter (\<lambda>x. fst x \<le> ?from) (shown a (b_pend l)))), d')" "represents k w d' a" "cfgs d' = cfgs (b_inner l)"
    using scan_shown [OF rep above ok, of ?from fn st] by (elim exE conjE)
  have e: "r = iterE fn st (rev (filter (\<lambda>x. fst x \<le> ?from) (shown a (b_pend l))))" "l' = l\<lparr>b_inner := d'\<rparr>"
    using s d'(1) by (auto simp: blog_ScanFromEnd_def Let_def)
  have "fst x \<le> ?lst" if "x \<in> set (shown a (b_pend l))" for x
    using shown_below_next [OF inv that] blog_LastIndex_next(1) [OF rep ok] by simp
  then have "filter (\<lambda>x. fst x \<le> ?from) (shown a (b_pend l)) = filter (\<lambda>x. from = 0 \<or> fst x \<le> from) (shown a (b_pend l))"
    by (intro filter_cong) force+
  then show "r = iterE fn st (rev (filter (\<lambda>x. from = 0 \<or> fst x \<le> from) (shown a (b_pend l))))" using e(1) by simp
  show "buf_inv k (w, l', Idle) a" "b_pend l' = b_pend l" "cfgs (b_inner l') = cfgs (b_inner l)"
    using e(2) d'(3) writable_same [OF wr d'(2,3)] inv by (auto simp del: writable.simps)
qed

text \<open>A channel whose records all name a main record, in order, and whose index is right.\<close>

definition chan_inv :: "codec_kind \<Rightarrow> sys \<Rightarrow> channel \<Rightarrow> alog \<Rightarrow> bool" where
  "chan_inv k w ch a \<longleftrightarrow> buf_inv k (w, ch_log ch, Idle) a \<and> own_above a \<and> keyed (shown a (b_pend (ch_log ch))) \<and>
     index_ok (shown a (b_pend (ch_log ch))) ch"

lemma keyed_order:
  assumes "keyed (ys @ y # zs)" "x \<in> set ys"
  shows "main_lt (snd x) \<le> main_lt (snd y)"
  using assms by (auto simp: keyed_def sorted_append)

text \<open>The records before an indexed part do not matter for main indexes from its first one on.\<close>

lemma newest_suffix:
  assumes "keyed (ys @ y # zs)" "main_lt (snd y) \<le> m"
  shows "newest (ys @ y # zs) m = newest (y # zs) m"
proof (cases "newest (y # zs) m")
  case None
  then have "m \<noteq> main_lt (snd y)" by (simp add: newest_none)
  then have "main_lt (snd x) \<noteq> m" if "x \<in> set ys" for x using keyed_order [OF assms(1) that] assms(2) by auto
  then have "newest ys m = None" by (simp add: newest_none)
  then show ?thesis using None by (simp add: newest_append)
qed (simp add: newest_append)

lemma lookup_hit:
  assumes "keyed xs" "index_ok xs ch" "map_of (ch_fk ch) m = Some lt"
  shows "newest xs m = Some lt"
  using assms by (auto simp: index_ok_def newest_append newest_Cons split: if_splits option.splits)

lemma lookup_miss:
  assumes "keyed xs" "index_ok xs ch" "map_of (ch_fk ch) m = None" "ch_fkBuilt ch \<or> ch_fkScan ch \<and> ch_fkFloor ch \<le> m"
  shows "newest xs m = None"
proof (cases "ch_fkBuilt ch")
  case True
  then show ?thesis using assms(2,3) by (simp add: index_ok_def)
next
  case False
  then obtain ys y zs where s: "xs = ys @ y # zs" "map_of (ch_fk ch) = newest (y # zs)" "ch_fkFloor ch = main_lt (snd y)"
    using assms(2,4) by (auto simp: index_ok_def)
  then show ?thesis using newest_suffix [of ys y zs m] assms(1,3,4) False by simp
qed

text \<open>The scan of a lookup extends an index of the records from some point on.\<close>

lemma lookup_extend:
  assumes key: "keyed (ys @ zs)" and pos: "\<forall>x\<in>set ys. 1 \<le> fst x" and fk: "map_of (ch_fk ch) = newest zs"
    and st: "ch_fkScan ch" "\<not> ch_fkBuilt ch"
  shows "\<exists>ch' b. iterE (index_step m) (ch, False) (rev ys) = ((ch', b), if b then Some ErrStopRange else None) \<and> reindexed ch ch' \<and>
      map_of (ch_fk ch') m = newest (ys @ zs) m \<and> index_ok (ys @ zs) (if b then ch' else ch'\<lparr>ch_fkBuilt := True\<rparr>)"
proof -
  have "\<forall>y\<in>set ys. decodeMainLT (snd y) = Inr (main_lt (snd y)) \<and> 1 \<le> fst y" using key pos by (simp add: keyed_def)
  from index_scan [OF this fk, of m] obtain ch' where ch': "reindexed ch ch'"
    and out: "iterE (index_step m) (ch, False) (rev ys) = ((ch', False), None) \<and> (\<forall>y\<in>set ys. m < main_lt (snd y)) \<and>
       map_of (ch_fk ch') = newest (ys @ zs) \<or>
     (\<exists>us y vs. iterE (index_step m) (ch, False) (rev ys) = ((ch', True), Some ErrStopRange) \<and> ys = us @ y # vs \<and>
       main_lt (snd y) \<le> m \<and> map_of (ch_fk ch') = newest (y # vs @ zs) \<and> ch_fkFloor ch' = main_lt (snd y) \<and> ch_fkNext ch' = fst y - 1)"
    by blast
  note sm = reindexed_same [OF ch']
  from out show ?thesis
  proof (elim disjE exE conjE)
    assume "iterE (index_step m) (ch, False) (rev ys) = ((ch', False), None)" "map_of (ch_fk ch') = newest (ys @ zs)"
    then show ?thesis using ch' by (intro exI [of _ ch'] exI [of _ False]) (simp add: index_ok_def)
  next
    fix us y vs
    assume y: "iterE (index_step m) (ch, False) (rev ys) = ((ch', True), Some ErrStopRange)" "ys = us @ y # vs" "main_lt (snd y) \<le> m"
      "map_of (ch_fk ch') = newest (y # vs @ zs)" "ch_fkFloor ch' = main_lt (snd y)" "ch_fkNext ch' = fst y - 1"
    have e: "ys @ zs = us @ y # (vs @ zs)" using y(2) by simp
    have "newest (ys @ zs) m = newest (y # vs @ zs) m" unfolding e using newest_suffix [of us y "vs @ zs" m] key y(3) e by simp
    moreover have "index_ok (ys @ zs) ch'" unfolding index_ok_def e using y(4-6) sm st by (simp, intro exI conjI) simp_all
    ultimately show ?thesis using y(1,4) ch' by (intro exI [of _ ch'] exI [of _ True]) simp
  qed
qed

text \<open>Where it starts: at the end of the log the first time, before the indexed records later.\<close>

lemma lookup_scan:
  assumes inv: "chan_inv k w ch a" and miss: "\<not> ch_fkBuilt ch" "ch_fkScan ch \<longrightarrow> m < ch_fkFloor ch"
    and ch1: "ch1 = (if ch_fkScan ch then ch else ch\<lparr>ch_fkNext := blog_LastIndex (ch_log ch), ch_fkScan := True\<rparr>)"
    and xs: "xs = shown a (b_pend (ch_log ch))"
  shows "\<exists>ch2 b. iterE (index_step m) (ch1, False) (rev (filter (\<lambda>x. ch_fkNext ch1 = 0 \<or> fst x \<le> ch_fkNext ch1) xs)) =
      ((ch2, b), if b then Some ErrStopRange else None) \<and> reindexed ch1 ch2 \<and> map_of (ch_fk ch2) m = newest xs m \<and>
      index_ok xs (if b then ch2 else ch2\<lparr>ch_fkBuilt := True\<rparr>)"
proof -
  have bi: "buf_inv k (w, ch_log ch, Idle) a" and key: "keyed xs" and ix: "index_ok xs ch" using inv xs by (simp_all add: chan_inv_def)
  have sorted: "sorted_wrt (<) (map fst xs)" and pos: "\<forall>x\<in>set xs. 1 \<le> fst x" using shown_sorted [OF bi] xs by auto
  have c1: "ch_fkScan ch1" "\<not> ch_fkBuilt ch1" "ch_fk ch1 = ch_fk ch" using miss(1) by (auto simp: ch1)
  show ?thesis
  proof (cases "ch_fkScan ch")
    case False
    then have "map_of (ch_fk ch1) = newest []" using ix miss(1) c1(3) by (simp add: index_ok_def fun_eq_iff)
    moreover have "fst x \<le> ch_fkNext ch1" if "x \<in> set xs" for x
      using False shown_below_next [OF bi] blog_LastIndex_next(1) [OF writable_represents] bi that xs by (fastforce simp: ch1)
    then have "filter (\<lambda>x. ch_fkNext ch1 = 0 \<or> fst x \<le> ch_fkNext ch1) xs = xs" by (simp add: filter_id_conv)
    ultimately show ?thesis using lookup_extend [of xs "[]" ch1 m] key pos c1(1,2) by simp
  next
    case True
    then have e: "ch1 = ch" by (simp add: ch1)
    obtain ys y zs where p: "xs = ys @ y # zs" "map_of (ch_fk ch) = newest (y # zs)" "ch_fkFloor ch = main_lt (snd y)" "ch_fkNext ch = fst y - 1"
      using ix True miss(1) by (auto simp: index_ok_def)
    have lt: "\<forall>x\<in>set ys. fst x < fst y" "\<forall>x\<in>set zs. fst y < fst x" "1 \<le> fst y" using sorted pos p(1) by (auto simp: sorted_wrt_append)
    show ?thesis
    proof (cases "ch_fkNext ch = 0")
      case False
      have "filter (\<lambda>x. fst x \<le> fst y - 1) ys = ys" "filter (\<lambda>x. fst x \<le> fst y - 1) zs = []"
        using lt by (force simp: filter_id_conv filter_empty_conv)+
      then have "filter (\<lambda>x. ch_fkNext ch1 = 0 \<or> fst x \<le> ch_fkNext ch1) xs = ys" using False lt(3) p(1,4) e by simp
      then show ?thesis using lookup_extend [of ys "y # zs" ch1 m] key pos p(1,2) e c1(1,2) by simp
    next
      case zero: True
      then have ys: "ys = []" using lt(1,3) p(1,4) pos by (cases ys) auto
      have "m < main_lt (snd x)" if "x \<in> set xs" for x
        using miss(2) True p(1,3) ys that key by (auto simp: keyed_def)
      moreover have "map_of (ch_fk ch) (main_lt (snd x)) \<noteq> None" if "x \<in> set xs" for x
        using p(1,2) ys that newest_none [of xs "main_lt (snd x)"] by auto
      ultimately obtain ch2 where "reindexed ch ch2" "iterE (index_step m) (ch, False) (rev xs) = ((ch2, False), None)" "ch_fk ch2 = ch_fk ch"
        using index_rescan [of "rev xs" m ch] key by (auto simp: keyed_def)
      then show ?thesis using p(1,2) ys e zero by (intro exI [of _ ch2] exI [of _ False]) (simp add: index_ok_def)
    qed
  qed
qed

lemma lookup_result:
  assumes inv: "chan_inv k w ch a" and l: "lookup w ch m = (r, ch')"
  shows "r = Inr (newest (shown a (b_pend (ch_log ch))) m)" "chan_inv k w ch' a" "b_pend (ch_log ch') = b_pend (ch_log ch)"
    "cfgs (b_inner (ch_log ch')) = cfgs (b_inner (ch_log ch))"
proof -
  let ?xs = "shown a (b_pend (ch_log ch))"
  have bi: "buf_inv k (w, ch_log ch, Idle) a" and above: "own_above a" and key: "keyed ?xs" and ix: "index_ok ?xs ch"
    using inv by (simp_all add: chan_inv_def)
  have "r = Inr (newest ?xs m) \<and> chan_inv k w ch' a \<and> b_pend (ch_log ch') = b_pend (ch_log ch) \<and>
    cfgs (b_inner (ch_log ch')) = cfgs (b_inner (ch_log ch))"
  proof (cases "map_of (ch_fk ch) m = None \<and> \<not> ch_fkBuilt ch \<and> (ch_fkScan ch \<longrightarrow> m < ch_fkFloor ch)")
    case False
    have "r = Inr (newest ?xs m)" "ch' = ch"
      using False l lookup_hit [OF key ix] lookup_miss [OF key ix] by (auto simp: lookup_def split: option.splits)
    then show ?thesis using inv by simp
  next
    case True
    define ch1 where "ch1 = (if ch_fkScan ch then ch else ch\<lparr>ch_fkNext := blog_LastIndex (ch_log ch), ch_fkScan := True\<rparr>)"
    have lg: "ch_log ch1 = ch_log ch" by (simp add: ch1_def)
    obtain ch2 b where s2: "iterE (index_step m) (ch1, False) (rev (filter (\<lambda>x. ch_fkNext ch1 = 0 \<or> fst x \<le> ch_fkNext ch1) ?xs)) =
        ((ch2, b), if b then Some ErrStopRange else None)" "reindexed ch1 ch2" "map_of (ch_fk ch2) m = newest ?xs m"
        "index_ok ?xs (if b then ch2 else ch2\<lparr>ch_fkBuilt := True\<rparr>)"
      using lookup_scan [OF inv _ _ ch1_def refl] True by blast
    obtain r1 l1 where sc: "blog_ScanFromEnd w (ch_log ch1) (ch_fkNext ch1) (index_step m) (ch1, False) = (r1, l1)" by fastforce
    note k = blog_scan [OF bi above sc [unfolded lg]]
    have r1: "r1 = ((ch2, b), if b then Some ErrStopRange else None)" using k(1) s2(1) by simp
    let ?ch4 = "(if b then ch2 else ch2\<lparr>ch_fkBuilt := True\<rparr>)\<lparr>ch_log := l1\<rparr>"
    have out: "r = Inr (map_of (ch_fk ch2) m)" "ch' = ?ch4"
      using l True sc r1 unfolding lookup_def ch1_def [symmetric] Let_def by (cases b; auto)+
    have "index_ok ?xs ?ch4" using s2(4) by (auto simp: index_ok_def)
    then show ?thesis using out s2(3) k(2-4) above key by (auto simp: chan_inv_def simp del: buf_inv.simps)
  qed
  then show "r = Inr (newest ?xs m)" "chan_inv k w ch' a" "b_pend (ch_log ch') = b_pend (ch_log ch)"
    "cfgs (b_inner (ch_log ch')) = cfgs (b_inner (ch_log ch))" by blast+
qed

section \<open>What an append leaves behind\<close>

text \<open>A log on disk shows one list of records.\<close>

lemma visible_unique:
  assumes "represents k w d a" "represents k w d b"
  shows "visible a = visible b"
proof -
  have m: "map_of (visible a) i = map_of (visible b) i" for i
  proof -
    have "a_Read i a = a_Read i b"
      using any.disk_Read_rep [OF assms(1), of i] any.disk_Read_rep [OF assms(2), of i] by auto
    then show ?thesis
      using a_Read_visible [OF dlog_rep_chains [OF assms(1)], of i] a_Read_visible [OF dlog_rep_chains [OF assms(2)], of i]
      by (auto split: sum.splits)
  qed
  have s: "sorted (map fst (visible a))" "distinct (map fst (visible a))" "sorted (map fst (visible b))" "distinct (map fst (visible b))"
    using visible_sorted dlog_rep_chains assms by blast+
  have "map_of (visible a) = map_of (visible b)" using m by (rule ext)
  then have e: "set (visible a) = set (visible b)" using map_of_inject_set [OF s(2,4)] by simp
  then have "inj_on fst (set (visible a) \<union> set (visible b))" using s(2) by (simp add: distinct_map)
  then show ?thesis by (rule map_sorted_distinct_set_unique [OF _ s e])
qed

lemma next_unique:
  assumes "represents k w d a" "represents k w d b" "next_index a < u64_lim" "next_index b < u64_lim"
  shows "next_index a = next_index b"
  using disk_LastIndex_rep [OF assms(1,3)] disk_LastIndex_rep [OF assms(2,4)] by simp

lemma buf_inv_swap:
  assumes "buf_inv k (w, l, ph) a" "writable k w (b_inner l) b" "next_index b < u64_lim"
  shows "buf_inv k (w, l, ph) b" "visible b = visible a"
proof -
  have wr: "writable k w (b_inner l) a" and ok: "buf_ok a (b_pend l)" using assms(1) by auto
  have "next_index a < u64_lim" using ok by (auto simp: buf_ok_def split: option.splits)
  then have n: "next_index b = next_index a" using next_unique [OF writable_represents [OF assms(2)] writable_represents [OF wr]] assms(3) by simp
  show v: "visible b = visible a" by (rule visible_unique [OF writable_represents [OF assms(2)] writable_represents [OF wr]])
  have "buf_ok b (b_pend l) = buf_ok a (b_pend l)" unfolding buf_ok_def n v ..
  moreover have "phase_ok b (b_pend l) ph = phase_ok a (b_pend l) ph" by (cases ph) (simp_all add: disk_has_def n v)
  ultimately show "buf_inv k (w, l, ph) b" using assms(1,2) by (simp del: writable.simps phase_ok.simps)
qed

text \<open>A sync keeps a fork's own records above its base.\<close>

lemma sync_writes_above:
  "buf_inv k (w, l, Writing first durable idx batch ps) a \<Longrightarrow> own_above a \<Longrightarrow> idx + length ps < u64_lim \<Longrightarrow>
   sync_writes w (b_inner l) durable idx ps = (r, w', d') \<Longrightarrow> \<exists>a'. writable k w' d' a' \<and> own_above a' \<and> next_index a' < u64_lim"
proof (induction ps arbitrary: w l idx a)
  case Nil
  then have "next_index a < u64_lim" by (auto simp: buf_ok_def split: option.splits)
  then show ?case using Nil by (intro exI [of _ a]) (simp del: writable.simps)
next
  case (Cons p ps)
  have up: "u64_add idx 1 = Suc idx" using Cons.prems(3) by (simp add: u64_simps)
  show ?case
  proof (cases "idx \<le> durable")
    case True
    then show ?thesis using Cons.IH [OF buf_inv_present [OF Cons.prems(1) True]] Cons.prems(2-4) up by simp
  next
    case False
    obtain r1 w1 d1 where d1: "disk_Write w (b_inner l) idx p = (r1, w1, d1)" by (metis prod_cases3)
    have wr: "writable k w (b_inner l) a" using Cons.prems(1) by simp
    note nx = writing_next [OF Cons.prems(1)] False
    obtain b where b: "writable k w1 d1 b" "own_above b" "next_index b < u64_lim"
      using writable_write [OF wr nx(1-3)] d1 nx Cons.prems(2) by (fastforce simp: appended_def)
    show ?thesis
    proof (cases r1)
      case (Inl e)
      then show ?thesis using Cons.prems(4) d1 False b by auto
    next
      case (Inr u)
      obtain a' where "buf_inv k (w1, l\<lparr>b_inner := d1\<rparr>, Writing first durable (u64_add idx 1) batch ps) a'"
        using buf_inv_persist [OF Cons.prems(1) _ d1] False Inr by auto
      from buf_inv_swap(1) [OF this, of b] b(1,3)
      have "buf_inv k (w1, l\<lparr>b_inner := d1\<rparr>, Writing first durable (u64_add idx 1) batch ps) b"
        by (simp del: buf_inv.simps writable.simps)
      from Cons.IH [OF this b(2)] show ?thesis using Cons.prems(3,4) d1 False Inr up by simp
    qed
  qed
qed

lemma sync_above:
  assumes inv: "buf_inv k (w, l, Idle) a" and above: "own_above a" and t: "target \<le> u64_max"
    and s: "blog_SyncThrough w l target = (r, w', l')"
  shows "\<exists>a'. buf_inv k (w', l', Idle) a' \<and> own_above a' \<and> shown a' (b_pend l') = shown a (b_pend l) \<and>
    (r = Inr () \<or> r = Inl ErrPayloadTooLarge)"
proof -
  obtain a1 where a1: "buf_inv k (w', l', Idle) a1" "shown a1 (b_pend l') = shown a (b_pend l)" "r = Inr () \<or> r = Inl ErrPayloadTooLarge"
    using sync_through [OF inv t s] by blast
  obtain first batch where c: "sync_capture l target = (first, batch)" by fastforce
  have ok: "buf_ok a (b_pend l)" using inv by simp
  note part = sync_capture_part [OF c ok t]
  show ?thesis
  proof (cases "batch = []")
    case True
    then have "r = Inr ()" "w' = w" "l' = l" using s c by (auto simp: blog_SyncThrough_def)
    then show ?thesis using inv above by auto
  next
    case False
    obtain p where p: "pv_some (b_pend l) = Some p" "batch = take (target + 1 - pv_first p) (pv_entries p)" "first = pv_first p"
      using part False by (auto split: option.splits)
    obtain r1 w1 d1 where sw: "sync_writes w (b_inner l) (disk_LastIndex (b_inner l)) first batch = (r1, w1, d1)" by (metis prod_cases3)
    have "first + length (pv_entries p) < u64_max" using ok p(1,3) by (simp add: buf_ok_def)
    then have "first + length batch < u64_lim" using p(2) by (auto simp: min_def)
    from sync_writes_above [OF buf_inv_capture [OF inv c False] above this sw]
    obtain b where b: "writable k w1 d1 b" "own_above b" "next_index b < u64_lim" by blast
    have "w' = w1 \<and> b_inner l' = d1"
      using s c False sw by (cases r1) (auto simp: blog_SyncThrough_def sync_trim_def Let_def split: option.splits)
    then have nb: "buf_inv k (w', l', Idle) b" and v: "visible b = visible a1" using buf_inv_swap [OF a1(1), of b] b(1,3) by (simp_all del: buf_inv.simps writable.simps)
    have "shown b (b_pend l') = shown a1 (b_pend l')" unfolding shown_def v ..
    then show ?thesis using a1(2,3) b(2) nb by (intro exI [of _ b]) (simp del: buf_inv.simps)
  qed
qed

lemma blog_Write_appends:
  assumes inv: "buf_inv k (w, l, Idle) a" and above: "own_above a" and p: "stableOf k p"
    and idx: "idx = u64_add (blog_LastIndex l) 1" "blog_LastIndex l + 2 < u64_max"
    and wr: "blog_Write w l idx p = (r, w', l')"
  shows "\<exists>a'. buf_inv k (w', l', Idle) a' \<and> own_above a' \<and> shown a' (b_pend l') = shown a (b_pend l) @ [(idx, p)] \<and>
    same_log w (b_inner l) w' (b_inner l') \<and> (r = Inr () \<or> r = Inl ErrPayloadTooLarge)"
proof -
  have wa: "writable k w (b_inner l) a" and ok: "buf_ok a (b_pend l)" using inv by auto
  have n: "blog_LastIndex l + 1 = buf_next a (b_pend l)" by (rule blog_LastIndex_next(1) [OF writable_represents [OF wa] ok])
  then have i: "idx = buf_next a (b_pend l)" "idx + 1 < u64_max" using idx by (simp_all add: u64_simps)
  obtain r1 l1 where w1: "blog_write l idx p = (r1, l1)" by fastforce
  have l1: "b_inner l1 = b_inner l" "r1 = Inr ()" "shown a (b_pend l1) = shown a (b_pend l) @ [(idx, p)]"
    using append_shown [OF wa ok i(2) w1] i(1) by auto
  have inv1: "buf_inv k (w, l1, Idle) a" using buf_write_keeps [OF inv p i(2) w1] by blast
  show ?thesis
  proof (cases "b_pendingBytes l1 > b_maxLag l1")
    case True
    then have s: "blog_SyncThrough w l1 idx = (r, w', l')" using wr w1 l1(2) by (simp add: blog_Write_def)
    then show ?thesis using sync_above [OF inv1 above _ s] sync_same [OF inv1 _ s] i(2) l1(1,3) by fastforce
  next
    case False
    then show ?thesis using wr w1 l1 inv1 above by (auto simp: blog_Write_def simp del: buf_inv.simps same_log.simps)
  qed
qed

text \<open>The main index of the last record bounds those of all records.\<close>

lemma tailMain_bounds:
  assumes inv: "chan_inv k w ch a" and xs: "xs = shown a (b_pend (ch_log ch))"
    and first: "xs \<noteq> [] \<longrightarrow> 0 < blog_FirstIndex (ch_log ch) \<and> blog_FirstIndex (ch_log ch) \<le> blog_LastIndex (ch_log ch)"
    and t: "tailMain w ch = (Inr lm, ch1)"
  shows "\<exists>l1. ch1 = ch\<lparr>ch_log := l1\<rparr> \<and> buf_inv k (w, l1, Idle) a \<and> b_pend l1 = b_pend (ch_log ch) \<and>
    cfgs (b_inner l1) = cfgs (b_inner (ch_log ch)) \<and> (\<forall>x\<in>set xs. case lm of Some m \<Rightarrow> main_lt (snd x) \<le> m | None \<Rightarrow> False)"
proof -
  let ?l = "ch_log ch" and ?lst = "blog_LastIndex (ch_log ch)"
  have bi: "buf_inv k (w, ?l, Idle) a" and key: "keyed xs" using inv xs by (simp_all add: chan_inv_def)
  show ?thesis
  proof (cases "blog_FirstIndex ?l = 0 \<or> ?lst < blog_FirstIndex ?l")
    case True
    then have "xs = []" "ch1 = ch" using first t by (auto simp: tailMain_def Let_def)
    then show ?thesis using bi by (intro exI [of _ ?l]) (simp del: buf_inv.simps)
  next
    case False
    obtain r1 l1 where rd: "blog_Read w ?l ?lst = (r1, l1)" by fastforce
    note keep = blog_Read_keeps [OF bi rd]
    obtain f m where f: "r1 = Inr f" "decodeMainLT f = Inr m" "lm = Some m" "ch1 = ch\<lparr>ch_log := l1\<rparr>"
      using t False rd by (cases r1) (auto simp: tailMain_def Let_def rbind_eq_Inr)
    have "map_of xs ?lst = Some f" using keep(1) f(1) xs by (auto split: option.splits)
    then have mem: "(?lst, f) \<in> set xs" by (rule map_of_SomeD)
    have "main_lt (snd x) \<le> m" if x: "x \<in> set xs" for x
    proof -
      obtain ys zs where s: "xs = ys @ (?lst, f) # zs" using mem by (meson split_list)
      have "fst z \<le> ?lst" if "z \<in> set zs" for z
        using shown_below_next [OF bi, of z] blog_LastIndex_next(1) [OF writable_represents, of k w ?l a] bi s that xs by auto
      moreover have "?lst < fst z" if "z \<in> set zs" for z using shown_sorted(1) [OF bi] s that xs by (auto simp: sorted_wrt_append)
      ultimately have "zs = []" by (cases zs) fastforce+
      then show ?thesis using x s key f(2) keyed_order [of ys "(?lst, f)" zs x] by (auto simp: main_lt_def)
    qed
    then show ?thesis using f keep(2-4) by (intro exI [of _ l1]) (simp del: buf_inv.simps)
  qed
qed

lemma keyed_snoc:
  assumes "keyed xs" "decodeMainLT f = Inr m" "\<forall>x\<in>set xs. main_lt (snd x) \<le> m"
  shows "keyed (xs @ [(i, f)])"
  using assms by (auto simp: keyed_def sorted_append main_lt_def)

lemma index_add_ok:
  assumes "index_ok xs ch" "main_lt f = m"
  shows "index_ok (xs @ [(i, f)]) (index_add m i (ch\<lparr>ch_log := l\<rparr>))"
proof -
  have n: "newest (zs @ [(i, f)]) = (newest zs)(m \<mapsto> i)" for zs using assms(2) by (auto simp: newest_append fun_eq_iff)
  have "\<exists>us y vs. xs @ [(i, f)] = us @ y # vs \<and> (newest zs')(m \<mapsto> i) = newest (y # vs) \<and> F = main_lt (snd y) \<and> N = fst y - 1"
    if "xs = ys @ y # zs" "zs' = y # zs" "F = main_lt (snd y)" "N = fst y - 1" for ys y zs zs' F N
    using that n [of "y # zs"] by (intro exI [of _ ys] exI [of _ y] exI [of _ "zs @ [(i, f)]"]) simp
  then show ?thesis using assms(1) n [of xs]
    by (auto simp: index_ok_def index_add_def update_conv')
qed

lemma newest_last: "newest (xs @ [(i, f)]) (main_lt f) = Some i"
  by (simp add: newest_append)

subsection \<open>Lookups and appends on a branch\<close>

lemma newest_mem: "newest xs m = Some i \<Longrightarrow> \<exists>f. map_of xs i = Some f"
proof -
  assume "newest xs m = Some i"
  then have "(m, i) \<in> set (rev (map (\<lambda>x. (main_lt (snd x), fst x)) xs))" unfolding newest_def by (rule map_of_SomeD)
  then have "i \<in> fst ` set xs" by auto
  then show ?thesis by (metis map_of_eq_None_iff not_None_eq)
qed

lemma Lookup_result:
  assumes ch: "chan x name = Some ch" "name \<noteq> x_main x" and inv: "chan_inv k w ch a" and l: "Lookup w x name m = (r, x')"
  shows "r = (case newest (shown a (b_pend (ch_log ch))) m of
      None \<Rightarrow> Inr None
    | Some i \<Rightarrow> rbind (decodeRecordFrom i (the (map_of (shown a (b_pend (ch_log ch))) i)) False) (\<lambda>rc. Inr (Some rc)))"
    "\<exists>ch'. chan x' name = Some ch' \<and> chan_inv k w ch' a \<and> b_pend (ch_log ch') = b_pend (ch_log ch)"
    "n \<noteq> name \<longrightarrow> chan x' n = chan x n"
proof -
  let ?xs = "shown a (b_pend (ch_log ch))"
  obtain r1 ch1 where lk: "lookup w ch m = (r1, ch1)" by fastforce
  note res = lookup_result [OF inv lk]
  have bi: "buf_inv k (w, ch_log ch1, Idle) a" using res(2) by (simp add: chan_inv_def)
  have main: "x_main (set_chan name ch1 x) = x_main x" by simp
  have "r = (case newest ?xs m of None \<Rightarrow> Inr None
      | Some i \<Rightarrow> rbind (decodeRecordFrom i (the (map_of ?xs i)) False) (\<lambda>rc. Inr (Some rc))) \<and>
    (\<exists>ch'. chan x' name = Some ch' \<and> chan_inv k w ch' a \<and> b_pend (ch_log ch') = b_pend (ch_log ch)) \<and>
    (n \<noteq> name \<longrightarrow> chan x' n = chan x n)"
  proof (cases "newest ?xs m")
    case None
    then have "r = Inr None" "x' = set_chan name ch1 x" using l ch lk res(1) by (simp_all add: Lookup_def)
    then show ?thesis using None res(2,3) by (auto simp: chan_set_chan)
  next
    case (Some i)
    then obtain f where f: "map_of ?xs i = Some f" using newest_mem by blast
    obtain r2 l2 where rd: "blog_Read w (ch_log ch1) i = (r2, l2)" by fastforce
    note keep = blog_Read_keeps [OF bi rd]
    have r2: "r2 = Inr f" using keep(1) res(3) f by simp
    have "r = rbind (decodeRecordFrom i f False) (\<lambda>rc. Inr (Some rc))" "x' = set_chan name (ch1\<lparr>ch_log := l2\<rparr>) (set_chan name ch1 x)"
      using l ch lk res(1) Some rd r2 by (simp_all add: Lookup_def ReadAt_def chan_set_chan apfst_def map_prod_def)
    moreover have "index_ok ?xs (ch1\<lparr>ch_log := l2\<rparr>)" using res(2,3) by (auto simp: chan_inv_def index_ok_def simp del: buf_inv.simps)
    then have "chan_inv k w (ch1\<lparr>ch_log := l2\<rparr>) a" using res(2,3) keep(2,3) by (simp add: chan_inv_def del: buf_inv.simps)
    ultimately show ?thesis using Some f keep(3) res(3) by (auto simp: chan_set_chan)
  qed
  then show "r = (case newest ?xs m of None \<Rightarrow> Inr None
      | Some i \<Rightarrow> rbind (decodeRecordFrom i (the (map_of ?xs i)) False) (\<lambda>rc. Inr (Some rc)))"
    "\<exists>ch'. chan x' name = Some ch' \<and> chan_inv k w ch' a \<and> b_pend (ch_log ch') = b_pend (ch_log ch)"
    "n \<noteq> name \<longrightarrow> chan x' n = chan x n" by blast+
qed

text \<open>C38: A lookup in a related channel gives the newest of all the records the channel shows for the main
  index, as a search through all of them would, and nothing when there is none, wherever the lazily built
  index stands; it leaves the index right for every later lookup and all other channels as they are.\<close>

theorem channel_lookup:
  assumes "chan x name = Some ch" "name \<noteq> x_main x" "chan_inv k w ch a" "Lookup w x name m = (r, x')"
  shows "r = (case newest (shown a (b_pend (ch_log ch))) m of
      None \<Rightarrow> Inr None
    | Some i \<Rightarrow> rbind (decodeRecordFrom i (the (map_of (shown a (b_pend (ch_log ch))) i)) False) (\<lambda>rc. Inr (Some rc))) \<and>
    (\<exists>ch'. chan x' name = Some ch' \<and> chan_inv k w ch' a \<and> b_pend (ch_log ch') = b_pend (ch_log ch)) \<and>
    (\<forall>n. n \<noteq> name \<longrightarrow> chan x' n = chan x n)"
  using Lookup_result [OF assms] by blast

text \<open>An append that was accepted.\<close>

lemma chan_stampTS: "chan (snd (stampTS now x)) n = chan x n" "x_main (snd (stampTS now x)) = x_main x"
  by (simp_all add: stampTS_def)

lemma Append_accepted:
  assumes ok: "chans_ok k w x A" and ch: "chan x name = Some ch" "name \<noteq> x_main x" "\<not> ch_unkeyed ch" and inv: "chan_inv k w ch (A name)"
    and first: "chan_shows A name ch \<noteq> [] \<longrightarrow> 0 < blog_FirstIndex (ch_log ch) \<and> blog_FirstIndex (ch_log ch) \<le> blog_LastIndex (ch_log ch)"
    and fr: "frame = encodeChannelFrame mainLT payload meta (ch_opaque ch) now" "decodeMainLT frame = Inr mainLT" "stableOf k frame"
    and room: "blog_LastIndex (ch_log ch) + 2 < u64_max" and ap: "Append w x now name mainLT payload meta = (Inr lt, w', x')"
  shows "\<exists>ch' a'. chan x' name = Some ch' \<and> chan_inv k w' ch' a' \<and> chans_ok k w' x' (A(name := a')) \<and> x_main x' = x_main x \<and>
    lt = blog_LastIndex (ch_log ch) + 1 \<and> shown a' (b_pend (ch_log ch')) = chan_shows A name ch @ [(lt, frame)]"
proof -
  let ?xs = "chan_shows A name ch"
  obtain rt ch1 where t: "tailMain w ch = (rt, ch1)" by fastforce
  obtain lm where lm: "rt = Inr lm" "case lm of Some m \<Rightarrow> m \<le> mainLT | None \<Rightarrow> True"
    and ap1: "append_keyed w (set_chan name ch1 x) now name ch1 mainLT payload meta = (Inr lt, w', x')"
    using ap ch t by (cases rt) (auto simp: Append_def split: if_splits option.splits)
  obtain l1 where l1: "ch1 = ch\<lparr>ch_log := l1\<rparr>" "buf_inv k (w, l1, Idle) (A name)" "b_pend l1 = b_pend (ch_log ch)"
    "cfgs (b_inner l1) = cfgs (b_inner (ch_log ch))" "\<forall>x\<in>set ?xs. case lm of Some m \<Rightarrow> main_lt (snd x) \<le> m | None \<Rightarrow> False"
    using tailMain_bounds [OF inv refl first] t lm(1) by blast
  have above: "own_above (A name)" and key: "keyed ?xs" and ix: "index_ok ?xs ch" using inv by (simp_all add: chan_inv_def)
  have le: "\<forall>x\<in>set ?xs. main_lt (snd x) \<le> mainLT" using l1(5) lm(2) by (cases lm) auto
  have same: "blog_LastIndex l1 = blog_LastIndex (ch_log ch)"
    using blog_LastIndex_next(1) [OF writable_represents, of k w l1 "A name"] blog_LastIndex_next(1) [OF writable_represents, of k w "ch_log ch" "A name"]
      l1(2,3) inv by (simp add: chan_inv_def del: writable.simps)
  let ?nxt = "u64_add (blog_LastIndex l1) 1"
  obtain r2 w2 l2 where w2: "blog_Write w l1 ?nxt frame = (r2, w2, l2)" by (metis prod_cases3)
  have big: "blog_LastIndex l1 + 2 < u64_max" using room same by simp
  from blog_Write_appends [OF l1(2) above fr(3) refl big w2]
  obtain a' where a': "buf_inv k (w2, l2, Idle) a'" "own_above a'" "shown a' (b_pend l2) = ?xs @ [(?nxt, frame)]"
    "same_log w (b_inner l1) w2 (b_inner l2)"
    unfolding l1(3) by (elim exE conjE)
  let ?ch' = "index_add mainLT ?nxt (ch\<lparr>ch_log := l2\<rparr>)"
  have out: "lt = ?nxt" "w' = w2" "x' = set_chan name ?ch' (snd (stampTS now (set_chan name ch1 x)))"
    using ap1 w2 l1(1) fr(1) by (cases r2; simp add: append_keyed_def Let_def stampTS_def)+
  have x': "chan x' n = (if n = name then Some ?ch' else chan x n)" "x_main x' = x_main x" for n
    unfolding out(3) chan_set_chan by (simp_all add: chan_stampTS chan_set_chan)
  have lg: "ch_log ?ch' = l2" by (simp add: index_add_def)
  have m: "main_lt frame = mainLT" using fr(2) by (simp add: main_lt_def)
  have "chan_inv k w' ?ch' a'"
    using a' out(2) keyed_snoc [OF key fr(2) le] index_add_ok [OF ix m] lg by (simp add: chan_inv_def del: buf_inv.simps)
  moreover have "chans_ok k w' (set_chan name ?ch' x) (A(name := a'))"
    using chans_ok_update [OF ok ch(1), of w' ?ch' a'] a'(1,4) out(2) lg cfgs_same [OF l1(4)] same_log_dirs [OF a'(4)]
    by (simp add: own_dir_def)
  then have "chans_ok k w' x' (A(name := a'))" unfolding chans_ok_def chan_set_chan x'(1) .
  ultimately show ?thesis using a'(3) out(1) x' lg room same by (intro exI [of _ ?ch'] exI [of _ a']) (simp add: u64_simps)
qed

text \<open>C39: An accepted append to a keyed channel puts the record's frame after all the records the channel
  shows, under the next index, keeps every channel of the branch in order, and the next lookup of its main
  index gives that very record, with its payload, meta value and time.\<close>

theorem append_lookup:
  assumes "chans_ok k w x A" "chan x name = Some ch" "name \<noteq> x_main x" "\<not> ch_unkeyed ch" "chan_inv k w ch (A name)"
    and "chan_shows A name ch \<noteq> [] \<longrightarrow> 0 < blog_FirstIndex (ch_log ch) \<and> blog_FirstIndex (ch_log ch) \<le> blog_LastIndex (ch_log ch)"
    and parts: "frame_ok_parts mainLT body now xo []" "frame_args payload meta (ch_opaque ch) body xo"
    and "stableOf k (encodeChannelFrame mainLT payload meta (ch_opaque ch) now)" "blog_LastIndex (ch_log ch) + 2 < u64_max"
    and "Append w x now name mainLT payload meta = (Inr lt, w', x')"
  shows "\<exists>ch' a'. chan x' name = Some ch' \<and> chan_inv k w' ch' a' \<and> chans_ok k w' x' (A(name := a')) \<and>
    lt = blog_LastIndex (ch_log ch) + 1 \<and>
    shown a' (b_pend (ch_log ch')) = chan_shows A name ch @ [(lt, encodeChannelFrame mainLT payload meta (ch_opaque ch) now)] \<and>
    fst (Lookup w' x' name mainLT) = Inr (Some \<lparr>rc_ChannelLT = lt, rc_MainLT = mainLT,
      rc_Payload = (case body of Inl v \<Rightarrow> show_json v | Inr b \<Rightarrow> b), rc_Meta = embedJSON meta, rc_TS = now, rc_Cursors = []\<rparr>)"
proof -
  let ?f = "encodeChannelFrame mainLT payload meta (ch_opaque ch) now"
  have d: "decodeMainLT ?f = Inr mainLT" using decodeMainLT_encoded [OF parts] by (simp add: encodeChannelFrame_def)
  have m: "main_lt ?f = mainLT" using d by (simp add: main_lt_def)
  from Append_accepted [OF assms(1-6) refl d assms(9-11)] obtain ch' a'
    where c: "chan x' name = Some ch'" "chan_inv k w' ch' a'" "chans_ok k w' x' (A(name := a'))" "x_main x' = x_main x"
      "lt = blog_LastIndex (ch_log ch) + 1" "shown a' (b_pend (ch_log ch')) = chan_shows A name ch @ [(lt, ?f)]" by (elim exE conjE)
  obtain r y where l: "Lookup w' x' name mainLT = (r, y)" by fastforce
  have ne: "name \<noteq> x_main x'" using assms(3) c(4) by simp
  have "lt \<notin> fst ` set (chan_shows A name ch)"
    using shown_sorted(1) [of k w' "ch_log ch'" Idle a'] c(2,6) by (auto simp: chan_inv_def sorted_wrt_append simp del: buf_inv.simps)
  then have "map_of (chan_shows A name ch @ [(lt, ?f)]) lt = Some ?f" by (simp add: map_add_def map_of_eq_None_iff [THEN iffD2])
  then have "r = rbind (decodeRecordFrom lt ?f False) (\<lambda>rc. Inr (Some rc))"
    using Lookup_result(1) [OF c(1) ne c(2) l] newest_last [of "chan_shows A name ch" lt ?f] unfolding c(6) m by simp
  then have "r = Inr (Some \<lparr>rc_ChannelLT = lt, rc_MainLT = mainLT,
      rc_Payload = (case body of Inl v \<Rightarrow> show_json v | Inr b \<Rightarrow> b), rc_Meta = embedJSON meta, rc_TS = now, rc_Cursors = []\<rparr>)"
    using decodeRecordFrom_encoded [OF parts] by (simp add: encodeChannelFrame_def body_seen_def)
  then show ?thesis using c l by (intro exI [of _ ch'] exI [of _ a']) (simp del: buf_inv.simps)
qed

section \<open>On the small branch\<close>

lemma pair_chan_inv:
  "chan_inv Binary pair_sys (pair_chan ''board'' [pair_frame 1, pair_frame 2]) (ALog [] None 0 None)"
proof -
  have "buf_inv Binary (pair_sys, ch_log (pair_chan ''board'' [pair_frame 1, pair_frame 2]), Idle) (ALog [] None 0 None)"
    using pair_chans(1,5) by (auto simp: chans_ok_def simp del: buf_inv.simps)
  moreover have "index_ok xs (pair_chan ''board'' [pair_frame 1, pair_frame 2])" for xs by (simp add: index_ok_def pair_chan_def)
  ultimately show ?thesis
    using pair_shows(1,3) by (simp add: chan_inv_def del: buf_inv.simps)
qed

lemma pair_record: "m < u64_lim \<Longrightarrow> decodeRecordFrom lt (pair_frame m) False =
  Inr \<lparr>rc_ChannelLT = lt, rc_MainLT = m, rc_Payload = bytes_of ''[1]'', rc_Meta = [], rc_TS = 0, rc_Cursors = []\<rparr>"
proof -
  assume m: "m < u64_lim"
  have "show_json (JArr [JNum (bytes_of ''1'')]) = bytes_of ''[1]''" by code_simp
  then show ?thesis using decodeRecordFrom_encoded [OF pair_frame_parts(1) [OF m] pair_frame_parts(2)]
    by (simp add: pair_frame_def encodeFrame_def encodeChannelFrame_def body_seen_def embedJSON_def)
qed

theorem channel_lookup_witness:
  "fst (Lookup pair_sys pair_xwal ''board'' 2) = Inr (Some \<lparr>rc_ChannelLT = 2, rc_MainLT = 2, rc_Payload = bytes_of ''[1]'',
     rc_Meta = [], rc_TS = 0, rc_Cursors = []\<rparr>) \<and> fst (Lookup pair_sys pair_xwal ''board'' 5) = Inr None"
proof -
  have ne: "''board'' \<noteq> x_main pair_xwal" using pair_chans(2) by simp
  have n: "newest [(1, pair_frame 1), (2, pair_frame 2)] 2 = Some 2" "newest [(1, pair_frame 1), (2, pair_frame 2)] 5 = None"
    by (simp_all add: newest_Cons main_lt_def pair_frame_main u64_simps)
  have "fst (Lookup pair_sys pair_xwal ''board'' 2) = rbind (decodeRecordFrom 2 (pair_frame 2) False) (\<lambda>rc. Inr (Some rc))"
    using channel_lookup [OF pair_chans(5) ne pair_chan_inv, of 2] pair_shows(1) n(1) by (cases "Lookup pair_sys pair_xwal ''board'' 2") simp
  moreover have "fst (Lookup pair_sys pair_xwal ''board'' 5) = Inr None"
    using channel_lookup [OF pair_chans(5) ne pair_chan_inv, of 5] pair_shows(1) n(2) by (cases "Lookup pair_sys pair_xwal ''board'' 5") simp
  ultimately show ?thesis using pair_record [of 2 2] by (simp add: u64_simps)
qed

lemma pair_bounds:
  "blog_LastIndex (ch_log (pair_chan ''board'' [pair_frame 1, pair_frame 2])) = 2"
  "blog_FirstIndex (ch_log (pair_chan ''board'' [pair_frame 1, pair_frame 2])) = 1"
  by (simp_all add: pair_chan_def pair_log_def blog_LastIndex_def blog_FirstIndex_def new_blog_def fresh_log_def firstIndexLocked_def pv_some_def pv_last_def u64_simps)

lemma pair_append:
  "\<exists>x'. Append pair_sys pair_xwal 0 ''board'' 2 (bytes_of ''[1]'') [] = (Inr 3, pair_sys, x')"
proof -
  let ?ch = "pair_chan ''board'' [pair_frame 1, pair_frame 2]"
  have ne: "''board'' \<noteq> x_main pair_xwal" using pair_chans(2) by simp
  have i: "blog_LastIndex (ch_log ?ch) = 2" "blog_FirstIndex (ch_log ?ch) = 1"
    using pair_bounds by simp_all
  have "blog_Read pair_sys (ch_log ?ch) 2 = (Inr (pair_frame 2), ch_log ?ch)"
    by (simp add: pair_chan_def pair_log_def blog_Read_def pv_at_def pv_some_def pv_last_def u64_simps)
  then have t: "tailMain pair_sys ?ch = (Inr (Some 2), ?ch)" using i by (simp add: tailMain_def pair_frame_main u64_simps)
  have f: "encodeChannelFrame 2 (bytes_of ''[1]'') [] False 0 = pair_frame 2" by (simp add: pair_frame_def encodeFrame_def)
  have "\<exists>l. blog_Write pair_sys (ch_log ?ch) 3 (pair_frame 2) = (Inr (), pair_sys, l)"
    using pair_frame_length [of 2]
    by (simp add: pair_chan_def pair_log_def blog_Write_def blog_write_def new_blog_def fresh_log_def is_ReadOnly_def pv_some_def pv_last_def u64_simps)
  then show ?thesis
    using pair_chans(5) ne t f i by (auto simp: Append_def append_keyed_def stampTS_def pair_chan_def u64_simps)
qed

theorem append_lookup_witness:
  "case Append pair_sys pair_xwal 0 ''board'' 2 (bytes_of ''[1]'') [] of (r, w', x') \<Rightarrow>
     r = Inr 3 \<and> fst (Lookup w' x' ''board'' 2) = Inr (Some \<lparr>rc_ChannelLT = 3, rc_MainLT = 2, rc_Payload = bytes_of ''[1]'',
       rc_Meta = [], rc_TS = 0, rc_Cursors = []\<rparr>)"
proof -
  let ?ch = "pair_chan ''board'' [pair_frame 1, pair_frame 2]" and ?A = "\<lambda>_ :: string. ALog [] None 0 None"
  obtain x' where ap: "Append pair_sys pair_xwal 0 ''board'' 2 (bytes_of ''[1]'') [] = (Inr 3, pair_sys, x')" using pair_append by blast
  have ne: "''board'' \<noteq> x_main pair_xwal" "\<not> ch_unkeyed ?ch" "ch_opaque ?ch = False" using pair_chans(2) by (simp_all add: pair_chan_def)
  have i: "blog_LastIndex (ch_log ?ch) = 2" "blog_FirstIndex (ch_log ?ch) = 1"
    using pair_bounds by simp_all
  have st: "stableOf Binary (encodeChannelFrame 2 (bytes_of ''[1]'') [] (ch_opaque ?ch) 0)"
    using pair_frame_stable [of 2] ne(3) by (simp add: pair_frame_def encodeFrame_def)
  have v: "show_json (JArr [JNum (bytes_of ''1'')]) = bytes_of ''[1]''" by code_simp
  have fst: "chan_shows ?A ''board'' ?ch \<noteq> [] \<longrightarrow> 0 < blog_FirstIndex (ch_log ?ch) \<and> blog_FirstIndex (ch_log ?ch) \<le> blog_LastIndex (ch_log ?ch)"
    "blog_LastIndex (ch_log ?ch) + 2 < u64_max" using i by (simp_all add: u64_simps)
  have lim: "(2 :: nat) < u64_lim" by (simp add: u64_simps)
  have args: "frame_args (bytes_of ''[1]'') [] (ch_opaque ?ch) (Inl (JArr [JNum (bytes_of ''1'')])) None"
    using pair_frame_parts(2) ne(3) by simp
  from append_lookup [OF pair_chans(1,5) ne(1,2) pair_chan_inv fst(1) pair_frame_parts(1) [OF lim] args st fst(2) ap]
  show ?thesis using ap v by (auto simp: embedJSON_def)
qed

end
