(* ===== verification/Spec2Isabelle.thy ===== *)
theory Spec2Isabelle
  imports Forest_Theorems Node_Index Channels_Lookup
begin

text \<open>
  A verification development of \<^bold>\<open>figwal\<close>, a write-ahead log whose logs fork. The sources are under
  \<^verbatim>\<open>src/\<close>.

  \<^bold>\<open>The program.\<close> A \<^emph>\<open>segment\<close> (\<^verbatim>\<open>segment/\<close>) is one append-only file of frames, written by one of two codecs:
  a binary one with a CRC and one of JSON lines with a hash in each line. A \<^emph>\<open>disk log\<close> (\<^verbatim>\<open>disk/\<close>) is a
  directory of segments, all sealed but the newest, each known by the index of its first record in its
  name; a log may be a \<^emph>\<open>fork\<close> of another one, below whose base it shows the records of its parent, and it
  may keep a header in every segment, the fold of all the records before. The \<^emph>\<open>buffered log\<close>
  (\<^verbatim>\<open>log/\<close>) is what callers use: appends go to a buffer that a sync writes out. The \<^emph>\<open>forest\<close>
  (\<^verbatim>\<open>forest/\<close>) caches runs of records of many nodes under one budget. The top layer (\<^verbatim>\<open>xwal/\<close>) combines
  several logs, the \<^emph>\<open>channels\<close>, to a branch: one is the main channel, the records of the others refer to
  its records by index; and it arranges branches as nodes of a tree with an index of markers.

  \<^bold>\<open>Theories and sources.\<close>
  \<^item> \<open>Figwal_Prelude\<close>: bytes, 64-bit arithmetic, errors, decimal numbers; \<open>Vfs\<close>: the file operations of
    \<^verbatim>\<open>os\<close>, on an association list from paths to files and directories; \<open>Go_Strings\<close>, \<open>Json\<close>, \<open>Json_Print\<close>,
    \<open>Json_Struct\<close>, \<open>Sha256\<close>: what the code uses of \<^verbatim>\<open>strings\<close>, \<^verbatim>\<open>encoding/json\<close>, \<^verbatim>\<open>encoding/base64\<close> and
    \<^verbatim>\<open>crypto/sha256\<close>, each written out as the library does it.
  \<^item> \<open>Codec\<close>, \<open>Jsonl_Codec\<close>: \<^verbatim>\<open>segment/codec.go\<close> and \<^verbatim>\<open>segment/hash.go\<close>. The interface of a codec is the
    record \<open>codec\<close>, its contract the locale \<open>lawful_codec\<close>: frames read back, scans find exactly the whole
    frames of any cut of a file. Both codecs are interpretations of it, \<open>binary\<close> and \<open>jsonl\<close>.
  \<^item> \<open>Segment\<close>: \<^verbatim>\<open>segment/segment.go\<close> and \<^verbatim>\<open>segment/cache.go\<close>; \<open>Sealed\<close>: \<^verbatim>\<open>disk/sealed.go\<close>.
  \<^item> \<open>Disk_Log\<close>: \<^verbatim>\<open>disk/log.go\<close>; \<open>Fork_Marker\<close>, \<open>Disk_Fork\<close>: \<^verbatim>\<open>disk/fork.go\<close>; \<open>Disk_Store\<close>:
    \<^verbatim>\<open>disk/store.go\<close>. A log with its parents is the datatype \<open>dlog\<close>; every operation takes and returns it
    together with the file system, since reading a log opens its sealed segments.
  \<^item> \<open>Buffered_Log\<close>: \<^verbatim>\<open>log/log.go\<close>. A sync is cut into the steps between which the code gives up its lock.
  \<^item> \<open>Forest_Budget\<close>: \<^verbatim>\<open>forest/forest.go\<close>; \<open>Forest_Cache\<close>: \<^verbatim>\<open>forest/cache.go\<close>. The locale \<open>evicting\<close> is what the
    accountant asks of an owner of cached runs, and the cache is its interpretation \<open>cache_owner\<close>.
  \<^item> \<open>Xwal_Names\<close>: \<^verbatim>\<open>xwal/fsname.go\<close> and small parts of \<^verbatim>\<open>xwal/xwal.go\<close> and \<^verbatim>\<open>xwal/trunks.go\<close>;
    \<open>Node_Index\<close>: \<^verbatim>\<open>xwal/index.go\<close> and \<^verbatim>\<open>xwal/nodeinfo.go\<close>; \<open>Frames\<close>, \<open>Channels\<close>: the record frames and the
    channels of \<^verbatim>\<open>xwal/xwal.go\<close>.

  The definitions carry the names of the code, with a prefix where two of them clash (\<open>disk_\<close>, \<open>blog_\<close>,
  \<open>seg_\<close>, \<open>ss_\<close>, \<open>ix_\<close>, \<open>x_\<close>) and the record fields with one for each type; a loop or a callback of a function is
  a definition of its own next to it. An error is an \<open>Inl\<close> of the type \<open>err\<close>. Indexes are natural numbers and
  wrap at $2^{64}$ wherever the code adds to or subtracts from them (\<open>u64_add\<close>, \<open>u64_sub\<close>); signed numbers are integers.
  Go maps are association lists or finite maps.

  \<^bold>\<open>What the lemmas show.\<close>
  \<^item> Segments: recovery keeps exactly the whole frames of a torn file, appended records are read back at their
    index, and reading through the cache is reading the file.
  \<^item> Disk logs (\<open>Disk_Log_Spec\<close>, \<open>Disk_Write\<close>, \<open>Disk_Reopen\<close>, \<open>Disk_Theorems\<close>, \<open>Disk_Truncate\<close>): an abstract log is a list
    of segments with a parent, \<open>represents\<close> relates it to a \<open>dlog\<close> and its files, and \<open>visible\<close> is the list of its
    records. Reads, walks, scans and writes are those of that list; a header is the fold of the records before;
    what a crash leaves of the newest segment is opened as the log of the records that were whole; truncation
    keeps the rest. Three lemmas show where the code does something else than it means to.
  \<^item> Buffered logs (\<open>Buffered_Spec\<close>, \<open>Buffered_Sync\<close>): \<open>shown\<close> is the list of visible and buffered records. It
    never changes but by appends, through every interleaving of the steps of a sync with appends, also when the
    sync fails; a sync that ends well has made its records visible; the buffer stays within its bound.
  \<^item> The forest (\<open>Forest_Spec\<close>, \<open>Forest_Range\<close>, \<open>Forest_Theorems\<close>): the meter is the sum of the resident runs over all
    sequences of operations, eviction takes the coldest and ends within the budget, and a range along a lineage
    returns the units of the layer below, whatever is resident.
  \<^item> Nodes: names and markers read back, spawning is rebuilding, minted ids are fresh.
  \<^item> Channels (\<open>Frames\<close>, \<open>Channels_Spec\<close>, \<open>Channels_Lookup\<close>): a record frame reads back by either decoder; a coherent
    sync persists a cut in which no record is ahead of the main record it refers to; the lazy index of a
    channel finds the newest record for a main index, and an appended record is the one found next.

  \<^bold>\<open>Loops and bounds.\<close> There is no fuel: recursions are structural or have a termination proof (binary searches by
  the width of the interval, scanners by the bytes left, the opening of a log by the length of its path). The loops of
  the code that nothing in their own text makes end are partial functions, in which \<open>None\<close> is not returning:
  \<open>range_loop\<close> of a disk log, \<open>charge_loop\<close> and \<open>trim_owner\<close> of the budget, \<open>materialize_loop\<close> of a cache. That they
  return is part of what is shown about them (\<open>disk_range_visible\<close>, \<open>blog_range_shown\<close>, \<open>forest_range_exact\<close>,
  \<open>forest_budget_fits\<close>), and \<open>disk_range_stuck\<close> shows a case in which one does not. Hypotheses that
  an index is below \<open>u64_max\<close> keep the next index from wrapping.

  \<^bold>\<open>Not modelled.\<close> Locks, goroutines and timers, but for the steps of a sync; \<^verbatim>\<open>fsync\<close>, whose effect is that a crash takes
  only a suffix of the newest segment; failures of the disk in the middle of an operation, apart from the errors
  the file operations document; the clock, whose reading is an argument; \<^verbatim>\<open>flock\<close> (\<^verbatim>\<open>xwal/flock_*.go\<close>) and
  \<^verbatim>\<open>disk/sync_*.go\<close>; the opening of a branch with its manifest, and the operations on trees of nodes
  (\<^verbatim>\<open>xwal/trunks.go\<close>, \<^verbatim>\<open>xwal/store.go\<close>, \<^verbatim>\<open>xwal/flatten.go\<close>, \<^verbatim>\<open>xwal/detach.go\<close>, \<^verbatim>\<open>xwal/rename.go\<close>), apart from
  the index they keep; the commands (\<^verbatim>\<open>cmd/\<close>) and the crash harness (\<^verbatim>\<open>crashtest/\<close>).
\<close>

end
